(* ===== verification/Prelude.thy ===== *)
theory Prelude
  imports Main "HOL-Library.Word" "HOL-Library.Char_ord" "HOL-Library.List_Lexorder"
    "HOL-Library.Product_Lexorder" "HOL-Library.Signed_Division"
begin

text \<open>
  Shared material of the development: the model of \<open>absl::Status\<close> and
  \<open>absl::StatusOr\<close> as a sum type, sequencing of fallible steps and loops with an
  early return, 64-bit signed arithmetic in which an overflow (undefined behaviour in
  C++) is a visible outcome, decimal rendering of integers for status messages, and
  ordered association lists for the hash and tree maps of the source.
\<close>

named_theorems status_simps \<open>characterisations of successful fallible steps\<close>
named_theorems arith64_simps \<open>definitions of the 64-bit signed operations\<close>

section \<open>Status values\<close>

text \<open>
  The codes of \<open>absl::Status\<close> the code returns, and two outcomes that are not status
  values in C++: \<open>Undefined\<close> marks a step whose behaviour the language leaves
  undefined (signed overflow, an index outside a vector), \<open>Thrown\<close> an exception.
\<close>

datatype status_code =
    InvalidArgument | NotFound | FailedPrecondition | OutOfRange | ResourceExhausted
  | Unimplemented | Internal | Cancelled | Undefined | Thrown

datatype error = Error (err_code: status_code) (err_message: string)

type_synonym 'a status_or = "error + 'a"
type_synonym status = "unit status_or"

abbreviation OkStatus :: status where
  "OkStatus \<equiv> Inr ()"

abbreviation InvalidArgumentError :: "string \<Rightarrow> 'a status_or" where
  "InvalidArgumentError m \<equiv> Inl (Error InvalidArgument m)"

abbreviation FailedPreconditionError :: "string \<Rightarrow> 'a status_or" where
  "FailedPreconditionError m \<equiv> Inl (Error FailedPrecondition m)"

abbreviation ResourceExhaustedError :: "string \<Rightarrow> 'a status_or" where
  "ResourceExhaustedError m \<equiv> Inl (Error ResourceExhausted m)"

abbreviation OutOfRangeError :: "string \<Rightarrow> 'a status_or" where
  "OutOfRangeError m \<equiv> Inl (Error OutOfRange m)"

abbreviation InternalError :: "string \<Rightarrow> 'a status_or" where
  "InternalError m \<equiv> Inl (Error Internal m)"

abbreviation UnimplementedError :: "string \<Rightarrow> 'a status_or" where
  "UnimplementedError m \<equiv> Inl (Error Unimplemented m)"

abbreviation UndefinedBehaviour :: "string \<Rightarrow> 'a status_or" where
  "UndefinedBehaviour m \<equiv> Inl (Error Undefined m)"

text \<open>\<open>if (!x.ok()) return x.status();\<close> followed by the rest of the function.\<close>

definition and_then :: "'a status_or \<Rightarrow> ('a \<Rightarrow> 'b status_or) \<Rightarrow> 'b status_or" where
  "and_then r k = (case r of Inl e \<Rightarrow> Inl e | Inr x \<Rightarrow> k x)"

text \<open>A \<open>for\<close> loop whose body may return an error out of the function.\<close>

fun foldM :: "('s \<Rightarrow> 'x \<Rightarrow> 's status_or) \<Rightarrow> 's \<Rightarrow> 'x list \<Rightarrow> 's status_or" where
  "foldM f s [] = Inr s"
| "foldM f s (x # xs) = and_then (f s x) (\<lambda>s'. foldM f s' xs)"

text \<open>A validation loop: the first error, or success for every element.\<close>

fun check_each :: "('x \<Rightarrow> status) \<Rightarrow> 'x list \<Rightarrow> status" where
  "check_each f [] = OkStatus"
| "check_each f (x # xs) = and_then (f x) (\<lambda>_. check_each f xs)"

section \<open>64-bit signed arithmetic\<close>

definition INT64_MAX :: int where
  "INT64_MAX = 9223372036854775807"

definition INT64_MIN :: int where
  "INT64_MIN = - 9223372036854775808"

definition is_int64 :: "int \<Rightarrow> bool" where
  "is_int64 x \<longleftrightarrow> INT64_MIN \<le> x \<and> x \<le> INT64_MAX"

definition add64 :: "int \<Rightarrow> int \<Rightarrow> int status_or" where
  "add64 a b = (if is_int64 (a + b) then Inr (a + b) else UndefinedBehaviour ''signed overflow'')"

definition sub64 :: "int \<Rightarrow> int \<Rightarrow> int status_or" where
  "sub64 a b = (if is_int64 (a - b) then Inr (a - b) else UndefinedBehaviour ''signed overflow'')"

definition mul64 :: "int \<Rightarrow> int \<Rightarrow> int status_or" where
  "mul64 a b = (if is_int64 (a * b) then Inr (a * b) else UndefinedBehaviour ''signed overflow'')"

section \<open>Decimal rendering\<close>

fun dec_of_nat :: "nat \<Rightarrow> string" where
  "dec_of_nat n =
     (if n < 10 then [char_of (48 + n)]
      else dec_of_nat (n div 10) @ [char_of (48 + n mod 10)])"

declare dec_of_nat.simps [simp del]

definition dec :: "int \<Rightarrow> string" where
  "dec i = (if i < 0 then ''-'' @ dec_of_nat (nat (- i)) else dec_of_nat (nat i))"

text \<open>\<open>absl::StrJoin\<close>.\<close>

fun str_join :: "string \<Rightarrow> string list \<Rightarrow> string" where
  "str_join sep [] = []"
| "str_join sep [x] = x"
| "str_join sep (x # y # xs) = x @ sep @ str_join sep (y # xs)"

section \<open>Maps as association lists\<close>

text \<open>
  A hash map or a tree map of the source is a list of key and value pairs with distinct
  keys. Iteration runs over the list; the theorems hold for every list that represents
  the map, so they hold for every iteration order. \<open>map_of\<close> is lookup, \<open>put\<close> is
  \<open>m[k] = v\<close>, \<open>del\<close> is \<open>m.erase(k)\<close>.
\<close>

type_synonym ('k, 'v) amap = "('k \<times> 'v) list"

fun put :: "'k \<Rightarrow> 'v \<Rightarrow> ('k, 'v) amap \<Rightarrow> ('k, 'v) amap" where
  "put k v [] = [(k, v)]"
| "put k v ((k', v') # m) = (if k' = k then (k, v) # m else (k', v') # put k v m)"

definition del :: "'k \<Rightarrow> ('k, 'v) amap \<Rightarrow> ('k, 'v) amap" where
  "del k m = filter (\<lambda>p. fst p \<noteq> k) m"

abbreviation keys :: "('k, 'v) amap \<Rightarrow> 'k list" where
  "keys m \<equiv> map fst m"

abbreviation amap_ok :: "('k, 'v) amap \<Rightarrow> bool" where
  "amap_ok m \<equiv> distinct (keys m)"

section \<open>Lemmas\<close>

lemma and_then_simps [simp]:
  "and_then (Inl e) k = Inl e"
  "and_then (Inr x) k = k x"
  by (simp_all add: and_then_def)

lemma and_then_Inr_iff [status_simps]:
  "and_then r k = Inr y \<longleftrightarrow> (\<exists>x. r = Inr x \<and> k x = Inr y)"
  by (cases r) simp_all

lemma and_then_cong [fundef_cong]:
  "r = r' \<Longrightarrow> (\<And>x. r' = Inr x \<Longrightarrow> k x = k' x) \<Longrightarrow> and_then r k = and_then r' k'"
  by (cases r') simp_all

lemma if_Inl_eq_Inr [status_simps]:
  "(if b then Inl e else r) = Inr x \<longleftrightarrow> \<not> b \<and> r = Inr x"
  by simp

lemma status_ok_iff: "(r :: status) = OkStatus \<longleftrightarrow> (\<exists>u. r = Inr u)"
  by simp

lemma foldM_append: "foldM f s (xs @ ys) = and_then (foldM f s xs) (\<lambda>s'. foldM f s' ys)"
proof (induction xs arbitrary: s)
  case (Cons x xs)
  then show ?case by (cases "f s x") simp_all
qed simp

lemma foldM_cong [fundef_cong]:
  assumes "s = s'" "xs = xs'" "\<And>t x. x \<in> set xs' \<Longrightarrow> f t x = f' t x"
  shows "foldM f s xs = foldM f' s' xs'"
proof -
  have "(\<And>t x. x \<in> set xs' \<Longrightarrow> f t x = f' t x) \<Longrightarrow> foldM f s' xs' = foldM f' s' xs'"
    by (induction xs' arbitrary: s') (auto intro!: and_then_cong)
  with assms show ?thesis by blast
qed

text \<open>The rule for a loop invariant: what every iteration keeps, the loop keeps.\<close>

lemma foldM_invariant:
  assumes "foldM f s xs = Inr s'" and "P s"
    and "\<And>t x t'. x \<in> set xs \<Longrightarrow> P t \<Longrightarrow> f t x = Inr t' \<Longrightarrow> P t'"
  shows "P s'"
  using assms
proof (induction xs arbitrary: s)
  case Nil
  then show ?case by simp
next
  case (Cons x xs)
  from Cons.prems(1) obtain t where t: "f s x = Inr t" and rest: "foldM f t xs = Inr s'"
    by (auto simp: and_then_Inr_iff)
  have "P t" by (rule Cons.prems(3) [OF _ Cons.prems(2) t]) simp
  then show ?case
    by (rule Cons.IH [OF rest]) (rule Cons.prems(3), simp_all)
qed

text \<open>A loop whose body appends to a vector.\<close>

lemma foldM_appends:
  assumes "foldM f s xs = Inr s'" and "\<And>x s s'. x \<in> set xs \<Longrightarrow> f s x = Inr s' \<Longrightarrow> s' = s @ g x"
  shows "s' = s @ concat (map g xs)"
  using assms
proof (induction xs arbitrary: s)
  case (Cons x xs)
  from Cons.prems(1) obtain t where t: "f s x = Inr t" "foldM f t xs = Inr s'"
    by (auto simp: and_then_Inr_iff)
  have "t = s @ g x" using Cons.prems(2) [OF _ t(1)] by simp
  moreover have "s' = t @ concat (map g xs)" using Cons.IH [OF t(2)] Cons.prems(2) by simp
  ultimately show ?case by simp
qed simp

lemma foldM_append_total:
  assumes "\<And>x s. x \<in> set xs \<Longrightarrow> f s x = Inr (s @ g x)"
  shows "foldM f s xs = Inr (s @ concat (map g xs))"
  using assms by (induction xs arbitrary: s) simp_all

lemma foldM_each:
  assumes "foldM f s xs = Inr s'" "x \<in> set xs"
  shows "\<exists>t t'. f t x = Inr t'"
  using assms by (induction xs arbitrary: s) (auto simp: and_then_Inr_iff)

text \<open>What holds of the error, and of the value, of a fallible step.\<close>

definition outcome :: "(error \<Rightarrow> bool) \<Rightarrow> ('a \<Rightarrow> bool) \<Rightarrow> 'a status_or \<Rightarrow> bool" where
  "outcome E Q r \<longleftrightarrow> (case r of Inl e \<Rightarrow> E e | Inr x \<Rightarrow> Q x)"

lemma outcome_simps [simp]: "outcome E Q (Inl e) = E e" "outcome E Q (Inr x) = Q x"
  by (simp_all add: outcome_def)

lemma outcome_and_then:
  "outcome E R r \<Longrightarrow> (\<And>x. r = Inr x \<Longrightarrow> R x \<Longrightarrow> outcome E Q (k x)) \<Longrightarrow> outcome E Q (and_then r k)"
  by (cases r) (simp_all add: outcome_def)

lemma outcome_foldM:
  assumes "I s" and "\<And>x s. x \<in> set xs \<Longrightarrow> I s \<Longrightarrow> outcome E I (f s x)"
  shows "outcome E I (foldM f s xs)"
  using assms
proof (induction xs arbitrary: s)
  case (Cons x xs)
  have "outcome E I (f s x)" using Cons.prems by simp
  then show ?case using Cons.IH Cons.prems(2) by (auto intro!: outcome_and_then)
qed simp

lemma check_each_ok [status_simps]:
  "check_each f xs = Inr u \<longleftrightarrow> (\<forall>x\<in>set xs. f x = OkStatus)"
  by (induction xs) (auto simp: and_then_Inr_iff)

lemma check_each_Inl:
  "check_each f xs = Inl e \<Longrightarrow> \<exists>x\<in>set xs. f x = Inl e"
proof (induction xs)
  case (Cons x xs)
  then show ?case by (cases "f x") auto
qed simp

lemma add64_Inr [status_simps]: "add64 a b = Inr c \<longleftrightarrow> c = a + b \<and> is_int64 (a + b)"
  by (auto simp: add64_def)

lemma sub64_Inr [status_simps]: "sub64 a b = Inr c \<longleftrightarrow> c = a - b \<and> is_int64 (a - b)"
  by (auto simp: sub64_def)

lemma mul64_Inr [status_simps]: "mul64 a b = Inr c \<longleftrightarrow> c = a * b \<and> is_int64 (a * b)"
  by (auto simp: mul64_def)

lemma add64_in_range: "is_int64 (a + b) \<Longrightarrow> add64 a b = Inr (a + b)"
  by (simp add: add64_def)

lemma sub64_in_range: "is_int64 (a - b) \<Longrightarrow> sub64 a b = Inr (a - b)"
  by (simp add: sub64_def)

lemma mul64_in_range: "is_int64 (a * b) \<Longrightarrow> mul64 a b = Inr (a * b)"
  by (simp add: mul64_def)

lemmas int64_defs [arith64_simps] =
  add64_def sub64_def mul64_def is_int64_def INT64_MAX_def INT64_MIN_def

lemma is_int64_mono: "is_int64 a \<Longrightarrow> is_int64 c \<Longrightarrow> a \<le> b \<Longrightarrow> b \<le> c \<Longrightarrow> is_int64 b"
  by (simp add: is_int64_def)

lemma is_int64_between: "0 \<le> x \<Longrightarrow> x \<le> INT64_MAX \<Longrightarrow> is_int64 x"
  by (simp add: is_int64_def INT64_MIN_def)

lemma map_of_put [simp]: "map_of (put k v m) = (map_of m)(k \<mapsto> v)"
  by (induction k v m rule: put.induct) (auto simp: fun_eq_iff)

lemma put_put [simp]: "put k v (put k w m) = put k v m"
  by (induction m) auto

lemma map_of_del [simp]: "map_of (del k m) = (map_of m)(k := None)"
  by (induction m) (auto simp: del_def fun_eq_iff)

lemma set_keys_put [simp]: "set (keys (put k v m)) = insert k (set (keys m))"
  by (induction k v m rule: put.induct) auto

lemma fst_set_put [simp]: "fst ` set (put k v m) = insert k (fst ` set m)"
  using set_keys_put [of k v m] by simp

lemma keys_del: "keys (del k m) = filter (\<lambda>k'. k' \<noteq> k) (keys m)"
  by (induction m) (auto simp: del_def)

lemma fst_set_del [simp]: "fst ` set (del k m) = fst ` set m - {k}"
  by (auto simp: del_def)

lemma amap_ok_put [simp]: "amap_ok (put k v m) = amap_ok m"
  by (induction k v m rule: put.induct) (auto simp: image_iff)

lemma amap_ok_del [simp]: "amap_ok m \<Longrightarrow> amap_ok (del k m)"
  by (simp only: keys_del distinct_filter)

lemma amap_ok_filter [simp]: "amap_ok m \<Longrightarrow> amap_ok (filter P m)"
  by (induction m) auto

lemma del_many:
  "map_of (foldl (\<lambda>m rid. del rid m) m rs) = (map_of m) |` (- set rs)"
  "amap_ok m \<Longrightarrow> amap_ok (foldl (\<lambda>m rid. del rid m) m rs)"
  by (induction rs arbitrary: m) (auto simp: restrict_map_def fun_eq_iff)

lemma map_of_filter_ok:
  "amap_ok m \<Longrightarrow> map_of (filter P m) k =
     (case map_of m k of None \<Rightarrow> None | Some v \<Rightarrow> if P (k, v) then Some v else None)"
proof (induction m)
  case Nil
  then show ?case by simp
next
  case (Cons p m)
  obtain k' v' where p: "p = (k', v')" by (cases p)
  have IH: "map_of (filter P m) k =
      (case map_of m k of None \<Rightarrow> None | Some v \<Rightarrow> if P (k, v) then Some v else None)"
    using Cons by simp
  show ?case
  proof (cases "k' = k")
    case True
    then have "map_of m k = None"
      using Cons.prems p by (simp add: map_of_eq_None_iff)
    with True p IH show ?thesis by simp
  next
    case False
    with p IH show ?thesis by simp
  qed
qed

lemma mem_amap_iff: "amap_ok m \<Longrightarrow> (k, v) \<in> set m \<longleftrightarrow> map_of m k = Some v"
  by simp

lemma filter_upt_distinct [simp]: "distinct (filter P [0..<n])"
  by simp

lemma set_take_sorted_key:
  assumes "sorted (map f xs)" "x \<in> set (take n xs)" "y \<in> set (drop n xs)"
  shows "f x \<le> f y"
proof -
  have "sorted (map f (take n xs) @ map f (drop n xs))"
    using assms(1) by (simp flip: map_append)
  with assms(2,3) show ?thesis by (auto simp: sorted_append)
qed

end
