(* ===== verification/BlockManager.thy ===== *)
theory BlockManager
  imports Prelude
begin

text \<open>
  \<open>kv_cache/logical_block_manager\<close>: the pool of logical KV-cache blocks with locking
  and least-recently-used eviction. The record follows the class: \<open>total_blocks_\<close>,
  the 64-bit access counter (a word, so \<open>++access_counter_\<close> wraps) and the vector of
  block states. Every operation returns its status and the new state. The abstract
  specification is an ownership map from block to free, unlocked or locked; the
  concrete operations refine it.
\<close>

section \<open>State\<close>

record BlockState =
  is_allocated :: bool
  is_locked :: bool
  last_access_counter :: "64 word"

record LogicalBlockManager =
  total_blocks :: int
  access_counter :: "64 word"
  blocks :: "BlockState list"

definition fresh_block :: BlockState where
  "fresh_block = \<lparr>is_allocated = False, is_locked = False, last_access_counter = 0\<rparr>"

definition LogicalBlockManager_init :: "int \<Rightarrow> LogicalBlockManager status_or" where
  "LogicalBlockManager_init num_blocks =
     (if num_blocks < 0 then Inl (Error Thrown ''std::length_error'')
      else Inr \<lparr>total_blocks = num_blocks, access_counter = 0,
                blocks = replicate (nat num_blocks) fresh_block\<rparr>)"

definition modify_block ::
  "(BlockState \<Rightarrow> BlockState) \<Rightarrow> nat \<Rightarrow> LogicalBlockManager \<Rightarrow> LogicalBlockManager" where
  "modify_block f i m = m\<lparr>blocks := (blocks m)[i := f (blocks m ! i)]\<rparr>"

definition modify_blocks ::
  "(BlockState \<Rightarrow> BlockState) \<Rightarrow> nat list \<Rightarrow> LogicalBlockManager \<Rightarrow> LogicalBlockManager" where
  "modify_blocks f ids m = fold (modify_block f) ids m"

section \<open>Operations\<close>

definition free_block_ids :: "LogicalBlockManager \<Rightarrow> nat list" where
  "free_block_ids m =
     filter (\<lambda>i. \<not> is_allocated (blocks m ! i)) [0..<nat (total_blocks m)]"

definition evictable_block_ids :: "LogicalBlockManager \<Rightarrow> nat list" where
  "evictable_block_ids m =
     filter (\<lambda>i. is_allocated (blocks m ! i) \<and> \<not> is_locked (blocks m ! i))
       [0..<nat (total_blocks m)]"

definition lru_order :: "LogicalBlockManager \<Rightarrow> nat list \<Rightarrow> nat list" where
  "lru_order m ids = sort_key (\<lambda>i. (last_access_counter (blocks m ! i), i)) ids"

definition Allocate ::
  "LogicalBlockManager \<Rightarrow> int \<Rightarrow> bool \<Rightarrow> int list status_or \<times> LogicalBlockManager" where
  "Allocate m num_blocks_to_allocate lock =
     (if num_blocks_to_allocate \<le> 0 then
        (InvalidArgumentError (''Requested blocks must be > 0, got '' @ dec num_blocks_to_allocate), m)
      else if num_blocks_to_allocate > total_blocks m then
        (InvalidArgumentError (''Requested blocks ('' @ dec num_blocks_to_allocate @
           '') exceed total blocks ('' @ dec (total_blocks m) @ '')''), m)
      else
        let free_ids = free_block_ids m; evictable_ids = evictable_block_ids m in
        if int (length free_ids + length evictable_ids) < num_blocks_to_allocate then
          (ResourceExhaustedError (''Insufficient available blocks. Requested: '' @
             dec num_blocks_to_allocate @ '', Free: '' @ dec (int (length free_ids)) @
             '', Evictable: '' @ dec (int (length evictable_ids))), m)
        else
          let free_to_use = min (int (length free_ids)) num_blocks_to_allocate;
              needed_blocks = num_blocks_to_allocate - free_to_use;
              victims = (if needed_blocks > 0
                         then take (nat needed_blocks) (lru_order m evictable_ids) else []);
              evicted = modify_blocks (\<lambda>b. b\<lparr>is_allocated := False\<rparr>) victims m;
              allocated_block_ids = take (nat free_to_use) free_ids @ victims;
              counted = evicted\<lparr>access_counter := access_counter evicted + 1\<rparr>
          in (Inr (map int allocated_block_ids),
              modify_blocks
                (\<lambda>b. b\<lparr>is_allocated := True, is_locked := lock,
                        last_access_counter := access_counter counted\<rparr>)
                allocated_block_ids counted))"

definition validate_target ::
  "LogicalBlockManager \<Rightarrow> bool list \<Rightarrow> int \<Rightarrow> bool list status_or" where
  "validate_target m seen block_id =
     (if block_id < 0 \<or> block_id \<ge> total_blocks m then
        InvalidArgumentError (''Invalid block ID: '' @ dec block_id)
      else if is_allocated (blocks m ! nat block_id) then
        FailedPreconditionError (''Already allocated block ID: '' @ dec block_id)
      else if seen ! nat block_id then
        InvalidArgumentError (''Duplicate block ID: '' @ dec block_id)
      else Inr (seen[nat block_id := True]))"

definition AllocateTarget ::
  "LogicalBlockManager \<Rightarrow> int list \<Rightarrow> status \<times> LogicalBlockManager" where
  "AllocateTarget m block_ids =
     (case foldM (validate_target m) (replicate (nat (total_blocks m)) False) block_ids of
        Inl e \<Rightarrow> (Inl e, m)
      | Inr _ \<Rightarrow>
          let counted = m\<lparr>access_counter := access_counter m + 1\<rparr> in
          (OkStatus,
           modify_blocks
             (\<lambda>b. b\<lparr>is_allocated := True, is_locked := True,
                     last_access_counter := access_counter counted\<rparr>)
             (map nat block_ids) counted))"

definition validate_allocated :: "string \<Rightarrow> LogicalBlockManager \<Rightarrow> int \<Rightarrow> status" where
  "validate_allocated what m block_id =
     (if block_id < 0 \<or> block_id \<ge> total_blocks m then
        InvalidArgumentError (''Invalid block ID: '' @ dec block_id)
      else if \<not> is_allocated (blocks m ! nat block_id) then
        InvalidArgumentError (''Cannot '' @ what @ '' unallocated block ID: '' @ dec block_id)
      else OkStatus)"

definition Unlock :: "LogicalBlockManager \<Rightarrow> int list \<Rightarrow> status \<times> LogicalBlockManager" where
  "Unlock m block_ids =
     (case check_each (validate_allocated ''unlock'' m) block_ids of
        Inl e \<Rightarrow> (Inl e, m)
      | Inr _ \<Rightarrow> (OkStatus, modify_blocks (\<lambda>b. b\<lparr>is_locked := False\<rparr>) (map nat block_ids) m))"

definition Deallocate :: "LogicalBlockManager \<Rightarrow> int list \<Rightarrow> status \<times> LogicalBlockManager" where
  "Deallocate m block_ids =
     (case check_each (validate_allocated ''deallocate'' m) block_ids of
        Inl e \<Rightarrow> (Inl e, m)
      | Inr _ \<Rightarrow>
          (OkStatus,
           modify_blocks (\<lambda>b. b\<lparr>is_allocated := False, is_locked := False\<rparr>) (map nat block_ids) m))"

definition AccessBlock :: "LogicalBlockManager \<Rightarrow> int \<Rightarrow> status \<times> LogicalBlockManager" where
  "AccessBlock m block_id =
     (case validate_allocated ''access'' m block_id of
        Inl e \<Rightarrow> (Inl e, m)
      | Inr _ \<Rightarrow>
          let counted = m\<lparr>access_counter := access_counter m + 1\<rparr> in
          (OkStatus,
           modify_block (\<lambda>b. b\<lparr>last_access_counter := access_counter counted\<rparr>)
             (nat block_id) counted))"

definition IsAllocated :: "LogicalBlockManager \<Rightarrow> int \<Rightarrow> bool" where
  "IsAllocated m block_id =
     (if block_id < 0 \<or> block_id \<ge> total_blocks m then False
      else is_allocated (blocks m ! nat block_id))"

definition IsLocked :: "LogicalBlockManager \<Rightarrow> int \<Rightarrow> bool" where
  "IsLocked m block_id =
     (if block_id < 0 \<or> block_id \<ge> total_blocks m then False
      else is_locked (blocks m ! nat block_id))"

fun count_blocks :: "(BlockState \<Rightarrow> bool) \<Rightarrow> BlockState list \<Rightarrow> int \<Rightarrow> int" where
  "count_blocks p [] count = count"
| "count_blocks p (b # bs) count = count_blocks p bs (if p b then count + 1 else count)"

definition num_free_blocks :: "LogicalBlockManager \<Rightarrow> int" where
  "num_free_blocks m = count_blocks (\<lambda>b. \<not> is_allocated b) (blocks m) 0"

definition num_allocated_blocks :: "LogicalBlockManager \<Rightarrow> int" where
  "num_allocated_blocks m = count_blocks is_allocated (blocks m) 0"

definition num_locked_blocks :: "LogicalBlockManager \<Rightarrow> int" where
  "num_locked_blocks m = count_blocks is_locked (blocks m) 0"

text \<open>The steps a client can take; a failed call is a step too (it changes nothing).\<close>

inductive lbm_step :: "LogicalBlockManager \<Rightarrow> LogicalBlockManager \<Rightarrow> bool" where
  allocate: "Allocate m n lock = (r, m') \<Longrightarrow> lbm_step m m'"
| allocate_target: "AllocateTarget m ids = (s, m') \<Longrightarrow> lbm_step m m'"
| unlock: "Unlock m ids = (s, m') \<Longrightarrow> lbm_step m m'"
| deallocate: "Deallocate m ids = (s, m') \<Longrightarrow> lbm_step m m'"
| access: "AccessBlock m i = (s, m') \<Longrightarrow> lbm_step m m'"

inductive lbm_reachable :: "int \<Rightarrow> LogicalBlockManager \<Rightarrow> bool" for n where
  init: "LogicalBlockManager_init n = Inr m \<Longrightarrow> lbm_reachable n m"
| step: "lbm_reachable n m \<Longrightarrow> lbm_step m m' \<Longrightarrow> lbm_reachable n m'"

section \<open>Invariant and abstract ownership\<close>

definition lbm_inv :: "LogicalBlockManager \<Rightarrow> bool" where
  "lbm_inv m \<longleftrightarrow> int (length (blocks m)) = total_blocks m \<and>
     list_all (\<lambda>b. is_locked b \<longrightarrow> is_allocated b) (blocks m)"

datatype ownership = Free | Unlocked | Locked

definition owner_of :: "BlockState \<Rightarrow> ownership" where
  "owner_of b = (if is_locked b then Locked else if is_allocated b then Unlocked else Free)"

definition ownership_map :: "LogicalBlockManager \<Rightarrow> nat \<Rightarrow> ownership" where
  "ownership_map m i = (if i < length (blocks m) then owner_of (blocks m ! i) else Free)"

definition assign :: "ownership \<Rightarrow> int list \<Rightarrow> (nat \<Rightarrow> ownership) \<Rightarrow> nat \<Rightarrow> ownership" where
  "assign w ids own = (\<lambda>i. if int i \<in> set ids then w else own i)"

section \<open>Lemmas\<close>

lemma modify_block_fields [simp]:
  "total_blocks (modify_block f i m) = total_blocks m"
  "access_counter (modify_block f i m) = access_counter m"
  "length (blocks (modify_block f i m)) = length (blocks m)"
  by (simp_all add: modify_block_def)

lemma modify_blocks_fields [simp]:
  "total_blocks (modify_blocks f ids m) = total_blocks m"
  "access_counter (modify_blocks f ids m) = access_counter m"
  "length (blocks (modify_blocks f ids m)) = length (blocks m)"
  by (induction ids arbitrary: m) (simp_all add: modify_blocks_def)

lemma modify_blocks_nth:
  assumes "\<And>b. f (f b) = f b" and "j < length (blocks m)"
  shows "blocks (modify_blocks f ids m) ! j =
    (if j \<in> set ids then f (blocks m ! j) else blocks m ! j)"
  using assms(2)
proof (induction ids arbitrary: m)
  case Nil
  then show ?case by (simp add: modify_blocks_def)
next
  case (Cons i ids)
  have "blocks (modify_blocks f (i # ids) m) ! j =
      blocks (modify_blocks f ids (modify_block f i m)) ! j"
    by (simp add: modify_blocks_def)
  also have "\<dots> = (if j \<in> set ids then f (blocks (modify_block f i m) ! j)
                  else blocks (modify_block f i m) ! j)"
    using Cons by simp
  finally show ?case
    using Cons.prems assms(1) by (cases "i = j") (auto simp: modify_block_def)
qed

lemma lbm_inv_length: "lbm_inv m \<Longrightarrow> nat (total_blocks m) = length (blocks m)"
  unfolding lbm_inv_def by linarith

lemma lbm_inv_nthD:
  "lbm_inv m \<Longrightarrow> i < length (blocks m) \<Longrightarrow> is_locked (blocks m ! i) \<Longrightarrow> is_allocated (blocks m ! i)"
  by (simp add: lbm_inv_def list_all_length)

lemma lbm_invI:
  assumes "int (length (blocks m)) = total_blocks m"
    and "\<And>i. i < length (blocks m) \<Longrightarrow> is_locked (blocks m ! i) \<Longrightarrow> is_allocated (blocks m ! i)"
  shows "lbm_inv m"
  using assms by (simp add: lbm_inv_def list_all_length)

lemma lbm_inv_modify_blocks:
  assumes "lbm_inv m" and "\<And>b. f (f b) = f b"
    and "\<And>i. i \<in> set ids \<Longrightarrow> i < length (blocks m) \<Longrightarrow>
          is_locked (f (blocks m ! i)) \<Longrightarrow> is_allocated (f (blocks m ! i))"
  shows "lbm_inv (modify_blocks f ids m)"
proof (rule lbm_invI)
  show "int (length (blocks (modify_blocks f ids m))) = total_blocks (modify_blocks f ids m)"
    using assms(1) by (simp add: lbm_inv_def)
qed (use assms in \<open>auto simp: modify_blocks_nth lbm_inv_nthD split: if_splits\<close>)

lemma count_blocks_eq: "count_blocks p bs c = c + int (length (filter p bs))"
  by (induction p bs c rule: count_blocks.induct) simp_all

lemma set_free_block_ids:
  "lbm_inv m \<Longrightarrow> set (free_block_ids m) = {i. i < length (blocks m) \<and> \<not> is_allocated (blocks m ! i)}"
  by (auto simp: free_block_ids_def lbm_inv_length)

lemma set_evictable_block_ids:
  "lbm_inv m \<Longrightarrow> set (evictable_block_ids m) =
     {i. i < length (blocks m) \<and> is_allocated (blocks m ! i) \<and> \<not> is_locked (blocks m ! i)}"
  by (auto simp: evictable_block_ids_def lbm_inv_length)

lemma distinct_block_ids [simp]:
  "distinct (free_block_ids m)" "distinct (evictable_block_ids m)"
  by (simp_all add: free_block_ids_def evictable_block_ids_def)

lemma lru_order_props [simp]:
  "set (lru_order m ids) = set ids" "length (lru_order m ids) = length ids"
  "distinct (lru_order m ids) = distinct ids"
  by (simp_all add: lru_order_def)

definition chosen_free :: "LogicalBlockManager \<Rightarrow> int \<Rightarrow> nat list" where
  "chosen_free m n = take (nat n) (free_block_ids m)"

definition chosen_victims :: "LogicalBlockManager \<Rightarrow> int \<Rightarrow> nat list" where
  "chosen_victims m n =
     take (nat n - length (chosen_free m n)) (lru_order m (evictable_block_ids m))"

abbreviation chosen :: "LogicalBlockManager \<Rightarrow> int \<Rightarrow> nat list" where
  "chosen m n \<equiv> chosen_free m n @ chosen_victims m n"

lemma Allocate_ok:
  assumes "Allocate m n lock = (Inr ids, m')"
  shows "ids = map int (chosen m n)" "int (length (chosen m n)) = n"
    "total_blocks m' = total_blocks m" "access_counter m' = access_counter m + 1"
    "length (blocks m') = length (blocks m)"
    "\<And>j. j < length (blocks m) \<Longrightarrow> blocks m' ! j =
       (if j \<in> set (chosen m n)
        then \<lparr>is_allocated = True, is_locked = lock, last_access_counter = access_counter m + 1\<rparr>
        else blocks m ! j)"
proof -
  let ?fr = "chosen_free m n" and ?vs = "chosen_victims m n"
  define m1 where "m1 = modify_blocks (\<lambda>b. b\<lparr>is_allocated := False\<rparr>) ?vs m"
  define m2 where "m2 = m1\<lparr>access_counter := access_counter m1 + 1\<rparr>"
  have n: "0 < n" and enough: "n \<le> int (length (free_block_ids m) + length (evictable_block_ids m))"
    using assms by (auto simp: Allocate_def Let_def split: if_splits)
  have fr: "take (nat (min (int (length (free_block_ids m))) n)) (free_block_ids m) = ?fr"
    using n by (auto simp: chosen_free_def min_def)
  have "nat (n - min (int (length (free_block_ids m))) n) = nat n - length ?fr"
    using n by (auto simp: chosen_free_def min_def)
  then have vs: "(if n - min (int (length (free_block_ids m))) n > 0
      then take (nat (n - min (int (length (free_block_ids m))) n)) (lru_order m (evictable_block_ids m))
      else []) = ?vs"
    by (auto simp: chosen_victims_def)
  have res: "m' = modify_blocks (\<lambda>b. b\<lparr>is_allocated := True, is_locked := lock,
        last_access_counter := access_counter m2\<rparr>) (chosen m n) m2"
    and "ids = map int (chosen m n)"
    using assms unfolding Allocate_def Let_def fr vs by (auto simp: m1_def m2_def split: if_splits)
  then show "ids = map int (chosen m n)" by simp
  have len: "length (blocks m2) = length (blocks m)"
    by (simp add: m2_def m1_def)
  show "blocks m' ! j = (if j \<in> set (chosen m n)
        then \<lparr>is_allocated = True, is_locked = lock, last_access_counter = access_counter m + 1\<rparr>
        else blocks m ! j)" if "j < length (blocks m)" for j
    using that len unfolding res
    by (subst modify_blocks_nth) (auto simp: m2_def m1_def modify_blocks_nth)
  show "int (length (chosen m n)) = n"
    using enough n by (simp add: chosen_free_def chosen_victims_def min_def) linarith
  show "total_blocks m' = total_blocks m" "access_counter m' = access_counter m + 1"
    "length (blocks m') = length (blocks m)"
    by (simp_all add: res m2_def m1_def)
qed

lemma chosen_props:
  assumes "lbm_inv m"
  shows "distinct (chosen m n)"
    and "i \<in> set (chosen_free m n) \<Longrightarrow> i < length (blocks m) \<and> \<not> is_allocated (blocks m ! i)"
    and "i \<in> set (chosen_victims m n) \<Longrightarrow>
      i < length (blocks m) \<and> is_allocated (blocks m ! i) \<and> \<not> is_locked (blocks m ! i)"
    and "chosen_victims m n \<noteq> [] \<Longrightarrow> chosen_free m n = free_block_ids m"
proof -
  have sub: "set (chosen_free m n) \<subseteq> set (free_block_ids m)"
    "set (chosen_victims m n) \<subseteq> set (evictable_block_ids m)"
    by (auto simp: chosen_free_def chosen_victims_def dest: in_set_takeD)
  show "i \<in> set (chosen_free m n) \<Longrightarrow> i < length (blocks m) \<and> \<not> is_allocated (blocks m ! i)"
    using sub(1) set_free_block_ids [OF assms(1)] by auto
  show "i \<in> set (chosen_victims m n) \<Longrightarrow>
      i < length (blocks m) \<and> is_allocated (blocks m ! i) \<and> \<not> is_locked (blocks m ! i)"
    using sub(2) set_evictable_block_ids [OF assms(1)] by auto
  have "set (chosen_free m n) \<inter> set (chosen_victims m n) = {}"
    using sub set_free_block_ids [OF assms(1)] set_evictable_block_ids [OF assms(1)] by auto
  then show "distinct (chosen m n)"
    by (simp add: chosen_free_def chosen_victims_def)
  show "chosen_victims m n \<noteq> [] \<Longrightarrow> chosen_free m n = free_block_ids m"
    by (auto simp: chosen_free_def chosen_victims_def)
qed

lemma chosen_in_range: "lbm_inv m \<Longrightarrow> j \<in> set (chosen m n) \<Longrightarrow> j < length (blocks m)"
  using chosen_props(2,3) by auto

lemma Allocate_failed: "Allocate m n lock = (Inl e, m') \<Longrightarrow> m' = m"
  by (auto simp: Allocate_def Let_def split: if_splits)

lemma lbm_inv_Allocate:
  assumes "lbm_inv m" "Allocate m n lock = (r, m')"
  shows "lbm_inv m' \<and> total_blocks m' = total_blocks m"
proof (cases r)
  case (Inl e)
  with assms Allocate_failed show ?thesis by blast
next
  case (Inr ids)
  note ok = Allocate_ok [OF assms(2) [unfolded Inr]]
  show ?thesis
    using assms(1) ok(3) by (auto intro!: lbm_invI simp: ok(5,6) lbm_inv_def list_all_length)
qed

section \<open>Batch operations: validate everything, then change everything\<close>

text \<open>
  \<open>AllocateTarget\<close>, \<open>Unlock\<close> and \<open>Deallocate\<close> share one contract: the whole batch is
  checked before any block changes, and on success every named block has the target
  ownership and no other block changed.
\<close>

locale batch_operation =
  fixes op :: "'s \<Rightarrow> int list \<Rightarrow> status \<times> 's"
    and admissible :: "'s \<Rightarrow> int list \<Rightarrow> bool"
    and own :: "'s \<Rightarrow> nat \<Rightarrow> ownership"
    and target :: ownership
    and inv :: "'s \<Rightarrow> bool"
  assumes op_admitted: "inv s \<Longrightarrow> admissible s ids \<Longrightarrow>
      \<exists>s'. op s ids = (OkStatus, s') \<and> inv s' \<and> own s' = assign target ids (own s)"
    and op_refused: "inv s \<Longrightarrow> \<not> admissible s ids \<Longrightarrow> \<exists>e. op s ids = (Inl e, s)"
begin

lemma op_outcome:
  assumes "inv s" "op s ids = (r, s')"
  shows "if admissible s ids then r = OkStatus \<and> own s' = assign target ids (own s)
         else isl r \<and> s' = s"
  using op_admitted [OF assms(1), of ids] op_refused [OF assms(1), of ids] assms(2) by auto

lemma op_keeps_inv: "inv s \<Longrightarrow> op s ids = (r, s') \<Longrightarrow> inv s'"
  using op_admitted op_refused by (cases "admissible s ids") force+

lemma op_frame: "inv s \<Longrightarrow> op s ids = (r, s') \<Longrightarrow> int j \<notin> set ids \<Longrightarrow> own s' j = own s j"
  using op_outcome [of s ids r s'] by (auto simp: assign_def split: if_splits)

lemma op_succeeds_iff: "inv s \<Longrightarrow> fst (op s ids) = OkStatus \<longleftrightarrow> admissible s ids"
  using op_admitted op_refused by (cases "admissible s ids") force+

end

definition target_admissible :: "LogicalBlockManager \<Rightarrow> int list \<Rightarrow> bool" where
  "target_admissible m ids \<longleftrightarrow> distinct ids \<and>
     list_all (\<lambda>i. 0 \<le> i \<and> i < total_blocks m \<and> \<not> IsAllocated m i) ids"

definition allocated_admissible :: "LogicalBlockManager \<Rightarrow> int list \<Rightarrow> bool" where
  "allocated_admissible m ids \<longleftrightarrow> list_all (IsAllocated m) ids"

lemma validate_target_loop:
  assumes "length seen = nat (total_blocks m)"
  shows "(\<exists>seen'. foldM (validate_target m) seen ids = Inr seen') \<longleftrightarrow>
    distinct ids \<and> (\<forall>i\<in>set ids. 0 \<le> i \<and> i < total_blocks m \<and> \<not> IsAllocated m i \<and> \<not> seen ! nat i)"
  using assms
proof (induction ids arbitrary: seen)
  case Nil
  then show ?case by simp
next
  case (Cons i ids)
  show ?case
  proof (cases "0 \<le> i \<and> i < total_blocks m \<and> \<not> IsAllocated m i \<and> \<not> seen ! nat i")
    case True
    then have step: "validate_target m seen i = Inr (seen[nat i := True])"
      by (auto simp: validate_target_def IsAllocated_def)
    have "nat i < length seen" using True Cons.prems by auto
    then have upd: "seen[nat i := True] ! nat j \<longleftrightarrow> j = i \<or> seen ! nat j" if "0 \<le> j" for j
      using that True by (auto simp: nth_list_update)
    have "(\<exists>seen'. foldM (validate_target m) seen (i # ids) = Inr seen') \<longleftrightarrow>
        (\<exists>seen'. foldM (validate_target m) (seen[nat i := True]) ids = Inr seen')"
      by (simp add: step)
    also have "\<dots> \<longleftrightarrow> distinct ids \<and> (\<forall>j\<in>set ids. 0 \<le> j \<and> j < total_blocks m \<and>
        \<not> IsAllocated m j \<and> \<not> seen[nat i := True] ! nat j)"
      using Cons.prems by (intro Cons.IH) simp
    also have "\<dots> \<longleftrightarrow> distinct (i # ids) \<and> (\<forall>j\<in>set (i # ids). 0 \<le> j \<and> j < total_blocks m \<and>
        \<not> IsAllocated m j \<and> \<not> seen ! nat j)"
      using True upd by auto
    finally show ?thesis .
  next
    case False
    then have "\<exists>e. validate_target m seen i = Inl e"
      by (auto simp: validate_target_def IsAllocated_def)
    with False show ?thesis by auto
  qed
qed

lemma validate_target_start:
  "(\<exists>seen'. foldM (validate_target m) (replicate (nat (total_blocks m)) False) ids = Inr seen') \<longleftrightarrow>
     target_admissible m ids"
  by (subst validate_target_loop) (auto simp: target_admissible_def list_all_iff)

lemma validate_allocated_ok:
  "validate_allocated what m i = Inr u \<longleftrightarrow> IsAllocated m i"
  by (simp add: validate_allocated_def IsAllocated_def)

lemma validate_allocated_all:
  "check_each (validate_allocated what m) ids = Inr u \<longleftrightarrow> allocated_admissible m ids"
  by (simp add: check_each_ok validate_allocated_ok allocated_admissible_def list_all_iff)

lemma ownership_modify_blocks:
  assumes "\<And>b. f (f b) = f b" "\<forall>i\<in>set ids. 0 \<le> i \<and> nat i < length (blocks m)"
    and "\<forall>i\<in>set ids. owner_of (f (blocks m ! nat i)) = w"
  shows "ownership_map (modify_blocks f (map nat ids) m) = assign w ids (ownership_map m)"
proof
  fix j
  have mem: "j \<in> nat ` set ids \<longleftrightarrow> int j \<in> set ids"
    using assms(2) by (force simp: image_iff)
  show "ownership_map (modify_blocks f (map nat ids) m) j = assign w ids (ownership_map m) j"
    using assms mem by (auto simp: ownership_map_def assign_def modify_blocks_nth)
qed

lemma ownership_map_counter [simp]: "ownership_map (m\<lparr>access_counter := c\<rparr>) = ownership_map m"
  by (simp add: ownership_map_def fun_eq_iff)

lemma lbm_inv_counter [simp]: "lbm_inv (m\<lparr>access_counter := c\<rparr>) = lbm_inv m"
  by (simp add: lbm_inv_def)

lemma IsAllocated_in_range: "lbm_inv m \<Longrightarrow> IsAllocated m i \<Longrightarrow> 0 \<le> i \<and> nat i < length (blocks m)"
  using lbm_inv_length [of m] by (auto simp: IsAllocated_def split: if_splits)

lemma IsAllocated_nth: "IsAllocated m i \<Longrightarrow> is_allocated (blocks m ! nat i)"
  by (simp add: IsAllocated_def split: if_splits)

interpretation target_batch: batch_operation AllocateTarget target_admissible ownership_map Locked lbm_inv
proof
  fix m ids
  assume inv: "lbm_inv m" and adm: "target_admissible m ids"
  then obtain seen where "foldM (validate_target m) (replicate (nat (total_blocks m)) False) ids = Inr seen"
    using validate_target_start by blast
  moreover have "\<forall>i\<in>set ids. 0 \<le> i \<and> nat i < length (blocks m)"
    using adm lbm_inv_length [OF inv] by (auto simp: target_admissible_def list_all_iff)
  ultimately show "\<exists>s'. AllocateTarget m ids = (OkStatus, s') \<and> lbm_inv s' \<and>
      ownership_map s' = assign Locked ids (ownership_map m)"
    using inv by (auto simp: AllocateTarget_def Let_def owner_of_def
        intro!: lbm_inv_modify_blocks ownership_modify_blocks [THEN trans])
next
  fix m ids
  assume "\<not> target_admissible m ids"
  then show "\<exists>e. AllocateTarget m ids = (Inl e, m)"
    using validate_target_start [of m ids] by (auto simp: AllocateTarget_def split: sum.splits)
qed

interpretation unlock_batch: batch_operation Unlock allocated_admissible ownership_map Unlocked lbm_inv
proof
  fix m ids
  assume inv: "lbm_inv m" and adm: "allocated_admissible m ids"
  moreover have "check_each (validate_allocated ''unlock'' m) ids = OkStatus"
    using adm by (simp add: validate_allocated_all)
  moreover have "\<forall>i\<in>set ids. 0 \<le> i \<and> nat i < length (blocks m)"
    using adm inv IsAllocated_in_range by (auto simp: allocated_admissible_def list_all_iff)
  ultimately show "\<exists>s'. Unlock m ids = (OkStatus, s') \<and> lbm_inv s' \<and>
      ownership_map s' = assign Unlocked ids (ownership_map m)"
    by (auto simp: Unlock_def owner_of_def allocated_admissible_def list_all_iff IsAllocated_nth
        intro!: lbm_inv_modify_blocks ownership_modify_blocks)
next
  fix m ids
  assume "\<not> allocated_admissible m ids"
  then show "\<exists>e. Unlock m ids = (Inl e, m)"
    by (auto simp: Unlock_def validate_allocated_all split: sum.splits)
qed

interpretation deallocate_batch: batch_operation Deallocate allocated_admissible ownership_map Free lbm_inv
proof
  fix m ids
  assume inv: "lbm_inv m" and adm: "allocated_admissible m ids"
  moreover have "check_each (validate_allocated ''deallocate'' m) ids = OkStatus"
    using adm by (simp add: validate_allocated_all)
  moreover have "\<forall>i\<in>set ids. 0 \<le> i \<and> nat i < length (blocks m)"
    using adm inv IsAllocated_in_range by (auto simp: allocated_admissible_def list_all_iff)
  ultimately show "\<exists>s'. Deallocate m ids = (OkStatus, s') \<and> lbm_inv s' \<and>
      ownership_map s' = assign Free ids (ownership_map m)"
    by (auto simp: Deallocate_def owner_of_def intro!: lbm_inv_modify_blocks ownership_modify_blocks)
next
  fix m ids
  assume "\<not> allocated_admissible m ids"
  then show "\<exists>e. Deallocate m ids = (Inl e, m)"
    by (auto simp: Deallocate_def validate_allocated_all split: sum.splits)
qed

lemmas lbm_op_defs = Allocate_def AllocateTarget_def Unlock_def Deallocate_def AccessBlock_def

lemma AccessBlock_fields:
  assumes "AccessBlock m i = (r, m')"
  shows "total_blocks m' = total_blocks m" "length (blocks m') = length (blocks m)"
    "j < length (blocks m) \<Longrightarrow> is_allocated (blocks m' ! j) = is_allocated (blocks m ! j) \<and>
       is_locked (blocks m' ! j) = is_locked (blocks m ! j)"
  using assms
  by (auto simp: AccessBlock_def Let_def modify_block_def split: sum.splits,
      (cases "nat i = j", auto)+)

lemma batch_total_blocks:
  "AllocateTarget m ids = (r, m') \<Longrightarrow> total_blocks m' = total_blocks m"
  "Unlock m ids = (r, m') \<Longrightarrow> total_blocks m' = total_blocks m"
  "Deallocate m ids = (r, m') \<Longrightarrow> total_blocks m' = total_blocks m"
  by (auto simp: lbm_op_defs Let_def split: sum.splits)

lemma lbm_step_inv:
  assumes "lbm_step m m'" "lbm_inv m"
  shows "lbm_inv m' \<and> total_blocks m' = total_blocks m"
  using assms(1)
proof (cases rule: lbm_step.cases)
  case (allocate n lock r)
  then show ?thesis using lbm_inv_Allocate assms(2) by blast
next
  case (allocate_target ids s)
  then show ?thesis using target_batch.op_keeps_inv assms(2) batch_total_blocks(1) by blast
next
  case (unlock ids s)
  then show ?thesis using unlock_batch.op_keeps_inv assms(2) batch_total_blocks(2) by blast
next
  case (deallocate ids s)
  then show ?thesis using deallocate_batch.op_keeps_inv assms(2) batch_total_blocks(3) by blast
next
  case (access i s)
  then show ?thesis using AccessBlock_fields [OF access] assms(2)
    by (auto intro!: lbm_invI simp: lbm_inv_def list_all_length)
qed

lemma lbm_reachable_inv: "lbm_reachable n m \<Longrightarrow> lbm_inv m \<and> total_blocks m = n"
proof (induction rule: lbm_reachable.induct)
  case (init m)
  then show ?case
    by (auto simp: LogicalBlockManager_init_def lbm_inv_def list_all_length fresh_block_def split: if_splits)
next
  case (step m m')
  then show ?case using lbm_step_inv by blast
qed

lemma ownership_Allocate:
  assumes "lbm_inv m" "Allocate m n lock = (Inr ids, m')"
  shows "ownership_map m' = assign (if lock then Locked else Unlocked) ids (ownership_map m)"
proof
  fix j
  note ok = Allocate_ok [OF assms(2)]
  have "j \<in> set (chosen m n) \<Longrightarrow> j < length (blocks m)"
    using chosen_in_range [OF assms(1)] by blast
  then show "ownership_map m' j = assign (if lock then Locked else Unlocked) ids (ownership_map m) j"
    by (auto simp: ownership_map_def assign_def ok(1,5,6) owner_of_def)
qed

lemma Allocate_ids:
  assumes "lbm_inv m" "Allocate m n lock = (Inr ids, m')"
  shows "int (length ids) = n" "distinct ids"
    "\<forall>i\<in>set ids. 0 \<le> i \<and> i < total_blocks m \<and> \<not> IsLocked m i"
proof -
  note ok = Allocate_ok [OF assms(2)] and choice = chosen_props [OF assms(1), where n = n]
  show "distinct ids" "int (length ids) = n"
    using choice(1) ok(2) unfolding ok(1) by (auto simp: distinct_map inj_on_def)
  show "\<forall>i\<in>set ids. 0 \<le> i \<and> i < total_blocks m \<and> \<not> IsLocked m i"
  proof
    fix i assume "i \<in> set ids"
    then obtain k where k: "i = int k" "k \<in> set (chosen m n)"
      unfolding ok(1) by auto
    then have "k < length (blocks m)" "\<not> is_locked (blocks m ! k)"
      using choice(2,3) lbm_inv_nthD [OF assms(1)] by auto
    with k(1) assms(1) show "0 \<le> i \<and> i < total_blocks m \<and> \<not> IsLocked m i"
      by (auto simp: IsLocked_def lbm_inv_def)
  qed
qed

lemma length_filter_upt:
  "length (filter (\<lambda>i. P (xs ! i)) [0..<length xs]) = length (filter P xs)"
proof -
  have "filter P xs = map (nth xs) (filter (\<lambda>i. P (xs ! i)) [0..<length xs])"
    by (subst map_nth [of xs, symmetric]) (simp only: filter_map comp_def)
  then show ?thesis by simp
qed

lemma length_filter_partition:
  "(\<And>x. x \<in> set xs \<Longrightarrow> P x \<longleftrightarrow> Q x \<or> R x) \<Longrightarrow> (\<And>x. x \<in> set xs \<Longrightarrow> \<not> (Q x \<and> R x)) \<Longrightarrow>
     length (filter P xs) = length (filter Q xs) + length (filter R xs)"
  by (induction xs) auto

lemma available_blocks:
  assumes "lbm_inv m"
  shows "int (length (free_block_ids m) + length (evictable_block_ids m)) =
    total_blocks m - num_locked_blocks m"
proof -
  let ?bs = "blocks m"
  have imp: "is_locked b \<Longrightarrow> is_allocated b" if "b \<in> set ?bs" for b
    using assms that by (auto simp: lbm_inv_def list_all_iff)
  have "length (filter (\<lambda>b. \<not> is_locked b) ?bs) =
      length (filter (\<lambda>b. \<not> is_allocated b) ?bs) +
      length (filter (\<lambda>b. is_allocated b \<and> \<not> is_locked b) ?bs)"
    using imp by (intro length_filter_partition) auto
  moreover have "length ?bs = length (filter is_locked ?bs) + length (filter (\<lambda>b. \<not> is_locked b) ?bs)"
    by (simp add: sum_length_filter_compl)
  moreover have "int (length ?bs) = total_blocks m"
    using assms by (simp add: lbm_inv_def)
  moreover have "length (free_block_ids m) = length (filter (\<lambda>b. \<not> is_allocated b) ?bs)"
    "length (evictable_block_ids m) = length (filter (\<lambda>b. is_allocated b \<and> \<not> is_locked b) ?bs)"
    unfolding free_block_ids_def evictable_block_ids_def lbm_inv_length [OF assms]
    by (rule length_filter_upt)+
  ultimately show ?thesis
    by (simp add: num_locked_blocks_def count_blocks_eq)
qed

lemma length_filter_mono:
  "(\<And>x. x \<in> set xs \<Longrightarrow> P x \<Longrightarrow> Q x) \<Longrightarrow> length (filter P xs) \<le> length (filter Q xs)"
  by (induction xs) (auto simp: le_SucI)

definition counters_ok :: "LogicalBlockManager \<Rightarrow> bool" where
  "counters_ok m \<longleftrightarrow> list_all (\<lambda>b. last_access_counter b \<le> access_counter m) (blocks m)"

section \<open>Properties\<close>

text \<open>
  Property C19: a successful \<open>Allocate\<close> returns exactly the requested number of distinct block
  ids, all in range and none of them locked before the call, gives them the requested
  ownership, and changes the ownership of no other block.
\<close>

theorem allocate_success:
  assumes "lbm_inv m" "Allocate m n lock = (Inr ids, m')"
  shows "int (length ids) = n \<and> distinct ids \<and>
    (\<forall>i\<in>set ids. 0 \<le> i \<and> i < total_blocks m \<and> \<not> IsLocked m i) \<and>
    ownership_map m' = assign (if lock then Locked else Unlocked) ids (ownership_map m) \<and>
    access_counter m' = access_counter m + 1"
  using Allocate_ids [OF assms] ownership_Allocate [OF assms] Allocate_ok(4) [OF assms(2)] by blast

text \<open>
  Property C20: eviction is least-recently-used. If \<open>Allocate\<close> reuses an allocated block \<open>i\<close>, then
  every free block was used as well, and every unlocked allocated block it left alone
  has a larger access counter (or the same one and a larger id).
\<close>

theorem allocate_evicts_lru:
  assumes "lbm_inv m" "Allocate m n lock = (Inr ids, m')"
    and "i \<in> set ids" "IsAllocated m i" and "0 \<le> j" "j < total_blocks m" "j \<notin> set ids"
  shows "IsAllocated m j \<and>
    (\<not> IsLocked m j \<longrightarrow>
      (last_access_counter (blocks m ! nat i), nat i) < (last_access_counter (blocks m ! nat j), nat j))"
proof -
  note ok = Allocate_ok [OF assms(2)] and choice = chosen_props [OF assms(1), where n = n]
  let ?key = "\<lambda>i. (last_access_counter (blocks m ! i), i)"
  let ?ev = "lru_order m (evictable_block_ids m)"
  have i: "nat i \<in> set (chosen_victims m n)"
    using assms(3) choice(2) IsAllocated_nth [OF assms(4)] unfolding ok(1) by auto
  then have all_free: "chosen_free m n = free_block_ids m"
    using choice(4) by (cases "chosen_victims m n") auto
  have j: "nat j < length (blocks m)" "nat j \<notin> set (chosen_free m n)" "nat j \<notin> set (chosen_victims m n)"
    using assms(5-7) lbm_inv_length [OF assms(1)] unfolding ok(1) by (auto simp: image_iff)
  have alloc: "is_allocated (blocks m ! nat j)"
    using j all_free set_free_block_ids [OF assms(1)] by auto
  have "?key (nat i) < ?key (nat j)" if "\<not> is_locked (blocks m ! nat j)"
  proof -
    have "nat j \<in> set ?ev"
      using j alloc that set_evictable_block_ids [OF assms(1)] by simp
    then have "nat j \<in> set (drop (nat n - length (chosen_free m n)) ?ev)"
      using j(3) unfolding chosen_victims_def by (metis append_take_drop_id Un_iff set_append)
    moreover have "sorted (map ?key ?ev)"
      by (simp add: lru_order_def)
    ultimately have "?key (nat i) \<le> ?key (nat j)"
      using set_take_sorted_key [of ?key ?ev "nat i" _ "nat j"] i unfolding chosen_victims_def by simp
    moreover have "nat i \<noteq> nat j" using i j(3) by auto
    ultimately show ?thesis by (simp add: less_le)
  qed
  with alloc assms(5,6) show ?thesis
    by (auto simp: IsAllocated_def IsLocked_def)
qed

text \<open>
  Property C21: \<open>Allocate\<close> succeeds exactly when the request is positive and does not exceed the
  number of blocks that are not locked; a refused request leaves the manager unchanged.
\<close>

theorem allocate_succeeds_iff:
  assumes "lbm_inv m"
  shows "((\<exists>ids. fst (Allocate m n lock) = Inr ids) \<longleftrightarrow>
      0 < n \<and> n \<le> total_blocks m - num_locked_blocks m) \<and>
    (isl (fst (Allocate m n lock)) \<longrightarrow> snd (Allocate m n lock) = m)"
proof
  have "num_locked_blocks m \<ge> 0"
    by (simp add: num_locked_blocks_def count_blocks_eq)
  then show "(\<exists>ids. fst (Allocate m n lock) = Inr ids) \<longleftrightarrow>
      0 < n \<and> n \<le> total_blocks m - num_locked_blocks m"
    using available_blocks [OF assms] by (auto simp: Allocate_def Let_def)
  show "isl (fst (Allocate m n lock)) \<longrightarrow> snd (Allocate m n lock) = m"
    using Allocate_failed by (cases "Allocate m n lock") (auto simp: isl_def)
qed

text \<open>
  Property C22: in every state reachable from the constructor through any sequence of calls, only
  allocated blocks are locked and the three counters partition the pool.
\<close>

theorem lbm_reachable_counts:
  assumes "lbm_reachable n m"
  shows "lbm_inv m \<and> total_blocks m = n \<and>
    num_free_blocks m + num_allocated_blocks m = n \<and> num_locked_blocks m \<le> num_allocated_blocks m"
proof -
  have inv: "lbm_inv m" "total_blocks m = n"
    using lbm_reachable_inv [OF assms] by auto
  have "length (filter is_locked (blocks m)) \<le> length (filter is_allocated (blocks m))"
    using inv(1) by (intro length_filter_mono) (auto simp: lbm_inv_def list_all_iff)
  with inv show ?thesis
    using sum_length_filter_compl [of is_allocated "blocks m"]
    by (auto simp: num_free_blocks_def num_allocated_blocks_def num_locked_blocks_def count_blocks_eq lbm_inv_def)
qed

text \<open>
  Property C39: \<open>AllocateTarget\<close> succeeds exactly when the ids are distinct, in range and currently
  unallocated, and then locks exactly those blocks; on any violation the state is
  unchanged. On ids that a locking \<open>Allocate\<close> would have taken from the free list it
  produces the very state that \<open>Allocate\<close> produces.
\<close>

theorem allocate_target_spec:
  assumes "lbm_inv m"
  shows "(if target_admissible m ids
      then fst (AllocateTarget m ids) = OkStatus \<and>
           ownership_map (snd (AllocateTarget m ids)) = assign Locked ids (ownership_map m)
      else isl (fst (AllocateTarget m ids)) \<and> snd (AllocateTarget m ids) = m) \<and>
    (\<forall>n m'. Allocate m n True = (Inr ids, m') \<and> list_all (\<lambda>i. \<not> IsAllocated m i) ids \<longrightarrow>
       AllocateTarget m ids = (OkStatus, m'))"
proof (intro conjI allI impI)
  show "if target_admissible m ids
      then fst (AllocateTarget m ids) = OkStatus \<and>
           ownership_map (snd (AllocateTarget m ids)) = assign Locked ids (ownership_map m)
      else isl (fst (AllocateTarget m ids)) \<and> snd (AllocateTarget m ids) = m"
    using target_batch.op_outcome [OF assms, of ids] by (metis prod.collapse)
next
  fix n m'
  assume "Allocate m n True = (Inr ids, m') \<and> list_all (\<lambda>i. \<not> IsAllocated m i) ids"
  then have alloc: "Allocate m n True = (Inr ids, m')" and free: "list_all (\<lambda>i. \<not> IsAllocated m i) ids"
    by auto
  note ok = Allocate_ok [OF alloc]
  have "distinct ids" "\<forall>i\<in>set ids. 0 \<le> i \<and> i < total_blocks m"
    using Allocate_ids [OF assms alloc] by auto
  with free have "target_admissible m ids"
    by (auto simp: target_admissible_def list_all_iff)
  then obtain seen where "foldM (validate_target m) (replicate (nat (total_blocks m)) False) ids = Inr seen"
    using validate_target_start by blast
  then have target: "AllocateTarget m ids = (OkStatus,
      modify_blocks (\<lambda>b. b\<lparr>is_allocated := True, is_locked := True,
         last_access_counter := access_counter m + 1\<rparr>) (chosen m n)
         (m\<lparr>access_counter := access_counter m + 1\<rparr>))" (is "_ = (_, ?t)")
    by (simp add: AllocateTarget_def Let_def ok(1) comp_def)
  have "?t = m'"
  proof (rule LogicalBlockManager.equality)
    show "blocks ?t = blocks m'"
      by (rule nth_equalityI) (auto simp: ok(5,6) modify_blocks_nth)
  qed (simp_all add: ok(3,4))
  with target show "AllocateTarget m ids = (OkStatus, m')" by simp
qed

text \<open>
  \<open>AccessBlock\<close> makes the block the most recently used one: while the 64-bit counter
  has not wrapped, every other block has a strictly smaller counter afterwards, and the
  counters stay bounded by the manager's counter.
\<close>

theorem access_block_mru:
  assumes "lbm_inv m" "counters_ok m" "access_counter m \<noteq> - 1" "IsAllocated m i"
  shows "\<exists>m'. AccessBlock m i = (OkStatus, m') \<and> counters_ok m' \<and> ownership_map m' = ownership_map m \<and>
    (\<forall>j<length (blocks m). j \<noteq> nat i \<longrightarrow>
       last_access_counter (blocks m' ! j) < last_access_counter (blocks m' ! nat i))"
proof -
  let ?c = "access_counter m + 1"
  have i: "nat i < length (blocks m)" "validate_allocated ''access'' m i = OkStatus"
    using IsAllocated_in_range [OF assms(1,4)] assms(4) by (auto simp: validate_allocated_ok)
  have less: "access_counter m < ?c"
    using assms(3) by (metis inc_less_eq_self_iff_eq not_le)
  have le: "j < length (blocks m) \<Longrightarrow> last_access_counter (blocks m ! j) \<le> access_counter m" for j
    using assms(2) by (auto simp: counters_ok_def list_all_length)
  let ?m = "modify_block (\<lambda>b. b\<lparr>last_access_counter := ?c\<rparr>) (nat i) (m\<lparr>access_counter := ?c\<rparr>)"
  have nth: "last_access_counter (blocks ?m ! j) = (if j = nat i then ?c else last_access_counter (blocks m ! j))"
    if "j < length (blocks m)" for j
    using that i(1) by (auto simp: modify_block_def)
  have "counters_ok ?m"
    using le less by (auto simp: counters_ok_def list_all_length nth intro: order.trans less_imp_le)
  moreover have "ownership_map ?m = ownership_map m"
    using i(1) by (auto simp: ownership_map_def fun_eq_iff modify_block_def nth_list_update owner_of_def)
  moreover have "AccessBlock m i = (OkStatus, ?m)"
    by (simp add: AccessBlock_def i(2) Let_def)
  ultimately show ?thesis
    using le less i(1) by (auto simp: nth intro: le_less_trans)
qed

section \<open>Witnesses\<close>

text \<open>Three blocks: block 0 locked, blocks 1 and 2 unlocked, block 2 the older one.\<close>

definition example_pool :: LogicalBlockManager where
  "example_pool = \<lparr>total_blocks = 3, access_counter = 3, blocks =
     [\<lparr>is_allocated = True, is_locked = True, last_access_counter = 3\<rparr>,
      \<lparr>is_allocated = True, is_locked = False, last_access_counter = 2\<rparr>,
      \<lparr>is_allocated = True, is_locked = False, last_access_counter = 1\<rparr>]\<rparr>"

definition example_pool_after :: LogicalBlockManager where
  "example_pool_after = \<lparr>total_blocks = 3, access_counter = 4, blocks =
     [\<lparr>is_allocated = True, is_locked = True, last_access_counter = 3\<rparr>,
      \<lparr>is_allocated = True, is_locked = False, last_access_counter = 2\<rparr>,
      \<lparr>is_allocated = True, is_locked = True, last_access_counter = 4\<rparr>]\<rparr>"

lemma example_pool_inv: "lbm_inv example_pool" "counters_ok example_pool"
  by code_simp+

lemma example_pool_allocate: "Allocate example_pool 1 True = (Inr [2], example_pool_after)"
  by code_simp

theorem allocate_success_witness:
  "ownership_map example_pool_after = assign Locked [2] (ownership_map example_pool) \<and>
   \<not> IsLocked example_pool 2"
  using allocate_success [OF example_pool_inv(1) example_pool_allocate] by simp

theorem allocate_evicts_lru_witness:
  "IsAllocated example_pool 1 \<and>
   (last_access_counter (blocks example_pool ! 2), 2 :: nat) <
   (last_access_counter (blocks example_pool ! 1), 1)"
proof -
  have h: "(2 :: int) \<in> set [2]" "IsAllocated example_pool 2" "(0 :: int) \<le> 1" "1 < total_blocks example_pool"
    "(1 :: int) \<notin> set [2]" "\<not> IsLocked example_pool 1"
    by code_simp+
  show ?thesis
    using allocate_evicts_lru [OF example_pool_inv(1) example_pool_allocate h(1-5)] h(6) by simp
qed

theorem allocate_succeeds_iff_witness:
  "(\<exists>ids. fst (Allocate example_pool 2 False) = Inr ids) \<and>
   \<not> (\<exists>ids. fst (Allocate example_pool 3 False) = Inr ids)"
proof -
  have "total_blocks example_pool - num_locked_blocks example_pool = 2" by code_simp
  then show ?thesis
    using allocate_succeeds_iff [OF example_pool_inv(1), of 2 False]
      allocate_succeeds_iff [OF example_pool_inv(1), of 3 False] by simp
qed

lemma example_reachable:
  "lbm_reachable 1 \<lparr>total_blocks = 1, access_counter = 1, blocks =
     [\<lparr>is_allocated = True, is_locked = True, last_access_counter = 1\<rparr>]\<rparr>" (is "lbm_reachable 1 ?m")
proof -
  have "LogicalBlockManager_init 1 = Inr \<lparr>total_blocks = 1, access_counter = 0, blocks = [fresh_block]\<rparr>"
    by code_simp
  then have "lbm_reachable 1 \<lparr>total_blocks = 1, access_counter = 0, blocks = [fresh_block]\<rparr>"
    by (rule lbm_reachable.init)
  moreover have "AllocateTarget \<lparr>total_blocks = 1, access_counter = 0, blocks = [fresh_block]\<rparr> [0] = (OkStatus, ?m)"
    by code_simp
  ultimately show ?thesis by (blast intro: lbm_reachable.step lbm_step.allocate_target)
qed

theorem lbm_reachable_counts_witness:
  "num_free_blocks \<lparr>total_blocks = 1, access_counter = 1, blocks =
     [\<lparr>is_allocated = True, is_locked = True, last_access_counter = 1\<rparr>]\<rparr> +
   num_allocated_blocks \<lparr>total_blocks = 1, access_counter = 1, blocks =
     [\<lparr>is_allocated = True, is_locked = True, last_access_counter = 1\<rparr>]\<rparr> = 1"
  using lbm_reachable_counts [OF example_reachable] by simp

theorem allocate_target_spec_witness:
  "AllocateTarget \<lparr>total_blocks = 1, access_counter = 0, blocks = [fresh_block]\<rparr> [0] =
     (OkStatus, \<lparr>total_blocks = 1, access_counter = 1, blocks =
        [\<lparr>is_allocated = True, is_locked = True, last_access_counter = 1\<rparr>]\<rparr>)"
proof -
  let ?m = "\<lparr>total_blocks = 1, access_counter = 0, blocks = [fresh_block]\<rparr>"
  have "lbm_inv ?m" by code_simp
  moreover have "Allocate ?m 1 True = (Inr [0], \<lparr>total_blocks = 1, access_counter = 1, blocks =
        [\<lparr>is_allocated = True, is_locked = True, last_access_counter = 1\<rparr>]\<rparr>)"
    by code_simp
  moreover have "list_all (\<lambda>i. \<not> IsAllocated ?m i) [0]" by code_simp
  ultimately show ?thesis using allocate_target_spec [of ?m "[0]"] by blast
qed

theorem access_block_mru_witness:
  "\<exists>m'. AccessBlock example_pool 2 = (OkStatus, m') \<and>
     last_access_counter (blocks m' ! 0) < last_access_counter (blocks m' ! 2)"
proof -
  have h: "access_counter example_pool \<noteq> - 1" "IsAllocated example_pool 2" "length (blocks example_pool) = 3"
    by code_simp+
  show ?thesis
    using access_block_mru [OF example_pool_inv h(1,2)] h(3) by force
qed

end
