(* ===== verification/LruCache.thy ===== *)
theory LruCache
  imports Prelude
begin

text \<open>
  \<open>kv_cache/lru_cache.h\<close>: the LRU cache with pinning and an eviction-candidate list.
  The \<open>std::list\<close> nodes live in an explicit store: a list iterator is a node address,
  the three lists hold addresses, \<open>map_\<close> sends a key to an address, and \<open>splice\<close> moves
  an address from one list to another. \<open>lru_inv\<close> says that the lists partition the
  live nodes, that a node's location tag names the list that holds it, that pinned
  nodes are exactly those with a positive pin count, that a pin count is a C++ \<open>int\<close>, and that \<open>map_\<close> points to every
  live node and to nothing else. The key-level view (\<open>lru_keys\<close>, \<open>pinned_keys\<close>,
  \<open>candidate_keys\<close>, \<open>lookup\<close>, \<open>pins\<close>) is the specification the operations refine.
\<close>

section \<open>State\<close>

abbreviation INT_MAX :: int where
  "INT_MAX \<equiv> 2147483647"

datatype NodeLocation = kLru | kPinned | kCandidate

record ('k, 'v) CacheNode =
  node_key :: 'k
  node_value :: 'v
  pin_count :: int
  location :: NodeLocation

record ('k, 'v) LRUCache =
  capacity :: nat
  lru_list :: "nat list"
  pinned_list :: "nat list"
  evict_candidate_list :: "nat list"
  key_map :: "('k, nat) amap"
  nodes :: "(nat, ('k, 'v) CacheNode) amap"
  next_address :: nat

definition LRUCache_init :: "nat \<Rightarrow> ('k, 'v) LRUCache" where
  "LRUCache_init cap = \<lparr>capacity = cap, lru_list = [], pinned_list = [],
     evict_candidate_list = [], key_map = [], nodes = [], next_address = 0\<rparr>"

definition node :: "('k, 'v) LRUCache \<Rightarrow> nat \<Rightarrow> ('k, 'v) CacheNode" where
  "node c a = the (map_of (nodes c) a)"

definition modify_node ::
  "(('k, 'v) CacheNode \<Rightarrow> ('k, 'v) CacheNode) \<Rightarrow> nat \<Rightarrow> ('k, 'v) LRUCache \<Rightarrow> ('k, 'v) LRUCache" where
  "modify_node f a c = c\<lparr>nodes := put a (f (node c a)) (nodes c)\<rparr>"

section \<open>Operations\<close>

definition cache_size :: "('k, 'v) LRUCache \<Rightarrow> nat" where
  "cache_size c = length (key_map c)"

definition available_space :: "('k, 'v) LRUCache \<Rightarrow> nat" where
  "available_space c =
     (if capacity c > length (pinned_list c) then capacity c - length (pinned_list c) else 0)"

definition active_size :: "('k, 'v) LRUCache \<Rightarrow> nat" where
  "active_size c = length (lru_list c) + length (pinned_list c)"

definition cache_empty :: "('k, 'v) LRUCache \<Rightarrow> bool" where
  "cache_empty c \<longleftrightarrow> key_map c = []"

definition Contains :: "('k, 'v) LRUCache \<Rightarrow> 'k \<Rightarrow> bool" where
  "Contains c key =
     (case map_of (key_map c) key of None \<Rightarrow> False | Some a \<Rightarrow> location (node c a) \<noteq> kCandidate)"

definition Clear :: "('k, 'v) LRUCache \<Rightarrow> ('k, 'v) LRUCache" where
  "Clear c = c\<lparr>key_map := [], lru_list := [], pinned_list := [], evict_candidate_list := [], nodes := []\<rparr>"

definition Promote :: "('k, 'v) LRUCache \<Rightarrow> nat \<Rightarrow> ('k, 'v) LRUCache" where
  "Promote c a =
     (if pin_count (node c a) > 0 then
        modify_node (\<lambda>n. n\<lparr>location := kPinned\<rparr>) a
          (c\<lparr>pinned_list := a # remove1 a (pinned_list c)\<rparr>)
      else if location (node c a) = kLru then
        c\<lparr>lru_list := a # remove1 a (lru_list c)\<rparr>
      else if location (node c a) = kCandidate then
        modify_node (\<lambda>n. n\<lparr>location := kLru\<rparr>) a
          (c\<lparr>evict_candidate_list := remove1 a (evict_candidate_list c), lru_list := a # lru_list c\<rparr>)
      else c)"

definition PromoteBack :: "('k, 'v) LRUCache \<Rightarrow> nat \<Rightarrow> ('k, 'v) LRUCache" where
  "PromoteBack c a =
     (if pin_count (node c a) > 0 then
        modify_node (\<lambda>n. n\<lparr>location := kPinned\<rparr>) a
          (c\<lparr>pinned_list := remove1 a (pinned_list c) @ [a]\<rparr>)
      else if location (node c a) = kLru then
        c\<lparr>lru_list := remove1 a (lru_list c) @ [a]\<rparr>
      else if location (node c a) = kCandidate then
        modify_node (\<lambda>n. n\<lparr>location := kLru\<rparr>) a
          (c\<lparr>evict_candidate_list := remove1 a (evict_candidate_list c), lru_list := lru_list c @ [a]\<rparr>)
      else c)"

definition Evict :: "('k, 'v) LRUCache \<Rightarrow> ('k \<times> 'v) option \<times> ('k, 'v) LRUCache" where
  "Evict c =
     (if lru_list c = [] then (None, c)
      else let a = last (lru_list c);
               c' = modify_node (\<lambda>n. n\<lparr>location := kCandidate\<rparr>) a
                      (c\<lparr>lru_list := butlast (lru_list c),
                         evict_candidate_list := evict_candidate_list c @ [a]\<rparr>)
           in (Some (node_key (node c' a), node_value (node c' a)), c'))"

definition new_node :: "'k \<Rightarrow> 'v \<Rightarrow> ('k, 'v) CacheNode" where
  "new_node key v = \<lparr>node_key = key, node_value = v, pin_count = 0, location = kLru\<rparr>"

definition emplace_front :: "'k \<Rightarrow> 'v \<Rightarrow> ('k, 'v) LRUCache \<Rightarrow> ('k, 'v) LRUCache" where
  "emplace_front key v c =
     c\<lparr>nodes := put (next_address c) (new_node key v) (nodes c),
       lru_list := next_address c # lru_list c,
       key_map := put key (next_address c) (key_map c),
       next_address := Suc (next_address c)\<rparr>"

definition emplace_back :: "'k \<Rightarrow> 'v \<Rightarrow> ('k, 'v) LRUCache \<Rightarrow> ('k, 'v) LRUCache" where
  "emplace_back key v c =
     c\<lparr>nodes := put (next_address c) (new_node key v) (nodes c),
       lru_list := lru_list c @ [next_address c],
       key_map := put key (next_address c) (key_map c),
       next_address := Suc (next_address c)\<rparr>"

definition Put ::
  "('k, 'v) LRUCache \<Rightarrow> 'k \<Rightarrow> 'v \<Rightarrow> ('k \<times> 'v) option \<times> ('k, 'v) LRUCache" where
  "Put c key v =
     (case map_of (key_map c) key of
        Some a \<Rightarrow> (None, Promote (modify_node (\<lambda>n. n\<lparr>node_value := v\<rparr>) a c) a)
      | None \<Rightarrow>
          if active_size c \<ge> capacity c then
            (case Evict c of
               (None, c') \<Rightarrow> (None, c')
             | (Some kv, c') \<Rightarrow> (Some kv, emplace_front key v c'))
          else (None, emplace_front key v c))"

definition PutBack :: "('k, 'v) LRUCache \<Rightarrow> 'k \<Rightarrow> 'v \<Rightarrow> ('k, 'v) LRUCache" where
  "PutBack c key v =
     (case map_of (key_map c) key of
        Some a \<Rightarrow> PromoteBack (modify_node (\<lambda>n. n\<lparr>node_value := v\<rparr>) a c) a
      | None \<Rightarrow>
          emplace_back key v (if active_size c \<ge> capacity c then snd (Evict c) else c))"

definition Get :: "('k, 'v) LRUCache \<Rightarrow> 'k \<Rightarrow> 'v option \<times> ('k, 'v) LRUCache" where
  "Get c key =
     (case map_of (key_map c) key of
        None \<Rightarrow> (None, c)
      | Some a \<Rightarrow> let c' = Promote c a in (Some (node_value (node c' a)), c'))"

definition Peek :: "('k, 'v) LRUCache \<Rightarrow> 'k \<Rightarrow> 'v option" where
  "Peek c key =
     (case map_of (key_map c) key of
        None \<Rightarrow> None
      | Some a \<Rightarrow> if location (node c a) = kCandidate then None else Some (node_value (node c a)))"

text \<open>
  \<open>PeekMutable\<close> and \<open>PeekMutableIncludingCandidates\<close> hand out a pointer to the value; the
  model returns the node's address, through which a caller may store.
\<close>

definition PeekMutable :: "('k, 'v) LRUCache \<Rightarrow> 'k \<Rightarrow> nat option" where
  "PeekMutable c key =
     (case map_of (key_map c) key of
        None \<Rightarrow> None
      | Some a \<Rightarrow> if location (node c a) = kCandidate then None else Some a)"

definition PeekIncludingCandidates :: "('k, 'v) LRUCache \<Rightarrow> 'k \<Rightarrow> 'v option" where
  "PeekIncludingCandidates c key =
     (case map_of (key_map c) key of None \<Rightarrow> None | Some a \<Rightarrow> Some (node_value (node c a)))"

definition PeekMutableIncludingCandidates :: "('k, 'v) LRUCache \<Rightarrow> 'k \<Rightarrow> nat option" where
  "PeekMutableIncludingCandidates c key = map_of (key_map c) key"

definition GetAndPin :: "('k, 'v) LRUCache \<Rightarrow> 'k \<Rightarrow> 'v option status_or \<times> ('k, 'v) LRUCache" where
  "GetAndPin c key =
     (case map_of (key_map c) key of
        None \<Rightarrow> (Inr None, c)
      | Some a \<Rightarrow>
          let c1 = (if pin_count (node c a) = 0 then
                      modify_node (\<lambda>n. n\<lparr>location := kPinned\<rparr>) a
                        (if location (node c a) = kLru then
                           c\<lparr>lru_list := remove1 a (lru_list c), pinned_list := a # pinned_list c\<rparr>
                         else if location (node c a) = kCandidate then
                           c\<lparr>evict_candidate_list := remove1 a (evict_candidate_list c),
                             pinned_list := a # pinned_list c\<rparr>
                         else c)
                    else c);
              c2 = modify_node (\<lambda>n. n\<lparr>pin_count := pin_count n + 1\<rparr>) a c1
          in if pin_count (node c1 a) = INT_MAX then (UndefinedBehaviour ''pin_count++ overflows int'', c1)
             else (Inr (Some (node_value (node c2 a))), c2))"

definition Pin :: "('k, 'v) LRUCache \<Rightarrow> 'k \<Rightarrow> bool status_or \<times> ('k, 'v) LRUCache" where
  "Pin c key = (case GetAndPin c key of (r, c') \<Rightarrow> (and_then r (\<lambda>v. Inr (v \<noteq> None)), c'))"

definition Unpin :: "('k, 'v) LRUCache \<Rightarrow> 'k \<Rightarrow> bool \<times> ('k, 'v) LRUCache" where
  "Unpin c key =
     (case map_of (key_map c) key of
        None \<Rightarrow> (False, c)
      | Some a \<Rightarrow>
          (True,
           if pin_count (node c a) > 0 then
             let c1 = modify_node (\<lambda>n. n\<lparr>pin_count := pin_count n - 1\<rparr>) a c in
             if pin_count (node c1 a) = 0 then
               modify_node (\<lambda>n. n\<lparr>location := kLru\<rparr>) a
                 (c1\<lparr>pinned_list := remove1 a (pinned_list c1), lru_list := a # lru_list c1\<rparr>)
             else c1
           else c))"

definition GetPinCount :: "('k, 'v) LRUCache \<Rightarrow> 'k \<Rightarrow> int" where
  "GetPinCount c key =
     (case map_of (key_map c) key of None \<Rightarrow> 0 | Some a \<Rightarrow> pin_count (node c a))"

fun scan_keys :: "('k, 'v) LRUCache \<Rightarrow> nat \<Rightarrow> nat list \<Rightarrow> 'k list \<Rightarrow> 'k list" where
  "scan_keys c cnt [] ks = ks"
| "scan_keys c cnt (a # as) ks =
     (if length ks < cnt then scan_keys c cnt as (ks @ [node_key (node c a)]) else ks)"

definition GetEvictableKeys :: "('k, 'v) LRUCache \<Rightarrow> nat \<Rightarrow> 'k list" where
  "GetEvictableKeys c cnt =
     (let ks = scan_keys c cnt (evict_candidate_list c) [] in
      if length ks < cnt then scan_keys c cnt (rev (lru_list c)) ks else ks)"

definition Erase :: "('k, 'v) LRUCache \<Rightarrow> 'k \<Rightarrow> bool \<times> ('k, 'v) LRUCache" where
  "Erase c key =
     (case map_of (key_map c) key of
        None \<Rightarrow> (False, c)
      | Some a \<Rightarrow>
          if pin_count (node c a) > 0 then (False, c)
          else
            let c1 = (if location (node c a) = kLru then
                        c\<lparr>lru_list := remove1 a (lru_list c), nodes := del a (nodes c)\<rparr>
                      else if location (node c a) = kCandidate then
                        c\<lparr>evict_candidate_list := remove1 a (evict_candidate_list c),
                          nodes := del a (nodes c)\<rparr>
                      else c)
            in (True, c1\<lparr>key_map := del key (key_map c1)\<rparr>))"

definition GetEvictCandidateKeys :: "('k, 'v) LRUCache \<Rightarrow> 'k list" where
  "GetEvictCandidateKeys c = map (\<lambda>a. node_key (node c a)) (evict_candidate_list c)"

section \<open>Invariant and key-level view\<close>

abbreviation live :: "('k, 'v) LRUCache \<Rightarrow> nat list" where
  "live c \<equiv> lru_list c @ pinned_list c @ evict_candidate_list c"

definition tags_ok :: "('k, 'v) LRUCache \<Rightarrow> bool" where
  "tags_ok c \<longleftrightarrow>
     (\<forall>a\<in>set (lru_list c). pin_count (node c a) = 0 \<and> location (node c a) = kLru) \<and>
     (\<forall>a\<in>set (pinned_list c). pin_count (node c a) > 0 \<and> pin_count (node c a) \<le> INT_MAX \<and>
        location (node c a) = kPinned) \<and>
     (\<forall>a\<in>set (evict_candidate_list c). pin_count (node c a) = 0 \<and> location (node c a) = kCandidate)"

definition index_ok :: "('k, 'v) LRUCache \<Rightarrow> bool" where
  "index_ok c \<longleftrightarrow> amap_ok (key_map c) \<and> amap_ok (nodes c) \<and>
     set (live c) = set (keys (nodes c)) \<and>
     (\<forall>(k, a)\<in>set (key_map c). a \<in> set (live c) \<and> node_key (node c a) = k) \<and>
     (\<forall>a\<in>set (live c). map_of (key_map c) (node_key (node c a)) = Some a \<and> a < next_address c)"

definition lru_inv :: "('k, 'v) LRUCache \<Rightarrow> bool" where
  "lru_inv c \<longleftrightarrow> distinct (live c) \<and> tags_ok c \<and> index_ok c"

definition keys_of :: "('k, 'v) LRUCache \<Rightarrow> nat list \<Rightarrow> 'k list" where
  "keys_of c as = map (\<lambda>a. node_key (node c a)) as"

abbreviation lru_keys :: "('k, 'v) LRUCache \<Rightarrow> 'k list" where
  "lru_keys c \<equiv> keys_of c (lru_list c)"

abbreviation pinned_keys :: "('k, 'v) LRUCache \<Rightarrow> 'k list" where
  "pinned_keys c \<equiv> keys_of c (pinned_list c)"

abbreviation candidate_keys :: "('k, 'v) LRUCache \<Rightarrow> 'k list" where
  "candidate_keys c \<equiv> keys_of c (evict_candidate_list c)"

section \<open>The store\<close>

lemma node_modify [simp]:
  "node (modify_node f a c) b = (if b = a then f (node c a) else node c b)"
  by (simp add: node_def modify_node_def map_of_put)

lemma modify_node_fields [simp]:
  "capacity (modify_node f a c) = capacity c"
  "lru_list (modify_node f a c) = lru_list c"
  "pinned_list (modify_node f a c) = pinned_list c"
  "evict_candidate_list (modify_node f a c) = evict_candidate_list c"
  "key_map (modify_node f a c) = key_map c"
  "next_address (modify_node f a c) = next_address c"
  by (simp_all add: modify_node_def)

lemma node_list_update [simp]:
  "node (c\<lparr>lru_list := L\<rparr>) b = node c b"
  "node (c\<lparr>pinned_list := P\<rparr>) b = node c b"
  "node (c\<lparr>evict_candidate_list := E\<rparr>) b = node c b"
  "node (c\<lparr>key_map := M\<rparr>) b = node c b"
  "node (c\<lparr>next_address := n\<rparr>) b = node c b"
  by (simp_all add: node_def)

lemma find_live:
  assumes "lru_inv c" "map_of (key_map c) k = Some a"
  shows "a \<in> set (live c)" "node_key (node c a) = k"
  using assms map_of_SomeD [of "key_map c" k a]
  unfolding lru_inv_def index_ok_def by blast+

lemma live_find:
  assumes "lru_inv c" "a \<in> set (live c)"
  shows "map_of (key_map c) (node_key (node c a)) = Some a"
  using assms unfolding lru_inv_def index_ok_def by blast

lemma live_node:
  assumes "lru_inv c" "a \<in> set (live c)"
  shows "map_of (nodes c) a = Some (node c a)"
proof -
  have "a \<in> set (keys (nodes c))"
    using assms unfolding lru_inv_def index_ok_def by blast
  then show ?thesis
    by (auto simp: node_def dom_map_of_conv_image_fst [symmetric])
qed

lemma key_inj:
  assumes "lru_inv c" shows "inj_on (\<lambda>a. node_key (node c a)) (set (live c))"
  using live_find [OF assms] by (metis (no_types, lifting) inj_onI option.inject)

lemma location_cases:
  assumes "lru_inv c" "a \<in> set (live c)"
  shows "location (node c a) = kLru \<longleftrightarrow> a \<in> set (lru_list c)"
    and "location (node c a) = kPinned \<longleftrightarrow> a \<in> set (pinned_list c)"
    and "location (node c a) = kCandidate \<longleftrightarrow> a \<in> set (evict_candidate_list c)"
    and "pin_count (node c a) > 0 \<longleftrightarrow> a \<in> set (pinned_list c)"
    and "pin_count (node c a) \<ge> 0"
  using assms unfolding lru_inv_def tags_ok_def by auto

text \<open>Moving one node between the lists, with any change to its fields but the key.\<close>

lemma lru_inv_relocate:
  assumes "lru_inv c" and "a \<in> set (live c)"
    and "distinct (L @ P @ E)" and "set (L @ P @ E) = set (live c)"
    and "set L - {a} \<subseteq> set (lru_list c)" "set P - {a} \<subseteq> set (pinned_list c)"
      "set E - {a} \<subseteq> set (evict_candidate_list c)"
    and "node_key (f (node c a)) = node_key (node c a)"
    and "a \<in> set L \<Longrightarrow> pin_count (f (node c a)) = 0 \<and> location (f (node c a)) = kLru"
    and "a \<in> set P \<Longrightarrow> pin_count (f (node c a)) > 0 \<and> pin_count (f (node c a)) \<le> INT_MAX \<and>
      location (f (node c a)) = kPinned"
    and "a \<in> set E \<Longrightarrow> pin_count (f (node c a)) = 0 \<and> location (f (node c a)) = kCandidate"
  shows "lru_inv (modify_node f a
           (c\<lparr>lru_list := L, pinned_list := P, evict_candidate_list := E\<rparr>))" (is "lru_inv ?c")
proof -
  have lists: "live ?c = L @ P @ E" by simp
  have node: "node ?c b = (if b = a then f (node c a) else node c b)" for b by simp
  have key: "node_key (node ?c b) = node_key (node c b)" for b using assms(8) node by simp
  have tags: "tags_ok c" and idx: "index_ok c" using assms(1) by (auto simp: lru_inv_def)
  have "tags_ok ?c"
    using tags assms(5-7) assms(9-11) unfolding tags_ok_def node by auto
  moreover have "index_ok ?c"
  proof -
    have "nodes ?c = put a (f (node c a)) (nodes c)" by (simp add: modify_node_def)
    then have "amap_ok (nodes ?c)" "set (keys (nodes ?c)) = set (live c)"
      using idx assms(2) by (auto simp: index_ok_def amap_ok_put set_keys_put)
    then show ?thesis using idx assms(4) unfolding index_ok_def key lists by auto
  qed
  ultimately show ?thesis using assms(3) unfolding lru_inv_def lists by blast
qed

lemma lru_inv_reorder:
  assumes "lru_inv c" "distinct L" "set L = set (lru_list c)"
  shows "lru_inv (c\<lparr>lru_list := L\<rparr>)"
  using assms unfolding lru_inv_def tags_ok_def index_ok_def by auto

section \<open>Key-level effect of the primitive moves\<close>

lemma keys_of_update [simp]:
  "keys_of (modify_node (\<lambda>n. n\<lparr>location := l\<rparr>) a c) xs = keys_of c xs"
  "keys_of (modify_node (\<lambda>n. n\<lparr>node_value := v\<rparr>) a c) xs = keys_of c xs"
  "keys_of (modify_node (\<lambda>n. n\<lparr>pin_count := g n\<rparr>) a c) xs = keys_of c xs"
  "keys_of (c\<lparr>lru_list := L\<rparr>) xs = keys_of c xs"
  "keys_of (c\<lparr>pinned_list := L\<rparr>) xs = keys_of c xs"
  "keys_of (c\<lparr>evict_candidate_list := L\<rparr>) xs = keys_of c xs"
  "keys_of (c\<lparr>key_map := M\<rparr>) xs = keys_of c xs"
  by (auto simp: keys_of_def)

lemma keys_of_list [simp]:
  "keys_of c [] = []"
  "keys_of c (a # xs) = node_key (node c a) # keys_of c xs"
  "keys_of c (xs @ ys) = keys_of c xs @ keys_of c ys"
  "keys_of c (rev xs) = rev (keys_of c xs)"
  "keys_of c (butlast xs) = butlast (keys_of c xs)"
  "length (keys_of c xs) = length xs"
  "keys_of c xs = [] \<longleftrightarrow> xs = []"
  "set (keys_of c xs) = (\<lambda>a. node_key (node c a)) ` set xs"
  by (auto simp: keys_of_def rev_map map_butlast)

lemma map_remove1_inj:
  "inj_on f (insert a (set xs)) \<Longrightarrow> map f (remove1 a xs) = remove1 (f a) (map f xs)"
  by (induction xs) (auto simp: inj_on_def)

lemma keys_of_remove1:
  assumes "lru_inv c" "a \<in> set (live c)" "set xs \<subseteq> set (live c)"
  shows "keys_of c (remove1 a xs) = remove1 (node_key (node c a)) (keys_of c xs)"
  unfolding keys_of_def
  by (rule map_remove1_inj, rule inj_on_subset [OF key_inj [OF assms(1)]]) (use assms in auto)

lemma key_in_list:
  assumes "lru_inv c" "a \<in> set (live c)" "set xs \<subseteq> set (live c)"
  shows "node_key (node c a) \<in> set (keys_of c xs) \<longleftrightarrow> a \<in> set xs"
  using inj_on_image_mem_iff [OF key_inj [OF assms(1)] assms(2,3)] by simp

lemma distinct_keys:
  assumes "lru_inv c"
  shows "distinct (lru_keys c @ pinned_keys c @ candidate_keys c)"
proof -
  have "distinct (keys_of c (live c))"
    unfolding keys_of_def distinct_map
    using assms key_inj [OF assms] by (simp add: lru_inv_def)
  then show ?thesis by simp
qed

lemma find_iff:
  assumes "lru_inv c"
  shows "map_of (key_map c) k = None \<longleftrightarrow> k \<notin> set (lru_keys c @ pinned_keys c @ candidate_keys c)"
proof -
  have "k \<in> set (keys_of c (live c)) \<longleftrightarrow> (\<exists>a. map_of (key_map c) k = Some a)"
  proof
    assume "k \<in> set (keys_of c (live c))"
    then obtain a where "a \<in> set (live c)" "node_key (node c a) = k" unfolding keys_of_def by auto
    then show "\<exists>a. map_of (key_map c) k = Some a" using live_find [OF assms] by blast
  next
    assume "\<exists>a. map_of (key_map c) k = Some a"
    then show "k \<in> set (keys_of c (live c))"
      using find_live [OF assms] unfolding keys_of_def set_map by blast
  qed
  then show ?thesis by (cases "map_of (key_map c) k") simp_all
qed

section \<open>Promotion, eviction, pinning\<close>

lemma lists_distinct:
  assumes "lru_inv c"
  shows "distinct (lru_list c)" "distinct (pinned_list c)" "distinct (evict_candidate_list c)"
  using assms by (auto simp: lru_inv_def)

lemma lists_disjoint:
  assumes "lru_inv c"
  shows "a \<in> set (pinned_list c) \<Longrightarrow> a \<notin> set (lru_list c) \<and> a \<notin> set (evict_candidate_list c)"
    and "a \<in> set (lru_list c) \<Longrightarrow> a \<notin> set (pinned_list c) \<and> a \<notin> set (evict_candidate_list c)"
    and "a \<in> set (evict_candidate_list c) \<Longrightarrow> a \<notin> set (pinned_list c) \<and> a \<notin> set (lru_list c)"
  using assms by (auto simp: lru_inv_def)

lemma Promote_frame [simp]:
  "node_key (node (Promote c a) b) = node_key (node c b)"
  "node_value (node (Promote c a) b) = node_value (node c b)"
  "pin_count (node (Promote c a) b) = pin_count (node c b)"
  "key_map (Promote c a) = key_map c" "capacity (Promote c a) = capacity c"
  "keys_of (Promote c a) xs = keys_of c xs"
  by (simp_all add: Promote_def keys_of_def)

lemma PromoteBack_frame [simp]:
  "node_key (node (PromoteBack c a) b) = node_key (node c b)"
  "node_value (node (PromoteBack c a) b) = node_value (node c b)"
  "pin_count (node (PromoteBack c a) b) = pin_count (node c b)"
  "key_map (PromoteBack c a) = key_map c" "capacity (PromoteBack c a) = capacity c"
  "keys_of (PromoteBack c a) xs = keys_of c xs"
  by (simp_all add: PromoteBack_def keys_of_def)

lemma tags:
  assumes "lru_inv c"
  shows "a \<in> set (lru_list c) \<Longrightarrow> pin_count (node c a) = 0"
    and "a \<in> set (lru_list c) \<Longrightarrow> location (node c a) = kLru"
    and "a \<in> set (pinned_list c) \<Longrightarrow> pin_count (node c a) > 0"
    and "a \<in> set (pinned_list c) \<Longrightarrow> location (node c a) = kPinned"
    and "a \<in> set (evict_candidate_list c) \<Longrightarrow> pin_count (node c a) = 0"
    and "a \<in> set (evict_candidate_list c) \<Longrightarrow> location (node c a) = kCandidate"
    and "a \<in> set (pinned_list c) \<Longrightarrow> pin_count (node c a) \<le> INT_MAX"
  using assms unfolding lru_inv_def tags_ok_def by blast+

lemma live_cases:
  assumes "a \<in> set (live c)"
  obtains (lru) "a \<in> set (lru_list c)" | (pinned) "a \<in> set (pinned_list c)"
    | (candidate) "a \<in> set (evict_candidate_list c)"
  using assms by auto

lemma Promote_eqs:
  assumes "lru_inv c"
  shows "a \<in> set (lru_list c) \<Longrightarrow> Promote c a = c\<lparr>lru_list := a # remove1 a (lru_list c)\<rparr>"
    and "a \<in> set (pinned_list c) \<Longrightarrow> Promote c a =
      modify_node (\<lambda>n. n\<lparr>location := kPinned\<rparr>) a (c\<lparr>pinned_list := a # remove1 a (pinned_list c)\<rparr>)"
    and "a \<in> set (evict_candidate_list c) \<Longrightarrow> Promote c a =
      modify_node (\<lambda>n. n\<lparr>location := kLru\<rparr>) a
        (c\<lparr>evict_candidate_list := remove1 a (evict_candidate_list c), lru_list := a # lru_list c\<rparr>)"
  by (simp_all add: Promote_def tags [OF assms])

lemma PromoteBack_eqs:
  assumes "lru_inv c"
  shows "a \<in> set (lru_list c) \<Longrightarrow> PromoteBack c a = c\<lparr>lru_list := remove1 a (lru_list c) @ [a]\<rparr>"
    and "a \<in> set (pinned_list c) \<Longrightarrow> PromoteBack c a =
      modify_node (\<lambda>n. n\<lparr>location := kPinned\<rparr>) a (c\<lparr>pinned_list := remove1 a (pinned_list c) @ [a]\<rparr>)"
    and "a \<in> set (evict_candidate_list c) \<Longrightarrow> PromoteBack c a =
      modify_node (\<lambda>n. n\<lparr>location := kLru\<rparr>) a
        (c\<lparr>evict_candidate_list := remove1 a (evict_candidate_list c), lru_list := lru_list c @ [a]\<rparr>)"
  by (simp_all add: PromoteBack_def tags [OF assms])

lemma Promote_lists:
  assumes inv: "lru_inv c" and a: "a \<in> set (live c)"
  shows "lru_list (Promote c a) =
           (if a \<in> set (pinned_list c) then lru_list c else a # remove1 a (lru_list c)) \<and>
         pinned_list (Promote c a) =
           (if a \<in> set (pinned_list c) then a # remove1 a (pinned_list c) else pinned_list c) \<and>
         evict_candidate_list (Promote c a) = remove1 a (evict_candidate_list c)"
  using a
proof (cases rule: live_cases)
  case lru
  then show ?thesis using lists_disjoint(2) [OF inv lru]
    by (simp add: Promote_eqs(1) [OF inv lru] remove1_idem)
next
  case pinned
  then show ?thesis using lists_disjoint(1) [OF inv pinned]
    by (simp add: Promote_eqs(2) [OF inv pinned] remove1_idem)
next
  case candidate
  then show ?thesis using lists_disjoint(3) [OF inv candidate]
    by (simp add: Promote_eqs(3) [OF inv candidate] remove1_idem)
qed

lemma PromoteBack_lists:
  assumes inv: "lru_inv c" and a: "a \<in> set (live c)"
  shows "lru_list (PromoteBack c a) =
           (if a \<in> set (pinned_list c) then lru_list c else remove1 a (lru_list c) @ [a]) \<and>
         pinned_list (PromoteBack c a) =
           (if a \<in> set (pinned_list c) then remove1 a (pinned_list c) @ [a] else pinned_list c) \<and>
         evict_candidate_list (PromoteBack c a) = remove1 a (evict_candidate_list c)"
  using a
proof (cases rule: live_cases)
  case lru
  then show ?thesis using lists_disjoint(2) [OF inv lru]
    by (simp add: PromoteBack_eqs(1) [OF inv lru] remove1_idem)
next
  case pinned
  then show ?thesis using lists_disjoint(1) [OF inv pinned]
    by (simp add: PromoteBack_eqs(2) [OF inv pinned] remove1_idem)
next
  case candidate
  then show ?thesis using lists_disjoint(3) [OF inv candidate]
    by (simp add: PromoteBack_eqs(3) [OF inv candidate] remove1_idem)
qed

lemma relocated_eq:
  "c\<lparr>lru_list := L\<rparr> = c\<lparr>lru_list := L, pinned_list := pinned_list c,
     evict_candidate_list := evict_candidate_list c\<rparr>"
  "c\<lparr>pinned_list := P\<rparr> = c\<lparr>lru_list := lru_list c, pinned_list := P,
     evict_candidate_list := evict_candidate_list c\<rparr>"
  "c\<lparr>evict_candidate_list := E, lru_list := L\<rparr> = c\<lparr>lru_list := L,
     pinned_list := pinned_list c, evict_candidate_list := E\<rparr>"
  "c\<lparr>evict_candidate_list := E, pinned_list := P\<rparr> = c\<lparr>lru_list := lru_list c,
     pinned_list := P, evict_candidate_list := E\<rparr>"
  "c\<lparr>lru_list := L, pinned_list := P\<rparr> = c\<lparr>lru_list := L,
     pinned_list := P, evict_candidate_list := evict_candidate_list c\<rparr>"
  "c\<lparr>lru_list := L, evict_candidate_list := E\<rparr> = c\<lparr>lru_list := L,
     pinned_list := pinned_list c, evict_candidate_list := E\<rparr>"
  "c\<lparr>pinned_list := P, lru_list := L\<rparr> = c\<lparr>lru_list := L, pinned_list := P,
     evict_candidate_list := evict_candidate_list c\<rparr>"
  "c = c\<lparr>lru_list := lru_list c, pinned_list := pinned_list c,
     evict_candidate_list := evict_candidate_list c\<rparr>"
  by simp_all

lemma Promote_inv:
  assumes inv: "lru_inv c" and a: "a \<in> set (live c)"
  shows "lru_inv (Promote c a)"
  using a
proof (cases rule: live_cases)
  case lru
  show ?thesis unfolding Promote_eqs(1) [OF inv lru]
    by (rule lru_inv_reorder [OF inv]) (use lru lists_distinct [OF inv] in auto)
next
  case pinned
  show ?thesis unfolding Promote_eqs(2) [OF inv pinned]
    by (subst relocated_eq(2), rule lru_inv_relocate [OF inv a])
      (use pinned inv tags(3,7) [OF inv pinned] lists_disjoint(1) [OF inv pinned] in \<open>auto simp: lru_inv_def\<close>)
next
  case candidate
  show ?thesis unfolding Promote_eqs(3) [OF inv candidate]
    by (subst relocated_eq(3), rule lru_inv_relocate [OF inv a])
      (use candidate inv tags(5) [OF inv candidate] lists_disjoint(3) [OF inv candidate] in \<open>auto simp: lru_inv_def\<close>)
qed

lemma PromoteBack_inv:
  assumes inv: "lru_inv c" and a: "a \<in> set (live c)"
  shows "lru_inv (PromoteBack c a)"
  using a
proof (cases rule: live_cases)
  case lru
  show ?thesis unfolding PromoteBack_eqs(1) [OF inv lru]
    by (rule lru_inv_reorder [OF inv]) (use lru lists_distinct [OF inv] in auto)
next
  case pinned
  show ?thesis unfolding PromoteBack_eqs(2) [OF inv pinned]
    by (subst relocated_eq(2), rule lru_inv_relocate [OF inv a])
      (use pinned inv tags(3,7) [OF inv pinned] lists_disjoint(1) [OF inv pinned] in \<open>auto simp: lru_inv_def\<close>)
next
  case candidate
  show ?thesis unfolding PromoteBack_eqs(3) [OF inv candidate]
    by (subst relocated_eq(3), rule lru_inv_relocate [OF inv a])
      (use candidate inv tags(5) [OF inv candidate] lists_disjoint(3) [OF inv candidate] in \<open>auto simp: lru_inv_def\<close>)
qed

lemma set_value_inv:
  assumes inv: "lru_inv c" and a: "a \<in> set (live c)"
  shows "lru_inv (modify_node (\<lambda>n. n\<lparr>node_value := v\<rparr>) a c)"
  by (subst relocated_eq(8), rule lru_inv_relocate [OF inv a])
    (use inv a in \<open>auto simp: lru_inv_def tags_ok_def\<close>)

lemma Evict_eq:
  assumes "lru_list c \<noteq> []"
  shows "Evict c = (Some (node_key (node c (last (lru_list c))), node_value (node c (last (lru_list c)))),
     modify_node (\<lambda>n. n\<lparr>location := kCandidate\<rparr>) (last (lru_list c))
       (c\<lparr>lru_list := butlast (lru_list c),
          evict_candidate_list := evict_candidate_list c @ [last (lru_list c)]\<rparr>))"
  using assms by (simp add: Evict_def Let_def)

lemma Evict_inv:
  assumes inv: "lru_inv c" shows "lru_inv (snd (Evict c))"
proof (cases "lru_list c = []")
  case True then show ?thesis using inv by (simp add: Evict_def)
next
  case False
  then obtain xs a where xs: "lru_list c = xs @ [a]" by (metis append_butlast_last_id)
  then have a: "a \<in> set (live c)" and lru: "a \<in> set (lru_list c)" by simp_all
  show ?thesis unfolding Evict_eq [OF False] snd_conv xs last_snoc butlast_snoc
    by (subst relocated_eq(6), rule lru_inv_relocate [OF inv a])
      (use xs inv tags(1) [OF inv lru] in \<open>auto simp: lru_inv_def\<close>)
qed

lemma Evict_frame [simp]:
  "node_key (node (snd (Evict c)) b) = node_key (node c b)"
  "node_value (node (snd (Evict c)) b) = node_value (node c b)"
  "pin_count (node (snd (Evict c)) b) = pin_count (node c b)"
  "key_map (snd (Evict c)) = key_map c" "capacity (snd (Evict c)) = capacity c"
  "pinned_list (snd (Evict c)) = pinned_list c"
  "keys_of (snd (Evict c)) xs = keys_of c xs"
  "next_address (snd (Evict c)) = next_address c"
  by (simp_all add: Evict_def Let_def keys_of_def)

lemma fresh_address:
  assumes "lru_inv c" shows "next_address c \<notin> set (live c)"
  using assms unfolding lru_inv_def index_ok_def by blast

lemma emplace_lists [simp]:
  "lru_list (emplace_front k v c) = next_address c # lru_list c"
  "lru_list (emplace_back k v c) = lru_list c @ [next_address c]"
  "pinned_list (emplace_front k v c) = pinned_list c"
  "pinned_list (emplace_back k v c) = pinned_list c"
  "evict_candidate_list (emplace_front k v c) = evict_candidate_list c"
  "evict_candidate_list (emplace_back k v c) = evict_candidate_list c"
  "key_map (emplace_front k v c) = put k (next_address c) (key_map c)"
  "key_map (emplace_back k v c) = put k (next_address c) (key_map c)"
  "capacity (emplace_front k v c) = capacity c" "capacity (emplace_back k v c) = capacity c"
  "node (emplace_front k v c) b = (if b = next_address c then new_node k v else node c b)"
  "node (emplace_back k v c) b = (if b = next_address c then new_node k v else node c b)"
  by (simp_all add: emplace_front_def emplace_back_def node_def)

lemma index_emplace:
  assumes "lru_inv c" "map_of (key_map c) k = None"
    and "key_map c' = put k (next_address c) (key_map c)"
    and "nodes c' = put (next_address c) (new_node k v) (nodes c)"
    and "set (live c') = insert (next_address c) (set (live c))"
    and "next_address c' = Suc (next_address c)"
  shows "index_ok c'"
proof -
  have idx: "index_ok c" using assms(1) by (simp add: lru_inv_def)
  have n: "node c' b = (if b = next_address c then new_node k v else node c b)" for b
    using assms(4) by (simp add: node_def)
  have fr: "b \<noteq> next_address c" if "b \<in> set (live c)" for b
    using that fresh_address [OF assms(1)] by blast
  have ok: "amap_ok (key_map c')" "amap_ok (nodes c')" using idx assms(3,4) by (simp_all add: index_ok_def)
  have dom: "set (live c') = set (keys (nodes c'))"
    using idx assms(4,5) unfolding index_ok_def by simp
  have fwd: "a \<in> set (live c') \<and> node_key (node c' a) = k'" if "(k', a) \<in> set (key_map c')" for k' a
  proof -
    have "map_of (key_map c') k' = Some a" by (rule map_of_is_SomeI [OF ok(1) that])
    note m = this [unfolded assms(3) map_of_put]
    show ?thesis
    proof (cases "k' = k")
      case True then show ?thesis using m n assms(5) by (simp add: new_node_def)
    next
      case False
      then have f: "map_of (key_map c) k' = Some a" using m by simp
      have "a \<in> set (live c)" and "node_key (node c a) = k'"
        using find_live [OF assms(1) f] by blast+
      moreover from this have "a \<noteq> next_address c" using fr by blast
      ultimately show ?thesis unfolding assms(5) n by simp
    qed
  qed
  have bwd: "map_of (key_map c') (node_key (node c' a)) = Some a \<and> a < next_address c'"
    if "a \<in> set (live c')" for a
  proof (cases "a = next_address c")
    case True then show ?thesis using n assms(3,6) by (simp add: new_node_def)
  next
    case False
    then have a: "a \<in> set (live c)" using that assms(5) by blast
    then have "a < next_address c" using idx unfolding index_ok_def by blast
    then show ?thesis using live_find [OF assms(1) a] False n assms(2,3,6) by auto
  qed
  show ?thesis unfolding index_ok_def using ok dom fwd bwd by blast
qed

lemma emplace_inv:
  assumes inv: "lru_inv c" and k: "map_of (key_map c) k = None"
  shows "lru_inv (emplace_front k v c)" "lru_inv (emplace_back k v c)"
proof -
  have "index_ok (emplace_front k v c)" "index_ok (emplace_back k v c)"
    by (rule index_emplace [OF inv k]; simp add: emplace_front_def emplace_back_def)+
  moreover have "tags_ok (emplace_front k v c)" "tags_ok (emplace_back k v c)"
    using inv fresh_address [OF inv] unfolding lru_inv_def tags_ok_def
    by (auto simp: new_node_def)
  ultimately show "lru_inv (emplace_front k v c)" "lru_inv (emplace_back k v c)"
    using inv fresh_address [OF inv] by (auto simp: lru_inv_def)
qed

lemma Put_inv:
  assumes inv: "lru_inv c" shows "lru_inv (snd (Put c k v))"
proof (cases "map_of (key_map c) k")
  case (Some a)
  let ?c = "modify_node (\<lambda>n. n\<lparr>node_value := v\<rparr>) a c"
  have a: "a \<in> set (live c)" using find_live(1) [OF inv Some] .
  have "lru_inv (Promote ?c a)"
    by (rule Promote_inv [OF set_value_inv [OF inv a]]) (use a in simp)
  then show ?thesis by (simp add: Put_def Some)
next
  case None
  have "lru_inv (emplace_front k v c)" "lru_inv (emplace_front k v (snd (Evict c)))"
    using emplace_inv(1) [OF inv None] emplace_inv(1) [OF Evict_inv [OF inv], of k] None by simp_all
  then show ?thesis using None Evict_inv [OF inv]
    by (auto simp: Put_def split: option.split prod.split)
qed

lemma PutBack_inv:
  assumes inv: "lru_inv c" shows "lru_inv (PutBack c k v)"
proof (cases "map_of (key_map c) k")
  case (Some a)
  let ?c = "modify_node (\<lambda>n. n\<lparr>node_value := v\<rparr>) a c"
  have a: "a \<in> set (live c)" using find_live(1) [OF inv Some] .
  have "lru_inv (PromoteBack ?c a)"
    by (rule PromoteBack_inv [OF set_value_inv [OF inv a]]) (use a in simp)
  then show ?thesis by (simp add: PutBack_def Some)
next
  case None
  have "lru_inv (emplace_back k v c)" "lru_inv (emplace_back k v (snd (Evict c)))"
    using emplace_inv(2) [OF inv None] emplace_inv(2) [OF Evict_inv [OF inv], of k] None by simp_all
  then show ?thesis using None by (simp add: PutBack_def)
qed

lemma modify_node_modify_node:
  "modify_node f a (modify_node g a c) = modify_node (\<lambda>n. f (g n)) a c"
  by (simp add: modify_node_def node_def)

abbreviation pin_one :: "('k, 'v) CacheNode \<Rightarrow> ('k, 'v) CacheNode" where
  "pin_one n \<equiv> n\<lparr>location := kPinned, pin_count := pin_count n + 1\<rparr>"

lemma GetAndPin_eqs:
  assumes inv: "lru_inv c" and k: "map_of (key_map c) k = Some a"
  shows "a \<in> set (lru_list c) \<Longrightarrow> GetAndPin c k = (Inr (Some (node_value (node c a))),
      modify_node (\<lambda>n. pin_one n) a
        (c\<lparr>lru_list := remove1 a (lru_list c), pinned_list := a # pinned_list c\<rparr>))"
    and "a \<in> set (evict_candidate_list c) \<Longrightarrow> GetAndPin c k = (Inr (Some (node_value (node c a))),
      modify_node (\<lambda>n. pin_one n) a
        (c\<lparr>evict_candidate_list := remove1 a (evict_candidate_list c), pinned_list := a # pinned_list c\<rparr>))"
    and "a \<in> set (pinned_list c) \<Longrightarrow> pin_count (node c a) \<noteq> INT_MAX \<Longrightarrow>
      GetAndPin c k = (Inr (Some (node_value (node c a))), modify_node (\<lambda>n. n\<lparr>pin_count := pin_count n + 1\<rparr>) a c)"
    and "a \<in> set (pinned_list c) \<Longrightarrow> pin_count (node c a) = INT_MAX \<Longrightarrow>
      GetAndPin c k = (UndefinedBehaviour ''pin_count++ overflows int'', c)"
  using tags [OF inv, of a]
  by (simp_all add: GetAndPin_def k modify_node_modify_node Let_def)

lemma GetAndPin_inv:
  assumes inv: "lru_inv c" shows "lru_inv (snd (GetAndPin c k))"
proof (cases "map_of (key_map c) k")
  case None then show ?thesis using inv by (simp add: GetAndPin_def)
next
  case (Some a)
  have a: "a \<in> set (live c)" using find_live(1) [OF inv Some] .
  show ?thesis using a
  proof (cases rule: live_cases)
    case lru
    show ?thesis unfolding GetAndPin_eqs(1) [OF inv Some lru] snd_conv
      by (subst relocated_eq(5), rule lru_inv_relocate [OF inv a])
        (use lru inv tags(1) [OF inv lru] lists_disjoint(2) [OF inv lru] in \<open>auto simp: lru_inv_def\<close>)
  next
    case pinned
    show ?thesis
    proof (cases "pin_count (node c a) = INT_MAX")
      case False
      have "pin_count (node c a) < INT_MAX" using pinned inv False by (force simp: lru_inv_def tags_ok_def)
      then show ?thesis unfolding GetAndPin_eqs(3) [OF inv Some pinned False] snd_conv
        by (subst relocated_eq(8), intro lru_inv_relocate [OF inv a])
          (use pinned inv in \<open>auto simp: lru_inv_def tags_ok_def\<close>)
    qed (simp add: GetAndPin_eqs(4) [OF inv Some pinned] inv)
  next
    case candidate
    show ?thesis unfolding GetAndPin_eqs(2) [OF inv Some candidate] snd_conv
      by (subst relocated_eq(4), rule lru_inv_relocate [OF inv a])
        (use candidate inv tags(5) [OF inv candidate] lists_disjoint(3) [OF inv candidate]
         in \<open>auto simp: lru_inv_def\<close>)
  qed
qed

lemma Unpin_eqs:
  assumes inv: "lru_inv c" and k: "map_of (key_map c) k = Some a"
  shows "a \<notin> set (pinned_list c) \<Longrightarrow> Unpin c k = (True, c)"
    and "a \<in> set (pinned_list c) \<Longrightarrow> pin_count (node c a) \<noteq> 1 \<Longrightarrow>
      Unpin c k = (True, modify_node (\<lambda>n. n\<lparr>pin_count := pin_count n - 1\<rparr>) a c)"
    and "a \<in> set (pinned_list c) \<Longrightarrow> pin_count (node c a) = 1 \<Longrightarrow>
      Unpin c k = (True, modify_node (\<lambda>n. n\<lparr>pin_count := pin_count n - 1, location := kLru\<rparr>) a
        (c\<lparr>pinned_list := remove1 a (pinned_list c), lru_list := a # lru_list c\<rparr>))"
proof -
  have "\<not> pin_count (node c a) > 0" if "a \<notin> set (pinned_list c)"
    using that location_cases(4) [OF inv find_live(1) [OF inv k]] by simp
  then show "a \<notin> set (pinned_list c) \<Longrightarrow> Unpin c k = (True, c)" by (simp add: Unpin_def k)
qed (use tags(3) [OF inv, of a] in
      \<open>simp_all add: Unpin_def k, simp add: modify_node_def node_def\<close>)

lemma Unpin_inv:
  assumes inv: "lru_inv c" shows "lru_inv (snd (Unpin c k))"
proof (cases "map_of (key_map c) k")
  case None then show ?thesis using inv by (simp add: Unpin_def)
next
  case (Some a)
  have a: "a \<in> set (live c)" using find_live(1) [OF inv Some] .
  consider "a \<notin> set (pinned_list c)" | (dec) "a \<in> set (pinned_list c)" "pin_count (node c a) \<noteq> 1"
    | (last) "a \<in> set (pinned_list c)" "pin_count (node c a) = 1" by blast
  then show ?thesis
  proof cases
    case 1 then show ?thesis using Unpin_eqs(1) [OF inv Some] inv by simp
  next
    case dec
    show ?thesis unfolding Unpin_eqs(2) [OF inv Some dec] snd_conv
      by (subst relocated_eq(8), rule lru_inv_relocate [OF inv a])
        (use dec inv in \<open>auto simp: lru_inv_def tags_ok_def order_le_less\<close>)
  next
    case last
    show ?thesis unfolding Unpin_eqs(3) [OF inv Some last] snd_conv
      by (subst relocated_eq(7), rule lru_inv_relocate [OF inv a])
        (use last inv lists_disjoint(1) [OF inv last(1)] in \<open>auto simp: lru_inv_def\<close>)
  qed
qed

lemma Erase_eqs:
  assumes inv: "lru_inv c" and k: "map_of (key_map c) k = Some a"
  shows "a \<in> set (pinned_list c) \<Longrightarrow> Erase c k = (False, c)"
    and "a \<notin> set (pinned_list c) \<Longrightarrow> Erase c k = (True,
      c\<lparr>lru_list := remove1 a (lru_list c), evict_candidate_list := remove1 a (evict_candidate_list c),
        nodes := del a (nodes c), key_map := del k (key_map c)\<rparr>)"
proof -
  show "a \<in> set (pinned_list c) \<Longrightarrow> Erase c k = (False, c)"
    using tags(3) [OF inv] by (simp add: Erase_def k)
  assume np: "a \<notin> set (pinned_list c)"
  from find_live(1) [OF inv k] show "Erase c k = (True,
      c\<lparr>lru_list := remove1 a (lru_list c), evict_candidate_list := remove1 a (evict_candidate_list c),
        nodes := del a (nodes c), key_map := del k (key_map c)\<rparr>)"
  proof (cases rule: live_cases)
    case lru
    then show ?thesis using tags(1,2) [OF inv lru] lists_disjoint(2) [OF inv lru]
      by (simp add: Erase_def k remove1_idem)
  next
    case pinned then show ?thesis using np by simp
  next
    case candidate
    then show ?thesis using tags(5,6) [OF inv candidate] lists_disjoint(3) [OF inv candidate]
      by (simp add: Erase_def k remove1_idem)
  qed
qed

lemma index_erase:
  assumes inv: "lru_inv c" and k: "map_of (key_map c) k = Some a"
    and c': "key_map c' = del k (key_map c)" "nodes c' = del a (nodes c)"
      "set (live c') = set (live c) - {a}" "next_address c' = next_address c"
  shows "index_ok c'"
proof -
  have idx: "index_ok c" using inv by (simp add: lru_inv_def)
  have node: "node c' b = node c b" if "b \<noteq> a" for b using that c'(2) by (simp add: node_def)
  have km: "map_of (key_map c') = (map_of (key_map c))(k := None)" by (simp add: c'(1))
  have ok: "amap_ok (key_map c')" "amap_ok (nodes c')" using idx by (simp_all add: index_ok_def c')
  have dom: "set (live c') = set (keys (nodes c'))"
    using idx unfolding index_ok_def c'(2,3) set_map fst_set_del by blast
  have fwd: "b \<in> set (live c') \<and> node_key (node c' b) = k'" if "(k', b) \<in> set (key_map c')" for k' b
  proof -
    have m: "k' \<noteq> k" "map_of (key_map c) k' = Some b"
      using map_of_is_SomeI [OF ok(1) that] km by (auto split: if_splits)
    have "b \<noteq> a" using m find_live(2) [OF inv] k by metis
    then show ?thesis using find_live [OF inv m(2)] node unfolding c'(3) by simp
  qed
  have bwd: "map_of (key_map c') (node_key (node c' b)) = Some b \<and> b < next_address c'"
    if "b \<in> set (live c')" for b
  proof -
    have b: "b \<in> set (live c)" "b \<noteq> a" using that unfolding c'(3) by blast+
    have "b < next_address c" using idx b(1) unfolding index_ok_def by blast
    moreover have "node_key (node c b) \<noteq> k" using live_find [OF inv b(1)] k b(2) by auto
    ultimately show ?thesis using live_find [OF inv b(1)] node b(2) km c'(4) by simp
  qed
  show ?thesis unfolding index_ok_def using ok dom fwd bwd by blast
qed

lemma Erase_inv:
  assumes inv: "lru_inv c" shows "lru_inv (snd (Erase c k))"
proof (cases "map_of (key_map c) k")
  case None then show ?thesis using inv by (simp add: Erase_def)
next
  case (Some a)
  show ?thesis
  proof (cases "a \<in> set (pinned_list c)")
    case True then show ?thesis using Erase_eqs(1) [OF inv Some] inv by simp
  next
    case False
    define c' where "c' = snd (Erase c k)"
    note eq = c'_def [unfolded Erase_eqs(2) [OF inv Some False] snd_conv]
    have lists: "lru_list c' = remove1 a (lru_list c)" "pinned_list c' = pinned_list c"
      "evict_candidate_list c' = remove1 a (evict_candidate_list c)" by (simp_all add: eq)
    have sets: "set (lru_list c') = set (lru_list c) - {a}" "set (pinned_list c') = set (pinned_list c) - {a}"
      "set (evict_candidate_list c') = set (evict_candidate_list c) - {a}"
      using False lists_distinct [OF inv] by (auto simp: lists)
    have node: "node c' b = node c b" if "b \<noteq> a" for b using that by (simp add: eq node_def)
    have "tags_ok c'"
      using inv node unfolding tags_ok_def sets lru_inv_def by auto
    moreover have "distinct (live c')" using inv by (auto simp: lru_inv_def lists)
    moreover have "index_ok c'"
      by (rule index_erase [OF inv Some]) (use False lists_distinct [OF inv] in \<open>auto simp: eq\<close>)
    ultimately show ?thesis by (simp add: lru_inv_def c'_def)
  qed
qed

lemma Clear_inv: "lru_inv (Clear c)"
  by (simp add: Clear_def lru_inv_def tags_ok_def index_ok_def)

lemma LRUCache_init_inv: "lru_inv (LRUCache_init cap)"
  by (simp add: LRUCache_init_def lru_inv_def tags_ok_def index_ok_def)

lemma Get_inv: "lru_inv c \<Longrightarrow> lru_inv (snd (Get c k))"
  using Promote_inv [of c] find_live(1) [of c k] by (simp add: Get_def Let_def split: option.split)

section \<open>Sequences of operations\<close>

datatype ('k, 'v) lru_op =
    DoPut 'k 'v | DoPutBack 'k 'v | DoGet 'k | DoPin 'k | DoUnpin 'k | DoErase 'k | DoEvict | DoClear

fun lru_apply :: "('k, 'v) LRUCache \<Rightarrow> ('k, 'v) lru_op \<Rightarrow> ('k, 'v) LRUCache" where
  "lru_apply c (DoPut k v) = snd (Put c k v)"
| "lru_apply c (DoPutBack k v) = PutBack c k v"
| "lru_apply c (DoGet k) = snd (Get c k)"
| "lru_apply c (DoPin k) = snd (Pin c k)"
| "lru_apply c (DoUnpin k) = snd (Unpin c k)"
| "lru_apply c (DoErase k) = snd (Erase c k)"
| "lru_apply c DoEvict = snd (Evict c)"
| "lru_apply c DoClear = Clear c"

fun releases :: "'k \<Rightarrow> ('k, 'v) lru_op \<Rightarrow> bool" where
  "releases k (DoUnpin k') = (k' = k)"
| "releases k DoClear = True"
| "releases k op = False"

fun pins_added :: "'k \<Rightarrow> ('k, 'v) lru_op \<Rightarrow> int" where
  "pins_added k (DoPin k') = (if k' = k then 1 else 0)"
| "pins_added k op = 0"

fun value_after :: "'k \<Rightarrow> 'v \<Rightarrow> ('k, 'v) lru_op \<Rightarrow> 'v" where
  "value_after k v (DoPut k' w) = (if k' = k then w else v)"
| "value_after k v (DoPutBack k' w) = (if k' = k then w else v)"
| "value_after k v op = v"

text \<open>
  What a client that holds a pin relies on, as long as the pin count stays within its type: the
  pointer it was handed stays the entry of its key, the pin count changes only by the pins of
  that key, and the value behind the pointer is the one last written to the key.
\<close>

locale pin_protected =
  fixes good :: "'c \<Rightarrow> bool" and apply_op :: "'c \<Rightarrow> 'op \<Rightarrow> 'c"
    and find_ptr :: "'c \<Rightarrow> 'k \<Rightarrow> 'p option" and pin_of :: "'c \<Rightarrow> 'k \<Rightarrow> int"
    and deref :: "'c \<Rightarrow> 'p \<Rightarrow> 'v" and limit :: int
    and rel :: "'k \<Rightarrow> 'op \<Rightarrow> bool" and added :: "'k \<Rightarrow> 'op \<Rightarrow> int" and wr :: "'k \<Rightarrow> 'v \<Rightarrow> 'op \<Rightarrow> 'v"
  assumes good_step: "good c \<Longrightarrow> good (apply_op c op)"
    and added_nonneg: "added k op \<ge> 0"
    and pin_step: "good c \<Longrightarrow> find_ptr c k = Some p \<Longrightarrow> pin_of c k > 0 \<Longrightarrow> \<not> rel k op \<Longrightarrow>
      pin_of c k + added k op \<le> limit \<Longrightarrow>
      find_ptr (apply_op c op) k = Some p \<and> pin_of (apply_op c op) k = pin_of c k + added k op \<and>
      deref (apply_op c op) p = wr k (deref c p) op"
begin

lemma good_run: "good c \<Longrightarrow> good (foldl apply_op c ops)"
  by (induction ops arbitrary: c) (simp_all add: good_step)

lemma added_run: "sum_list (map (added k) ops) \<ge> 0"
  by (induction ops) (simp_all add: added_nonneg)

lemma pinned_run:
  assumes "good c" "find_ptr c k = Some p" "pin_of c k > 0" "list_all (\<lambda>op. \<not> rel k op) ops"
    and "pin_of c k + sum_list (map (added k) ops) \<le> limit"
  shows "find_ptr (foldl apply_op c ops) k = Some p \<and>
    pin_of (foldl apply_op c ops) k = pin_of c k + sum_list (map (added k) ops) \<and>
    deref (foldl apply_op c ops) p = foldl (wr k) (deref c p) ops"
  using assms
proof (induction ops arbitrary: c)
  case (Cons op ops)
  have "pin_of c k + added k op \<le> limit" using Cons.prems(5) added_run [of k ops] by simp
  then have "find_ptr (apply_op c op) k = Some p \<and> pin_of (apply_op c op) k = pin_of c k + added k op \<and>
      deref (apply_op c op) p = wr k (deref c p) op"
    using pin_step Cons.prems by simp
  then show ?case using Cons.IH [of "apply_op c op"] good_step [of c op] Cons.prems added_nonneg [of k op] by simp
qed simp

end

lemma lru_apply_inv: "lru_inv c \<Longrightarrow> lru_inv (lru_apply c op)"
  by (cases op) (simp_all add: Put_inv PutBack_inv Get_inv GetAndPin_inv Unpin_inv Erase_inv
    Evict_inv Clear_inv Pin_def split_beta)

lemma Put_new:
  assumes "map_of (key_map c) k = None"
  shows "Put c k v =
    (if active_size c < capacity c then (None, emplace_front k v c)
     else if lru_list c = [] then (None, c)
     else (Some (node_key (node c (last (lru_list c))), node_value (node c (last (lru_list c)))),
           emplace_front k v (snd (Evict c))))"
  using assms by (simp add: Put_def Evict_def Let_def)

lemma Put_old:
  "map_of (key_map c) k = Some a \<Longrightarrow>
   Put c k v = (None, Promote (modify_node (\<lambda>n. n\<lparr>node_value := v\<rparr>) a c) a)"
  by (simp add: Put_def)

definition still_held :: "('k, 'v) LRUCache \<Rightarrow> 'k \<Rightarrow> nat \<Rightarrow> int \<Rightarrow> 'v \<Rightarrow> ('k, 'v) LRUCache \<Rightarrow> bool" where
  "still_held c k a n v c' \<longleftrightarrow> map_of (key_map c') k = Some a \<and>
     pin_count (node c' a) = pin_count (node c a) + n \<and> node_value (node c' a) = v"

lemma other_address:
  assumes "lru_inv c" "map_of (key_map c) k = Some a" "map_of (key_map c) k' = Some b" "k' \<noteq> k"
  shows "a \<noteq> b"
  using assms find_live(2) [OF assms(1)] by blast

lemma held_put:
  assumes inv: "lru_inv c" and k: "map_of (key_map c) k = Some a"
  shows "still_held c k a 0 (if k' = k then v else node_value (node c a)) (snd (Put c k' v))"
    "still_held c k a 0 (if k' = k then v else node_value (node c a)) (PutBack c k' v)"
proof -
  have fr: "a \<noteq> next_address c" using fresh_address [OF inv] find_live(1) [OF inv k] by auto
  have "still_held c k a 0 (if k' = k then v else node_value (node c a)) (snd (Put c k' v)) \<and>
      still_held c k a 0 (if k' = k then v else node_value (node c a)) (PutBack c k' v)"
  proof (cases "map_of (key_map c) k'")
    case None
    then have "k' \<noteq> k" using k by auto
    then show ?thesis using fr k None
      by (simp add: still_held_def Put_new PutBack_def)
  next
    case (Some b)
    then have "k' \<noteq> k \<Longrightarrow> a \<noteq> b" "k' = k \<Longrightarrow> a = b" using other_address [OF inv k Some] k by auto
    then show ?thesis using k Some by (auto simp: still_held_def Put_old PutBack_def)
  qed
  then show "still_held c k a 0 (if k' = k then v else node_value (node c a)) (snd (Put c k' v))"
    "still_held c k a 0 (if k' = k then v else node_value (node c a)) (PutBack c k' v)"
    by simp_all
qed

lemma GetAndPin_frame:
  "key_map (snd (GetAndPin c k)) = key_map c"
  "node_value (node (snd (GetAndPin c k)) a) = node_value (node c a)"
  by (simp_all add: GetAndPin_def Let_def split: option.split)

lemma held_pin:
  assumes inv: "lru_inv c" and k: "map_of (key_map c) k = Some a" and "pin_count (node c a) + pins_added k (DoPin k') \<le> INT_MAX"
  shows "still_held c k a (pins_added k (DoPin k')) (node_value (node c a)) (snd (GetAndPin c k'))"
proof (cases "map_of (key_map c) k'")
  case (Some b)
  then have "k' \<noteq> k \<Longrightarrow> a \<noteq> b" "k' = k \<Longrightarrow> a = b" using other_address [OF inv k Some] k by auto
  then show ?thesis using assms Some by (auto simp: still_held_def GetAndPin_frame) (auto simp: GetAndPin_def Let_def)
qed (use assms in \<open>auto simp: GetAndPin_def still_held_def\<close>)

lemma Unpin_other:
  assumes "lru_inv c" "map_of (key_map c) k = Some a" "k' \<noteq> k"
  shows "still_held c k a 0 (node_value (node c a)) (snd (Unpin c k'))"
proof (cases "map_of (key_map c) k'")
  case (Some b)
  then have "a \<noteq> b" using other_address assms by metis
  then show ?thesis using assms(2) Some by (simp add: Unpin_def still_held_def Let_def)
qed (use assms in \<open>simp add: Unpin_def still_held_def\<close>)

lemma Erase_pinned:
  assumes inv: "lru_inv c" and k: "map_of (key_map c) k = Some a" and a: "a \<in> set (pinned_list c)"
  shows "still_held c k a 0 (node_value (node c a)) (snd (Erase c k'))"
proof (cases "map_of (key_map c) k'")
  case (Some b)
  show ?thesis
  proof (cases "b \<in> set (pinned_list c)")
    case True then show ?thesis using k Erase_eqs(1) [OF inv Some] by (simp add: still_held_def)
  next
    case False
    then have "b \<noteq> a" "k' \<noteq> k" using a k Some by auto
    then show ?thesis using k by (simp add: still_held_def Erase_eqs(2) [OF inv Some False] node_def)
  qed
qed (use assms in \<open>simp add: Erase_def still_held_def\<close>)

lemma pinned_step:
  assumes inv: "lru_inv c" and k: "map_of (key_map c) k = Some a" and p: "GetPinCount c k > 0"
    and "\<not> releases k op" and "GetPinCount c k + pins_added k op \<le> INT_MAX"
  shows "still_held c k a (pins_added k op) (value_after k (node_value (node c a)) op) (lru_apply c op)"
proof -
  have "a \<in> set (pinned_list c)" and n: "GetPinCount c k = pin_count (node c a)"
    using p location_cases(4) [OF inv find_live(1) [OF inv k]] by (simp_all add: GetPinCount_def k)
  then show ?thesis
  proof (cases op)
    case (DoPin k')
    then show ?thesis using held_pin [OF inv k, of k'] assms(5) n by (simp add: Pin_def split_beta)
  qed (use assms \<open>a \<in> set (pinned_list c)\<close> held_put [OF inv k] Unpin_other [OF inv k] Erase_pinned [OF inv k] in
      \<open>auto simp: Get_def Let_def still_held_def split: option.split\<close>)
qed

interpretation lru_pins: pin_protected lru_inv lru_apply PeekMutableIncludingCandidates GetPinCount
  "\<lambda>c a. node_value (node c a)" INT_MAX releases pins_added value_after
proof
  fix c :: "('k, 'v) LRUCache" and op k p
  show "lru_inv c \<Longrightarrow> lru_inv (lru_apply c op)" by (rule lru_apply_inv)
  show "pins_added k op \<ge> 0" by (cases op) simp_all
  assume "lru_inv c" "PeekMutableIncludingCandidates c k = Some p" "0 < GetPinCount c k" "\<not> releases k op"
    "GetPinCount c k + pins_added k op \<le> INT_MAX"
  then have "still_held c k p (pins_added k op) (value_after k (node_value (node c p)) op) (lru_apply c op)"
    "map_of (key_map c) k = Some p"
    using pinned_step by (auto simp: PeekMutableIncludingCandidates_def)
  then show "PeekMutableIncludingCandidates (lru_apply c op) k = Some p \<and>
      GetPinCount (lru_apply c op) k = GetPinCount c k + pins_added k op \<and>
      node_value (node (lru_apply c op) p) = value_after k (node_value (node c p)) op"
    by (simp add: PeekMutableIncludingCandidates_def GetPinCount_def still_held_def)
qed

section \<open>Properties\<close>

lemma scan_keys_eq:
  "length ks \<le> n \<Longrightarrow> scan_keys c n as ks = ks @ take (n - length ks) (keys_of c as)"
proof (induction as arbitrary: ks)
  case (Cons a as)
  show ?case
  proof (cases "length ks < n")
    case True
    then have "n - length ks = Suc (n - Suc (length ks))" by simp
    then show ?thesis using True Cons.IH [of "ks @ [node_key (node c a)]"] by simp
  qed simp
qed simp

lemma lookup_put_fresh:
  assumes "lru_inv c"
  shows "PeekIncludingCandidates (emplace_front k v c) = (PeekIncludingCandidates c)(k \<mapsto> v)"
proof
  fix k'
  have "map_of (key_map c) k' = Some a \<Longrightarrow> a \<noteq> next_address c" for a
    using find_live(1) [OF assms, of k' a] fresh_address [OF assms] by blast
  then show "PeekIncludingCandidates (emplace_front k v c) k' = ((PeekIncludingCandidates c)(k \<mapsto> v)) k'"
    by (auto simp: PeekIncludingCandidates_def new_node_def split: option.split)
qed

lemma lookup_Evict [simp]: "PeekIncludingCandidates (snd (Evict c)) = PeekIncludingCandidates c"
  by (rule ext) (simp add: PeekIncludingCandidates_def split: option.split)

lemma keys_emplace_front:
  assumes "lru_inv c" "set xs \<subseteq> set (live c)"
  shows "keys_of (emplace_front k v c) xs = keys_of c xs"
  using assms fresh_address [OF assms(1)] by (auto simp: keys_of_def)

lemma emplace_front_view:
  assumes "lru_inv c"
  shows "lru_keys (emplace_front k v c) = k # lru_keys c"
    "pinned_keys (emplace_front k v c) = pinned_keys c"
    "candidate_keys (emplace_front k v c) = candidate_keys c"
proof -
  have "keys_of (emplace_front k v c) (lru_list c) = lru_keys c"
    "keys_of (emplace_front k v c) (pinned_list c) = pinned_keys c"
    "keys_of (emplace_front k v c) (evict_candidate_list c) = candidate_keys c"
    by (rule keys_emplace_front [OF assms], auto)+
  then show "lru_keys (emplace_front k v c) = k # lru_keys c"
    "pinned_keys (emplace_front k v c) = pinned_keys c"
    "candidate_keys (emplace_front k v c) = candidate_keys c"
    by (simp_all add: new_node_def)
qed

lemma lookup_live:
  assumes "lru_inv c" "a \<in> set (live c)"
  shows "PeekIncludingCandidates c (node_key (node c a)) = Some (node_value (node c a))"
  by (simp add: PeekIncludingCandidates_def live_find [OF assms])

lemma last_keys_of: "xs \<noteq> [] \<Longrightarrow> last (keys_of c xs) = node_key (node c (last xs))"
  by (simp add: keys_of_def last_map)

lemma Evict_lists:
  "lru_list c \<noteq> [] \<Longrightarrow> lru_list (snd (Evict c)) = butlast (lru_list c)"
  "lru_list c \<noteq> [] \<Longrightarrow>
   evict_candidate_list (snd (Evict c)) = evict_candidate_list c @ [last (lru_list c)]"
  by (simp_all add: Evict_def Let_def)

lemma Evict_view:
  assumes "lru_list c \<noteq> []"
  shows "lru_keys (snd (Evict c)) = butlast (lru_keys c)"
    "candidate_keys (snd (Evict c)) = candidate_keys c @ [last (lru_keys c)]"
    "pinned_keys (snd (Evict c)) = pinned_keys c"
  using assms by (simp_all add: Evict_lists last_keys_of)

text \<open>
  Property C24. Whatever sequence of operations is applied to an empty cache, the three
  lists partition the live nodes, every location tag names the list its node is in, the
  pin count is positive exactly in the pinned list and never beyond \<open>int\<close>, and \<open>map_\<close> has one entry
  per live node.
\<close>

theorem lru_run_inv: "lru_inv (foldl lru_apply (LRUCache_init cap) ops)"
  by (rule lru_pins.good_run [OF LRUCache_init_inv])

text \<open>
  Property C25. \<open>Put\<close> of a key the cache does not hold: with room it is placed at the MRU end;
  at capacity the LRU entry is returned and demoted to the end of the candidate list, still
  findable with its value; when every entry is pinned nothing changes.
\<close>

theorem put_new_key:
  assumes inv: "lru_inv c" and "k \<notin> set (lru_keys c @ pinned_keys c @ candidate_keys c)"
  shows "(case Put c k v of (r, c') \<Rightarrow>
    if active_size c < capacity c then
      r = None \<and> lru_keys c' = k # lru_keys c \<and> candidate_keys c' = candidate_keys c \<and>
      pinned_keys c' = pinned_keys c \<and>
      PeekIncludingCandidates c' = (PeekIncludingCandidates c)(k \<mapsto> v)
    else if lru_keys c = [] then r = None \<and> c' = c
    else
      r = Some (last (lru_keys c), the (PeekIncludingCandidates c (last (lru_keys c)))) \<and>
      lru_keys c' = k # butlast (lru_keys c) \<and>
      candidate_keys c' = candidate_keys c @ [last (lru_keys c)] \<and>
      pinned_keys c' = pinned_keys c \<and>
      PeekIncludingCandidates c' = (PeekIncludingCandidates c)(k \<mapsto> v))"
proof -
  have new: "map_of (key_map c) k = None" using assms by (simp add: find_iff)
  note view = emplace_front_view [OF inv] emplace_front_view [OF Evict_inv [OF inv]]
    lookup_put_fresh [OF inv] lookup_put_fresh [OF Evict_inv [OF inv]]
  show ?thesis
  proof (cases "active_size c < capacity c \<or> lru_list c = []")
    case True
    then show ?thesis by (auto simp: Put_new [OF new] view simp del: emplace_lists)
  next
    case False
    then have "PeekIncludingCandidates c (last (lru_keys c)) = Some (node_value (node c (last (lru_list c))))"
      using lookup_live [OF inv, of "last (lru_list c)"] by (simp add: last_keys_of)
    then show ?thesis using False Evict_view [of c]
      by (simp add: Put_new [OF new] view last_keys_of del: emplace_lists)
  qed
qed

definition example_cache :: "(string, int) LRUCache" where
  "example_cache = foldl lru_apply (LRUCache_init 3)
     [DoPut ''a'' 1, DoPut ''b'' 2, DoPut ''c'' 3, DoPin ''a'', DoEvict]"

lemma example_cache_inv: "lru_inv example_cache"
  unfolding example_cache_def by (rule lru_pins.good_run [OF LRUCache_init_inv])

theorem put_new_key_witness:
  "lru_keys (snd (Put (snd (Put example_cache ''d'' 4)) ''e'' 5)) = [''e'', ''d''] \<and>
   fst (Put (snd (Put example_cache ''d'' 4)) ''e'' 5) = Some (''c'', 3)"
proof -
  let ?c = "snd (Put example_cache ''d'' 4)"
  have keys: "lru_keys ?c = [''d'', ''c'']" "pinned_keys ?c = [''a'']" "candidate_keys ?c = [''b'']"
    "active_size ?c = 3" "capacity ?c = 3" "PeekIncludingCandidates ?c ''c'' = Some 3" by code_simp+
  have "lru_inv ?c" by (rule Put_inv [OF example_cache_inv])
  from put_new_key [OF this, of "''e''" 5] show ?thesis
    by (simp add: keys split_beta del: keys_of_list)
qed

text \<open>
  \<open>GetEvictableKeys\<close> lists the oldest unpinned keys, eviction candidates first and
  then the active list from its LRU end, and an \<open>Evict\<close> moves the boundary between the two
  parts without changing that order.
\<close>

theorem evictable_keys_order:
  "GetEvictableKeys c n = take n (candidate_keys c @ rev (lru_keys c)) \<and>
   GetEvictableKeys (snd (Evict c)) n = GetEvictableKeys c n"
proof -
  have *: "GetEvictableKeys c n = take n (candidate_keys c @ rev (lru_keys c))" for c :: "('a, 'b) LRUCache"
  proof (cases "n \<le> length (evict_candidate_list c)")
    case True then show ?thesis by (simp add: GetEvictableKeys_def scan_keys_eq Let_def)
  next
    case False
    then have "take n (candidate_keys c) = candidate_keys c" by simp
    then show ?thesis using False by (simp add: GetEvictableKeys_def scan_keys_eq Let_def)
  qed
  show ?thesis
  proof (cases "lru_list c = []")
    case False
    then obtain ks k where ks: "lru_keys c = ks @ [k]"
      by (metis append_butlast_last_id keys_of_list(7))
    show ?thesis unfolding * Evict_view [OF False] ks by simp
  qed (simp add: * Evict_def)
qed

lemma pins_added_count: "sum_list (map (pins_added k) ops) = int (count_list ops (DoPin k))"
proof (induction ops)
  case (Cons op ops)
  then show ?case by (cases op) auto
qed simp

text \<open>
  Property C23. While a key is pinned, no sequence of operations that contains neither an
  \<open>Unpin\<close> of that key nor a \<open>Clear\<close> removes it, makes it an eviction candidate or moves its node.
  Its pin count grows by exactly the number of pins of that key in the sequence, provided the sum
  is within \<open>int\<close>, and the value behind the pointer is the last one the sequence writes to that key,
  or the old one if there is no such write.
\<close>

theorem pinned_entry_stable:
  assumes "lru_inv c" and "PeekMutableIncludingCandidates c k = Some p" and "GetPinCount c k > 0"
    and "list_all (\<lambda>op. \<not> releases k op) ops"
    and "GetPinCount c k + int (count_list ops (DoPin k)) \<le> INT_MAX"
  shows "PeekMutableIncludingCandidates (foldl lru_apply c ops) k = Some p \<and>
    PeekMutable (foldl lru_apply c ops) k = Some p \<and>
    GetPinCount (foldl lru_apply c ops) k = GetPinCount c k + int (count_list ops (DoPin k)) \<and>
    node_value (node (foldl lru_apply c ops) p) = foldl (value_after k) (node_value (node c p)) ops"
proof -
  let ?c = "foldl lru_apply c ops"
  have run: "PeekMutableIncludingCandidates ?c k = Some p \<and>
      GetPinCount ?c k = GetPinCount c k + int (count_list ops (DoPin k)) \<and>
      node_value (node ?c p) = foldl (value_after k) (node_value (node c p)) ops"
    using lru_pins.pinned_run [OF assms(1-4)] assms(5) by (simp add: pins_added_count)
  then have k: "map_of (key_map ?c) k = Some p" by (simp add: PeekMutableIncludingCandidates_def)
  note inv = lru_pins.good_run [OF assms(1), of ops]
  have "pin_count (node ?c p) > 0" using run assms(3) by (simp add: GetPinCount_def k)
  then have "p \<in> set (pinned_list ?c)" using location_cases(4) [OF inv find_live(1) [OF inv k]] by simp
  then have "location (node ?c p) = kPinned" by (rule tags(4) [OF inv])
  then show ?thesis using run by (simp add: PeekMutable_def k)
qed

theorem pinned_entry_stable_witness:
  "PeekMutable
     (foldl lru_apply example_cache [DoErase ''a'', DoPut ''d'' 4, DoPin ''a'', DoEvict, DoPutBack ''a'' 9, DoEvict, DoUnpin ''b'']) ''a'' = Some 0 \<and>
   GetPinCount
     (foldl lru_apply example_cache [DoErase ''a'', DoPut ''d'' 4, DoPin ''a'', DoEvict, DoPutBack ''a'' 9, DoEvict, DoUnpin ''b'']) ''a'' = 2"
proof -
  have "PeekMutableIncludingCandidates example_cache ''a'' = Some 0" "GetPinCount example_cache ''a'' = 1"
    by code_simp+
  then show ?thesis using pinned_entry_stable [OF example_cache_inv, of "''a''" 0
      "[DoErase ''a'', DoPut ''d'' 4, DoPin ''a'', DoEvict, DoPutBack ''a'' 9, DoEvict, DoUnpin ''b'']"] by simp
qed

lemma GetAndPin_unpinned:
  assumes inv: "lru_inv c" and f: "map_of (key_map c) k = Some a"
    and a: "a \<in> set (lru_list c) \<or> a \<in> set (evict_candidate_list c)"
  shows "let c1 = snd (GetAndPin c k) in lru_list c1 = remove1 a (lru_list c) \<and>
    pinned_list c1 = a # pinned_list c \<and> key_map c1 = key_map c \<and>
    evict_candidate_list c1 = remove1 a (evict_candidate_list c) \<and>
    (\<forall>b. node c1 b = (if b = a then pin_one (node c a) else node c b))"
  using a
proof
  assume lru: "a \<in> set (lru_list c)"
  show ?thesis using lists_disjoint(2) [OF inv lru]
    by (simp add: GetAndPin_eqs(1) [OF inv f lru] remove1_idem)
next
  assume cand: "a \<in> set (evict_candidate_list c)"
  show ?thesis using lists_disjoint(3) [OF inv cand]
    by (simp add: GetAndPin_eqs(2) [OF inv f cand] remove1_idem)
qed

lemma put_same: "map_of m a = Some n \<Longrightarrow> put a n m = m"
  by (induction m) auto

lemma pin_unpin_pinned:
  assumes inv: "lru_inv c" and f: "map_of (key_map c) k = Some a" and a: "a \<in> set (pinned_list c)"
    and "pin_count (node c a) < INT_MAX"
  shows "fst (GetAndPin c k) = Inr (Some (node_value (node c a)))" "Unpin (snd (GetAndPin c k)) k = (True, c)"
proof -
  have pin: "GetAndPin c k = (Inr (Some (node_value (node c a))), modify_node (\<lambda>n. n\<lparr>pin_count := pin_count n + 1\<rparr>) a c)"
    (is "_ = (_, ?c1)") using GetAndPin_eqs(3) [OF inv f a] assms(4) by simp
  then show "fst (GetAndPin c k) = Inr (Some (node_value (node c a)))" by simp
  have inv1: "lru_inv ?c1" using GetAndPin_inv [OF inv, of k] by (simp add: pin)
  have "Unpin ?c1 k = (True, modify_node (\<lambda>n. n\<lparr>pin_count := pin_count n - 1\<rparr>) a ?c1)"
    by (rule Unpin_eqs(2) [OF inv1]) (use f a tags(3) [OF inv a] in simp_all)
  also have "modify_node (\<lambda>n. n\<lparr>pin_count := pin_count n - 1\<rparr>) a ?c1 = c"
    unfolding modify_node_modify_node
    using put_same [OF live_node [OF inv find_live(1) [OF inv f]]] by (simp add: modify_node_def)
  finally show "Unpin (snd (GetAndPin c k)) k = (True, c)" by (simp add: pin)
qed

text \<open>
  Property C38. Pinning an entry and dropping that pin. If the entry was unpinned (an eviction
  candidate included), it returns to the active list at the MRU position and the order of all other
  entries stays as it was. If it was pinned already, the cache is as before. In both cases every
  pin count and every stored value is as before. The pin count must be below the largest \<open>int\<close>.
\<close>

theorem pin_unpin_round_trip:
  assumes inv: "lru_inv c" and k: "k \<in> set (lru_keys c @ pinned_keys c @ candidate_keys c)"
    and "GetPinCount c k < INT_MAX"
  shows "let c' = snd (Unpin (snd (GetAndPin c k)) k) in
    fst (GetAndPin c k) = Inr (PeekIncludingCandidates c k) \<and> fst (Unpin (snd (GetAndPin c k)) k) \<and>
    (if GetPinCount c k = 0 then
       lru_keys c' = k # remove1 k (lru_keys c) \<and> candidate_keys c' = remove1 k (candidate_keys c) \<and>
       pinned_keys c' = pinned_keys c
     else c' = c) \<and>
    GetPinCount c' = GetPinCount c \<and> PeekIncludingCandidates c' = PeekIncludingCandidates c"
proof -
  obtain a where f: "map_of (key_map c) k = Some a" using find_iff [OF inv, of k] k by auto
  have live: "a \<in> set (live c)" and ka: "node_key (node c a) = k" using find_live [OF inv f] by simp_all
  have n: "GetPinCount c k = pin_count (node c a)" by (simp add: GetPinCount_def f)
  show ?thesis
  proof (cases "a \<in> set (pinned_list c)")
    case True
    then show ?thesis using pin_unpin_pinned [OF inv f True] assms(3) n tags(3) [OF inv True]
      by (simp add: PeekIncludingCandidates_def f)
  next
    case False
    then have a: "a \<in> set (lru_list c) \<or> a \<in> set (evict_candidate_list c)" using live by simp
    define c1 where "c1 = snd (GetAndPin c k)"
    have inv1: "lru_inv c1" unfolding c1_def by (rule GetAndPin_inv [OF inv])
    have c1: "lru_list c1 = remove1 a (lru_list c)" "pinned_list c1 = a # pinned_list c"
      "evict_candidate_list c1 = remove1 a (evict_candidate_list c)" "key_map c1 = key_map c"
      "node c1 b = (if b = a then pin_one (node c a) else node c b)" for b
      using GetAndPin_unpinned [OF inv f a] by (simp_all add: c1_def Let_def)
    have p: "pin_count (node c a) = 0" using a tags [OF inv] by auto
    have un: "Unpin c1 k = (True, modify_node (\<lambda>n. n\<lparr>pin_count := pin_count n - 1, location := kLru\<rparr>) a
          (c1\<lparr>pinned_list := remove1 a (pinned_list c1), lru_list := a # lru_list c1\<rparr>))"
      by (rule Unpin_eqs(3) [OF inv1]) (simp_all add: c1 f p)
    have "fst (GetAndPin c k) = Inr (Some (node_value (node c a)))"
      using a GetAndPin_eqs(1,2) [OF inv f] by auto
    moreover have "keys_of c (remove1 a (lru_list c)) = remove1 k (lru_keys c)"
      "keys_of c (remove1 a (evict_candidate_list c)) = remove1 k (candidate_keys c)"
      using keys_of_remove1 [OF inv live] ka by auto
    moreover have "keys_of (snd (Unpin c1 k)) xs = keys_of c xs" for xs
      by (simp add: un keys_of_def c1)
    ultimately show ?thesis unfolding c1_def [symmetric] Let_def
      by (auto simp: un c1 ka f p GetPinCount_def PeekIncludingCandidates_def fun_eq_iff split: option.split)
  qed
qed

theorem pin_unpin_round_trip_witness:
  "lru_keys (snd (Unpin (snd (GetAndPin example_cache ''b'')) ''b'')) = [''b'', ''c''] \<and>
   snd (Unpin (snd (GetAndPin example_cache ''a'')) ''a'') = example_cache"
proof -
  have keys: "lru_keys example_cache = [''c'']" "candidate_keys example_cache = [''b'']" "pinned_keys example_cache = [''a'']"
    "GetPinCount example_cache ''a'' = 1" "GetPinCount example_cache ''b'' = 0" by code_simp+
  from pin_unpin_round_trip [OF example_cache_inv, of "''b''"] pin_unpin_round_trip [OF example_cache_inv, of "''a''"]
  show ?thesis by (simp add: keys Let_def del: keys_of_list)
qed

text \<open>
  Property C40. \<open>Put\<close> of an absent key never takes the active lists beyond the larger of the
  capacity and their previous size. \<open>PutBack\<close> adds the entry even when there is nothing to evict,
  so with every entry pinned at capacity it leaves one active entry more than the capacity.
\<close>

theorem active_size_after_insert:
  assumes "map_of (key_map c) k = None"
  shows "active_size (snd (Put c k v)) \<le> max (capacity c) (active_size c) \<and>
    active_size (PutBack c k v) =
      (if active_size c < capacity c \<or> lru_keys c = [] then active_size c + 1 else active_size c)"
proof (cases "lru_list c = []")
  case True
  then have "Evict c = (None, c)" by (simp add: Evict_def)
  then show ?thesis using assms True by (simp add: Put_new PutBack_def active_size_def)
next
  case False
  then have "length (lru_list c) > 0" by simp
  then show ?thesis using assms False
    by (simp add: Put_new PutBack_def active_size_def Evict_lists)
qed

theorem active_size_after_insert_witness:
  "let c = snd (Pin (snd (Put (LRUCache_init 1) ''a'' (1 :: int))) ''a'') in
   active_size (PutBack c ''b'' 2) = 2 \<and> capacity c = 1"
proof -
  let ?c = "snd (Pin (snd (Put (LRUCache_init 1) ''a'' (1 :: int))) ''a'')"
  have "map_of (key_map ?c) ''b'' = None" "lru_keys ?c = []" "active_size ?c = 1" "capacity ?c = 1"
    by code_simp+
  then show ?thesis using active_size_after_insert [of ?c "''b''" 2] by simp
qed

end
