(* ===== verification/PoolLayout.thy ===== *)
theory PoolLayout
  imports Prelude
begin

text \<open>
  \<open>kv_cache/pool_layout.{h,cc}\<close>, first part: region and pool specifications, their
  validation with overflow-checked 64-bit arithmetic, the coverage test on \<open>size_t\<close>
  offsets, the copy extents of a set of blocks, and the protobuf conversion.
  \<open>region_live\<close> is the specification: the set of byte offsets a region declares live.
\<close>

section \<open>Specifications of regions and pools\<close>

record RegionSpec =
  region_name :: string
  offset_bytes :: int
  stride_bytes :: int
  unit_bytes :: int
  num_units :: int
  units_per_stride :: int

record PoolSpec =
  pool_tag :: string
  storage_index :: "64 word"
  base_offset_bytes :: int
  block_stride_bytes :: int
  num_blocks :: int
  regions :: "RegionSpec list"
  dtype_tag :: string

record PoolBlockCopyExtent =
  extent_offset_bytes :: int
  extent_size_bytes :: int

text \<open>The fields are \<open>int64_t\<close>: what their type says.\<close>

definition region_int64 :: "RegionSpec \<Rightarrow> bool" where
  "region_int64 r \<longleftrightarrow> is_int64 (offset_bytes r) \<and> is_int64 (stride_bytes r) \<and>
     is_int64 (unit_bytes r) \<and> is_int64 (num_units r) \<and> is_int64 (units_per_stride r)"

definition pool_int64 :: "PoolSpec \<Rightarrow> bool" where
  "pool_int64 p \<longleftrightarrow> is_int64 (base_offset_bytes p) \<and> is_int64 (block_stride_bytes p) \<and>
     is_int64 (num_blocks p) \<and> list_all region_int64 (regions p)"

section \<open>Checked arithmetic\<close>

definition MulWillOverflow :: "int \<Rightarrow> int \<Rightarrow> bool" where
  "MulWillOverflow lhs rhs =
     (if lhs = 0 \<or> rhs = 0 then False else lhs > INT64_MAX sdiv rhs)"

definition CheckedMul :: "int \<Rightarrow> int \<Rightarrow> string \<Rightarrow> int status_or" where
  "CheckedMul lhs rhs field_name =
     (if lhs < 0 \<or> rhs < 0 then InvalidArgumentError (field_name @ '' operands must be non-negative'')
      else if MulWillOverflow lhs rhs then InvalidArgumentError (field_name @ '' overflows int64'')
      else mul64 lhs rhs)"

definition CheckedAdd :: "int \<Rightarrow> int \<Rightarrow> string \<Rightarrow> int status_or" where
  "CheckedAdd lhs rhs field_name =
     (if lhs < 0 \<or> rhs < 0 then InvalidArgumentError (field_name @ '' operands must be non-negative'')
      else if lhs > INT64_MAX - rhs then InvalidArgumentError (field_name @ '' overflows int64'')
      else add64 lhs rhs)"

section \<open>Regions\<close>

definition live_bytes :: "RegionSpec \<Rightarrow> int status_or" where
  "live_bytes r =
     (if MulWillOverflow (unit_bytes r) (num_units r) then Inr INT64_MAX
      else and_then (mul64 (unit_bytes r) (num_units r)) (\<lambda>unit_total.
        if MulWillOverflow unit_total (units_per_stride r) then Inr INT64_MAX
        else mul64 unit_total (units_per_stride r)))"

definition extent_end_bytes :: "RegionSpec \<Rightarrow> int status_or" where
  "extent_end_bytes r =
     (if num_units r = 0 then Inr (offset_bytes r)
      else if num_units r < 0 \<or> stride_bytes r < 0 \<or> unit_bytes r < 0 \<or>
              units_per_stride r < 0 \<or> offset_bytes r < 0 then Inr INT64_MAX
      else if MulWillOverflow (num_units r - 1) (stride_bytes r) then Inr INT64_MAX
      else and_then (mul64 (num_units r - 1) (stride_bytes r)) (\<lambda>strided_offset.
        if MulWillOverflow (units_per_stride r) (unit_bytes r) then Inr INT64_MAX
        else and_then (mul64 (units_per_stride r) (unit_bytes r)) (\<lambda>packed_bytes.
          if offset_bytes r > INT64_MAX - strided_offset then Inr INT64_MAX
          else and_then (add64 (offset_bytes r) strided_offset) (\<lambda>start.
            if start > INT64_MAX - packed_bytes then Inr INT64_MAX
            else add64 start packed_bytes))))"

definition region_error :: "RegionSpec \<Rightarrow> string \<Rightarrow> 'a status_or" where
  "region_error r what = InvalidArgumentError (''region '' @ region_name r @ what)"

definition region_extent_check :: "RegionSpec \<Rightarrow> int \<Rightarrow> status" where
  "region_extent_check r slot_bytes =
     and_then (CheckedMul (units_per_stride r) (unit_bytes r)
                 (''region '' @ region_name r @ '' packed unit bytes'')) (\<lambda>packed_bytes.
     if num_units r > 0 \<and> stride_bytes r < packed_bytes then
       region_error r '' stride_bytes is smaller than packed units''
     else
     and_then (CheckedMul (if num_units r > 0 then num_units r - 1 else 0) (stride_bytes r)
                 (''region '' @ region_name r @ '' stride extent'')) (\<lambda>stride_extent.
     and_then (CheckedAdd (offset_bytes r) stride_extent
                 (''region '' @ region_name r @ '' extent start'')) (\<lambda>extent_start.
     and_then (CheckedAdd extent_start packed_bytes
                 (''region '' @ region_name r @ '' extent end'')) (\<lambda>extent_end.
     if extent_end > slot_bytes then
       region_error r ('' exceeds slot bytes: end='' @ dec extent_end @ '' slot='' @ dec slot_bytes)
     else OkStatus))))"

definition RegionSpec_Validate :: "RegionSpec \<Rightarrow> int \<Rightarrow> status" where
  "RegionSpec_Validate r slot_bytes =
     (if region_name r = [] then InvalidArgumentError ''region name must be non-empty''
      else if slot_bytes \<le> 0 then InvalidArgumentError ''slot_bytes must be positive''
      else if offset_bytes r < 0 then region_error r '' offset_bytes must be >= 0''
      else if stride_bytes r < 0 then region_error r '' stride_bytes must be >= 0''
      else if unit_bytes r < 0 then region_error r '' unit_bytes must be >= 0''
      else if num_units r < 0 then region_error r '' num_units must be >= 0''
      else if units_per_stride r \<le> 0 then region_error r '' units_per_stride must be positive''
      else if num_units r > 0 \<and> unit_bytes r \<le> 0 then region_error r '' unit_bytes must be positive''
      else if num_units r > 1 \<and> stride_bytes r \<le> 0 then region_error r '' stride_bytes must be positive''
      else region_extent_check r slot_bytes)"

section \<open>Pools\<close>

definition storage_extent_end_bytes :: "PoolSpec \<Rightarrow> int status_or" where
  "storage_extent_end_bytes p =
     (if base_offset_bytes p < 0 \<or> block_stride_bytes p < 0 \<or> num_blocks p \<le> 0 then Inr INT64_MAX
      else if MulWillOverflow (num_blocks p - 1) (block_stride_bytes p) then Inr INT64_MAX
      else and_then (mul64 (num_blocks p - 1) (block_stride_bytes p)) (\<lambda>block_offset.
        and_then (foldM (\<lambda>m r. and_then (extent_end_bytes r) (\<lambda>e. Inr (max m e))) 0 (regions p))
          (\<lambda>block_live_end.
            if base_offset_bytes p > INT64_MAX - block_offset then Inr INT64_MAX
            else and_then (add64 (base_offset_bytes p) block_offset) (\<lambda>last_block.
              if block_live_end < 0 \<or> last_block > INT64_MAX - block_live_end then Inr INT64_MAX
              else add64 last_block block_live_end))))"

definition pool_error :: "PoolSpec \<Rightarrow> string \<Rightarrow> 'a status_or" where
  "pool_error p what = InvalidArgumentError (''pool '' @ pool_tag p @ what)"

definition validate_region_of :: "PoolSpec \<Rightarrow> RegionSpec \<Rightarrow> status" where
  "validate_region_of p r =
     (case RegionSpec_Validate r (block_stride_bytes p) of
        Inl e \<Rightarrow> pool_error p ('': '' @ err_message e)
      | Inr _ \<Rightarrow> OkStatus)"

definition PoolSpec_Validate :: "PoolSpec \<Rightarrow> int \<Rightarrow> status" where
  "PoolSpec_Validate p storage_bytes =
     (if pool_tag p = [] then InvalidArgumentError ''pool tag must be non-empty''
      else if block_stride_bytes p \<le> 0 then pool_error p '' block_stride_bytes must be positive''
      else if num_blocks p \<le> 0 then pool_error p '' num_blocks must be positive''
      else if base_offset_bytes p < 0 then pool_error p '' base_offset_bytes must be >= 0''
      else if regions p = [] then pool_error p '' must contain at least one region''
      else and_then (check_each (validate_region_of p) (regions p)) (\<lambda>_.
        if storage_bytes \<ge> 0 then
          and_then (storage_extent_end_bytes p) (\<lambda>live_end.
            if live_end = INT64_MAX then pool_error p '' live storage extent overflows int64''
            else if live_end > storage_bytes then
              pool_error p ('' exceeds storage bytes (live regions): end='' @ dec live_end @
                '' storage='' @ dec storage_bytes)
            else OkStatus)
        else OkStatus))"

section \<open>Coverage of a byte range\<close>

text \<open>\<open>size_t\<close> arithmetic; the result is \<open>covered_end\<close> when the function returns true.\<close>

definition RegionCoversOffset :: "RegionSpec \<Rightarrow> 64 word \<Rightarrow> 64 word option" where
  "RegionCoversOffset r offset =
     (if num_units r \<le> 0 then None
      else
        let region_offset = word_of_int (offset_bytes r);
            stride = word_of_int (stride_bytes r);
            packed_bytes = word_of_int (unit_bytes r) * word_of_int (units_per_stride r);
            units = word_of_int (num_units r) :: 64 word
        in
        if offset < region_offset \<or> packed_bytes = 0 then None
        else if units > 1 \<and> stride = 0 then None
        else
          let unit_idx = (if units > 1 then (offset - region_offset) div stride else 0)
          in
          if units > 1 \<and> unit_idx \<ge> units then None
          else
            let segment_start = region_offset + unit_idx * stride;
                segment_end = segment_start + packed_bytes
            in
            if offset < segment_start \<or> offset \<ge> segment_end then None
            else Some segment_end)"

definition next_cursor :: "RegionSpec list \<Rightarrow> 64 word \<Rightarrow> 64 word \<Rightarrow> 64 word" where
  "next_cursor rs cursor stop =
     fold (\<lambda>r nxt. case RegionCoversOffset r cursor of
             None \<Rightarrow> nxt
           | Some covered_end \<Rightarrow> max nxt (min covered_end stop)) rs cursor"

lemma next_cursor_step: "cursor \<le> next_cursor rs cursor stop"
proof -
  have "n \<le> fold (\<lambda>r nxt. case RegionCoversOffset r cursor of
             None \<Rightarrow> nxt | Some covered_end \<Rightarrow> max nxt (min covered_end stop)) rs n" for n
    by (induction rs arbitrary: n) (auto intro: order_trans [OF max.cobounded1] split: option.splits)
  then show ?thesis by (simp add: next_cursor_def)
qed

function RegionsCoverRange :: "RegionSpec list \<Rightarrow> 64 word \<Rightarrow> 64 word \<Rightarrow> bool" where
  "RegionsCoverRange rs cursor stop =
     (if cursor < stop then
        let nxt = next_cursor rs cursor stop in
        if nxt = cursor then False else RegionsCoverRange rs nxt stop
      else True)"
  by pat_completeness auto
termination
proof (relation "measure (\<lambda>(rs, cursor, stop). unat stop - unat cursor)")
  fix rs :: "RegionSpec list" and cursor stop nxt :: "64 word"
  assume "cursor < stop" "nxt = next_cursor rs cursor stop" "nxt \<noteq> cursor"
  moreover from this next_cursor_step [of cursor rs stop] have "cursor < nxt" by simp
  ultimately show "((rs, nxt, stop), rs, cursor, stop) \<in> measure (\<lambda>(rs, cursor, stop). unat stop - unat cursor)"
    by (simp add: word_less_nat_alt)
qed simp

declare RegionsCoverRange.simps [simp del]

section \<open>Copy extents\<close>

definition region_field :: "PoolSpec \<Rightarrow> RegionSpec \<Rightarrow> string \<Rightarrow> string" where
  "region_field p r what = ''pool '' @ pool_tag p @ '' region '' @ region_name r @ what"

definition unit_extent ::
  "PoolSpec \<Rightarrow> RegionSpec \<Rightarrow> int \<Rightarrow> int \<Rightarrow> PoolBlockCopyExtent list \<Rightarrow> int \<Rightarrow>
   PoolBlockCopyExtent list status_or" where
  "unit_extent p r block_base packed_bytes extents u =
     and_then (CheckedMul u (stride_bytes r) (region_field p r '' unit offset'')) (\<lambda>unit_delta.
     and_then (CheckedAdd block_base (offset_bytes r) (region_field p r '' base'')) (\<lambda>region_base.
     and_then (CheckedAdd region_base unit_delta (region_field p r '' unit address'')) (\<lambda>offset.
     Inr (extents @ [\<lparr>extent_offset_bytes = offset, extent_size_bytes = packed_bytes\<rparr>]))))"

definition region_extents ::
  "PoolSpec \<Rightarrow> int \<Rightarrow> PoolBlockCopyExtent list \<Rightarrow> RegionSpec \<Rightarrow> PoolBlockCopyExtent list status_or" where
  "region_extents p block_base extents r =
     and_then (CheckedMul (unit_bytes r) (units_per_stride r) (region_field p r '' packed bytes'')) (\<lambda>packed_bytes.
     if num_units r = 0 \<or> packed_bytes = 0 then Inr extents
     else if stride_bytes r = packed_bytes then
       and_then (CheckedMul (num_units r) packed_bytes (region_field p r '' live bytes'')) (\<lambda>region_bytes.
       and_then (CheckedAdd block_base (offset_bytes r) (region_field p r '' offset'')) (\<lambda>offset.
       Inr (extents @ [\<lparr>extent_offset_bytes = offset, extent_size_bytes = region_bytes\<rparr>])))
     else foldM (unit_extent p r block_base packed_bytes) extents [0..num_units r - 1])"

definition block_extents ::
  "PoolSpec \<Rightarrow> PoolBlockCopyExtent list \<Rightarrow> int \<Rightarrow> PoolBlockCopyExtent list status_or" where
  "block_extents p extents block_id =
     (if block_id < 0 \<or> block_id \<ge> num_blocks p then
        OutOfRangeError (''pool '' @ pool_tag p @ '' block_id '' @ dec block_id @
          '' out of range [0, '' @ dec (num_blocks p) @ '')'')
      else
        and_then (CheckedMul block_id (block_stride_bytes p) (''pool '' @ pool_tag p @ '' block offset'')) (\<lambda>block_delta.
        and_then (CheckedAdd (base_offset_bytes p) block_delta (''pool '' @ pool_tag p @ '' block base'')) (\<lambda>block_base.
        foldM (region_extents p block_base) extents (regions p))))"

definition merge_extent ::
  "PoolSpec \<Rightarrow> PoolBlockCopyExtent list \<Rightarrow> PoolBlockCopyExtent \<Rightarrow> PoolBlockCopyExtent list status_or" where
  "merge_extent p merged extent =
     and_then (CheckedAdd (extent_offset_bytes extent) (extent_size_bytes extent)
                 (''pool '' @ pool_tag p @ '' copy extent end'')) (\<lambda>extent_end.
     if merged = [] then Inr (merged @ [extent])
     else
       let previous = last merged in
       and_then (CheckedAdd (extent_offset_bytes previous) (extent_size_bytes previous)
                   (''pool '' @ pool_tag p @ '' previous copy extent end'')) (\<lambda>previous_end.
       if extent_offset_bytes extent > previous_end then Inr (merged @ [extent])
       else
         and_then (sub64 (max previous_end extent_end) (extent_offset_bytes previous)) (\<lambda>sz.
         Inr (butlast merged @ [previous\<lparr>extent_size_bytes := sz\<rparr>]))))"

definition ComputePoolBlockCopyExtents :: "PoolSpec \<Rightarrow> int list \<Rightarrow> PoolBlockCopyExtent list status_or" where
  "ComputePoolBlockCopyExtents p block_ids =
     and_then (foldM (block_extents p) [] block_ids) (\<lambda>extents.
     foldM (merge_extent p) []
       (sort_key (\<lambda>e. (extent_offset_bytes e, extent_size_bytes e)) extents))"

section \<open>Protobuf conversion\<close>

record RegionSpecProto =
  name_pb :: string
  offset_bytes_pb :: int
  stride_bytes_pb :: int
  unit_bytes_pb :: int
  num_units_pb :: int
  units_per_stride_pb :: int

record PoolSpecProto =
  tag_pb :: string
  storage_index_pb :: int
  base_offset_bytes_pb :: int
  block_stride_bytes_pb :: int
  num_blocks_pb :: int
  regions_pb :: "RegionSpecProto list"
  dtype_tag_pb :: string

definition RegionSpec_ToProto :: "RegionSpec \<Rightarrow> RegionSpecProto" where
  "RegionSpec_ToProto r =
     \<lparr>name_pb = region_name r, offset_bytes_pb = offset_bytes r, stride_bytes_pb = stride_bytes r,
      unit_bytes_pb = unit_bytes r, num_units_pb = num_units r, units_per_stride_pb = units_per_stride r\<rparr>"

definition RegionSpecFromProto :: "RegionSpecProto \<Rightarrow> RegionSpec status_or" where
  "RegionSpecFromProto q = Inr
     \<lparr>region_name = name_pb q, offset_bytes = offset_bytes_pb q, stride_bytes = stride_bytes_pb q,
      unit_bytes = unit_bytes_pb q, num_units = num_units_pb q, units_per_stride = units_per_stride_pb q\<rparr>"

definition PoolSpec_ToProto :: "PoolSpec \<Rightarrow> PoolSpecProto" where
  "PoolSpec_ToProto p =
     \<lparr>tag_pb = pool_tag p, storage_index_pb = sint (storage_index p),
      base_offset_bytes_pb = base_offset_bytes p, block_stride_bytes_pb = block_stride_bytes p,
      num_blocks_pb = num_blocks p, regions_pb = map RegionSpec_ToProto (regions p),
      dtype_tag_pb = dtype_tag p\<rparr>"

definition PoolSpecFromProto :: "PoolSpecProto \<Rightarrow> PoolSpec status_or" where
  "PoolSpecFromProto q =
     (if storage_index_pb q < 0 then InvalidArgumentError ''storage_index must be non-negative''
      else
        and_then (foldM (\<lambda>rs rq. and_then (RegionSpecFromProto rq) (\<lambda>r. Inr (rs @ [r]))) [] (regions_pb q)) (\<lambda>rs.
        Inr \<lparr>pool_tag = tag_pb q, storage_index = word_of_int (storage_index_pb q),
             base_offset_bytes = base_offset_bytes_pb q, block_stride_bytes = block_stride_bytes_pb q,
             num_blocks = num_blocks_pb q, regions = rs, dtype_tag = dtype_tag_pb q\<rparr>))"

section \<open>Specification: the live bytes of a region\<close>

definition packed :: "RegionSpec \<Rightarrow> int" where
  "packed r = unit_bytes r * units_per_stride r"

lemma packed_nonneg: "0 \<le> unit_bytes r \<Longrightarrow> 0 < units_per_stride r \<Longrightarrow> 0 \<le> packed r"
  by (simp add: packed_def)

lemma packed_pos: "0 < unit_bytes r \<Longrightarrow> 0 < units_per_stride r \<Longrightarrow> 0 < packed r"
  by (simp add: packed_def)

definition region_live :: "RegionSpec \<Rightarrow> int set" where
  "region_live r = {x. \<exists>u. 0 \<le> u \<and> u < num_units r \<and>
     offset_bytes r + u * stride_bytes r \<le> x \<and> x < offset_bytes r + u * stride_bytes r + packed r}"

section \<open>Checked arithmetic is exact\<close>

lemma less_div_iff: "0 < b \<Longrightarrow> n div b < a \<longleftrightarrow> n < a * b" for a b n :: int
proof
  assume b: "0 < b"
  have n: "n = n div b * b + n mod b" and m: "0 \<le> n mod b" "n mod b < b" using b by simp_all
  show "n < a * b" if "n div b < a"
  proof -
    have "(n div b + 1) * b \<le> a * b" using that b by (intro mult_right_mono) auto
    then have "n div b * b + b \<le> a * b" by (simp add: distrib_right)
    then show ?thesis using n m by linarith
  qed
  show "n div b < a" if "n < a * b"
  proof (rule ccontr)
    assume "\<not> n div b < a"
    then have "a * b \<le> n div b * b" using b by (intro mult_right_mono) auto
    then show False using n m that by linarith
  qed
qed

lemma MulWillOverflow_iff:
  assumes "0 \<le> a" "0 \<le> b"
  shows "MulWillOverflow a b \<longleftrightarrow> a * b > INT64_MAX"
proof (cases "a = 0 \<or> b = 0")
  case True then show ?thesis by (auto simp: MulWillOverflow_def INT64_MAX_def)
next
  case False
  then have b: "b > 0" using assms by simp
  then have "INT64_MAX sdiv b = INT64_MAX div b"
    by (simp add: signed_divide_int_def INT64_MAX_def)
  then show ?thesis using False less_div_iff [OF b] by (simp add: MulWillOverflow_def)
qed

lemma nonneg_int64: "0 \<le> x \<Longrightarrow> is_int64 x \<longleftrightarrow> x \<le> INT64_MAX"
  by (simp add: is_int64_def INT64_MIN_def)

lemma CheckedMul_eq:
  "CheckedMul a b f =
     (if a < 0 \<or> b < 0 then InvalidArgumentError (f @ '' operands must be non-negative'')
      else if a * b > INT64_MAX then InvalidArgumentError (f @ '' overflows int64'')
      else Inr (a * b))"
  by (auto simp: CheckedMul_def MulWillOverflow_iff mul64_def nonneg_int64)

lemma CheckedAdd_eq:
  "CheckedAdd a b f =
     (if a < 0 \<or> b < 0 then InvalidArgumentError (f @ '' operands must be non-negative'')
      else if a + b > INT64_MAX then InvalidArgumentError (f @ '' overflows int64'')
      else Inr (a + b))"
  by (auto simp: CheckedAdd_def add64_def nonneg_int64)

lemma CheckedMul_Inr [status_simps]:
  "CheckedMul a b f = Inr c \<longleftrightarrow> 0 \<le> a \<and> 0 \<le> b \<and> a * b \<le> INT64_MAX \<and> c = a * b"
  by (auto simp: CheckedMul_eq)

lemma CheckedAdd_Inr [status_simps]:
  "CheckedAdd a b f = Inr c \<longleftrightarrow> 0 \<le> a \<and> 0 \<le> b \<and> a + b \<le> INT64_MAX \<and> c = a + b"
  by (auto simp: CheckedAdd_eq)

section \<open>Validation\<close>

text \<open>What an accepted region satisfies, over unbounded integers.\<close>

definition last_unit :: "RegionSpec \<Rightarrow> int" where
  "last_unit r = (if num_units r > 0 then (num_units r - 1) * stride_bytes r else 0)"

definition region_ok :: "RegionSpec \<Rightarrow> int \<Rightarrow> bool" where
  "region_ok r slot \<longleftrightarrow> region_name r \<noteq> [] \<and> 0 < slot \<and> 0 \<le> offset_bytes r \<and> 0 \<le> stride_bytes r \<and>
     0 \<le> unit_bytes r \<and> 0 \<le> num_units r \<and> 0 < units_per_stride r \<and>
     (num_units r > 0 \<longrightarrow> unit_bytes r > 0 \<and> packed r \<le> stride_bytes r) \<and>
     offset_bytes r + last_unit r + packed r \<le> min slot INT64_MAX"

lemma region_extent_check_iff:
  assumes "0 \<le> offset_bytes r" "0 \<le> stride_bytes r" "0 \<le> unit_bytes r" "0 \<le> num_units r"
    "0 < units_per_stride r"
  shows "region_extent_check r slot = OkStatus \<longleftrightarrow>
     \<not> (num_units r > 0 \<and> stride_bytes r < packed r) \<and>
     offset_bytes r + last_unit r + packed r \<le> min slot INT64_MAX"
proof -
  have u: "(if num_units r > 0 then num_units r - 1 else 0) * stride_bytes r = last_unit r"
    by (simp add: last_unit_def)
  have p: "0 \<le> packed r" "units_per_stride r * unit_bytes r = packed r"
    using assms by (simp_all add: packed_nonneg packed_def)
  have l: "0 \<le> last_unit r" using assms by (simp add: last_unit_def)
  show ?thesis
    unfolding region_extent_check_def region_error_def CheckedMul_eq CheckedAdd_eq u p(2)
    using assms p(1) l by (auto simp: and_then_def)
qed

lemma region_Validate_iff: "RegionSpec_Validate r slot = OkStatus \<longleftrightarrow> region_ok r slot"
proof (cases "0 \<le> offset_bytes r \<and> 0 \<le> stride_bytes r \<and> 0 \<le> unit_bytes r \<and> 0 \<le> num_units r \<and>
    0 < units_per_stride r")
  case True
  have "0 < packed r" if "0 < unit_bytes r" using that True by (simp add: packed_pos)
  then show ?thesis using True
    unfolding RegionSpec_Validate_def region_ok_def region_error_def
    by (auto simp: region_extent_check_iff)
next
  case False
  then show ?thesis by (auto simp: RegionSpec_Validate_def region_ok_def region_error_def)
qed

lemma region_ok_bounds:
  assumes "region_ok r slot"
  shows "0 \<le> packed r" "0 \<le> last_unit r" "0 \<le> offset_bytes r"
    "offset_bytes r + last_unit r + packed r \<le> slot"
    "offset_bytes r + last_unit r + packed r \<le> INT64_MAX"
  using assms by (auto simp: region_ok_def packed_nonneg last_unit_def)

lemma unit_le_last:
  assumes "region_ok r slot" "0 \<le> u" "u < num_units r"
  shows "0 \<le> u * stride_bytes r" "u * stride_bytes r \<le> last_unit r"
proof -
  have "0 \<le> stride_bytes r" using assms(1) by (simp add: region_ok_def)
  then show "0 \<le> u * stride_bytes r" "u * stride_bytes r \<le> last_unit r"
    using assms(2,3) by (auto simp: last_unit_def intro: mult_right_mono)
qed

lemma region_live_bounds:
  assumes "region_ok r slot" "x \<in> region_live r"
  shows "offset_bytes r \<le> x" "x < offset_bytes r + last_unit r + packed r" "num_units r > 0"
  using assms unit_le_last [OF assms(1)] by (fastforce simp: region_live_def)+

lemma extent_end_ok:
  assumes "region_ok r slot"
  shows "extent_end_bytes r = Inr (if num_units r = 0 then offset_bytes r
           else offset_bytes r + last_unit r + packed r)"
proof (cases "num_units r = 0")
  case False
  have nn: "num_units r > 0" "0 \<le> num_units r - 1" "stride_bytes r \<ge> 0" "unit_bytes r \<ge> 0" "units_per_stride r > 0"
    using assms False by (auto simp: region_ok_def)
  have l: "(num_units r - 1) * stride_bytes r = last_unit r" using nn by (simp add: last_unit_def)
  have p: "units_per_stride r * unit_bytes r = packed r" by (simp add: packed_def)
  note b = region_ok_bounds [OF assms]
  show ?thesis unfolding extent_end_bytes_def
    using nn b by (simp add: MulWillOverflow_iff l p mul64_def add64_def nonneg_int64)
qed (simp add: extent_end_bytes_def)

lemma fold_max_ends:
  assumes "list_all (\<lambda>r. region_ok r slot) rs" "0 \<le> m" "m \<le> INT64_MAX"
  shows "\<exists>M. foldM (\<lambda>m r. and_then (extent_end_bytes r) (\<lambda>e. Inr (max m e))) m rs = Inr M \<and>
    m \<le> M \<and> M \<le> INT64_MAX \<and>
    (\<forall>r\<in>set rs. num_units r > 0 \<longrightarrow> offset_bytes r + last_unit r + packed r \<le> M)"
  using assms
proof (induction rs arbitrary: m)
  case (Cons r rs)
  then have ok: "region_ok r slot" by simp
  let ?e = "if num_units r = 0 then offset_bytes r else offset_bytes r + last_unit r + packed r"
  have "?e \<le> INT64_MAX" using region_ok_bounds [OF ok] by auto
  then obtain M where "foldM (\<lambda>m r. and_then (extent_end_bytes r) (\<lambda>e. Inr (max m e))) (max m ?e) rs = Inr M"
    "max m ?e \<le> M" "M \<le> INT64_MAX"
    "\<forall>r\<in>set rs. num_units r > 0 \<longrightarrow> offset_bytes r + last_unit r + packed r \<le> M"
    using Cons.IH [of "max m ?e"] Cons.prems by fastforce
  then show ?case by (auto simp: extent_end_ok [OF ok])
qed simp

lemma validate_region_of_ok:
  "validate_region_of p r = OkStatus \<longleftrightarrow> region_ok r (block_stride_bytes p)"
  by (simp add: validate_region_of_def pool_error_def region_Validate_iff [symmetric] split: sum.split)

definition pool_ok :: "PoolSpec \<Rightarrow> bool" where
  "pool_ok p \<longleftrightarrow> pool_tag p \<noteq> [] \<and> block_stride_bytes p > 0 \<and> num_blocks p > 0 \<and>
     base_offset_bytes p \<ge> 0 \<and> regions p \<noteq> [] \<and>
     list_all (\<lambda>r. region_ok r (block_stride_bytes p)) (regions p)"

lemma pool_Validate_structure:
  assumes "PoolSpec_Validate p storage = OkStatus"
  shows "pool_ok p" and "storage \<ge> 0 \<Longrightarrow>
    \<exists>e. storage_extent_end_bytes p = Inr e \<and> e \<le> storage \<and> e < INT64_MAX"
  using assms unfolding PoolSpec_Validate_def pool_error_def pool_ok_def
  by (auto simp: status_simps validate_region_of_ok list_all_iff is_int64_def
      storage_extent_end_bytes_def mul64_def add64_def
      split: if_splits)

lemma storage_extent_end_ok:
  assumes ok: "pool_ok p" and e: "storage_extent_end_bytes p = Inr e" "e < INT64_MAX"
  shows "\<exists>M\<ge>0. e = base_offset_bytes p + (num_blocks p - 1) * block_stride_bytes p + M \<and>
    (\<forall>r\<in>set (regions p). num_units r > 0 \<longrightarrow> offset_bytes r + last_unit r + packed r \<le> M)"
proof -
  have nn: "0 \<le> base_offset_bytes p" "0 \<le> num_blocks p - 1" "0 \<le> block_stride_bytes p"
    using ok by (auto simp: pool_ok_def)
  obtain M where M: "foldM (\<lambda>m r. and_then (extent_end_bytes r) (\<lambda>e. Inr (max m e))) 0 (regions p) = Inr M"
      "0 \<le> M" "M \<le> INT64_MAX"
      "\<forall>r\<in>set (regions p). num_units r > 0 \<longrightarrow> offset_bytes r + last_unit r + packed r \<le> M"
    using fold_max_ends [of "block_stride_bytes p" "regions p" 0] ok
    by (auto simp: pool_ok_def INT64_MAX_def)
  define O' where "O' = (num_blocks p - 1) * block_stride_bytes p"
  have O': "0 \<le> O'" using nn by (simp add: O'_def)
  have "e = base_offset_bytes p + O' + M"
    using e nn M(1-3) O' unfolding storage_extent_end_bytes_def
    by (auto simp: MulWillOverflow_iff O'_def [symmetric] mul64_def add64_def nonneg_int64
      split: if_splits)
  then show ?thesis using M(2,4) by (auto simp: O'_def)
qed

lemma block_byte_in_storage:
  assumes v: "PoolSpec_Validate p storage = OkStatus" "storage \<ge> 0"
    and b: "0 \<le> b" "b < num_blocks p" and r: "r \<in> set (regions p)" and x: "x \<in> region_live r"
  shows "0 \<le> base_offset_bytes p + b * block_stride_bytes p + x"
    "base_offset_bytes p + b * block_stride_bytes p + x < storage"
    "base_offset_bytes p + b * block_stride_bytes p + x < INT64_MAX"
proof -
  have ok: "pool_ok p" using pool_Validate_structure(1) [OF v(1)] .
  have rok: "region_ok r (block_stride_bytes p)" using ok r by (auto simp: pool_ok_def list_all_iff)
  note xb = region_live_bounds [OF rok x] region_ok_bounds [OF rok]
  have nn: "0 \<le> base_offset_bytes p" "0 \<le> block_stride_bytes p" using ok by (auto simp: pool_ok_def)
  have s: "0 \<le> b * block_stride_bytes p" "b * block_stride_bytes p \<le> (num_blocks p - 1) * block_stride_bytes p"
    using b nn by (auto intro: mult_right_mono)
  obtain e where e: "storage_extent_end_bytes p = Inr e" "e \<le> storage" "e < INT64_MAX"
    using pool_Validate_structure(2) [OF v] by blast
  obtain M where "e = base_offset_bytes p + (num_blocks p - 1) * block_stride_bytes p + M"
    "offset_bytes r + last_unit r + packed r \<le> M"
    using storage_extent_end_ok [OF ok e(1,3)] r xb(3) by blast
  then show "0 \<le> base_offset_bytes p + b * block_stride_bytes p + x"
    "base_offset_bytes p + b * block_stride_bytes p + x < storage"
    "base_offset_bytes p + b * block_stride_bytes p + x < INT64_MAX" using xb s nn e(2,3) by linarith+
qed

section \<open>Coverage\<close>

text \<open>The unit that contains an offset, when the regions's units do not overlap.\<close>

lemma region_live_iff:
  assumes ok: "region_ok r slot" and n: "num_units r > 0"
  shows "x \<in> region_live r \<longleftrightarrow> offset_bytes r \<le> x \<and>
    (let u = (if num_units r > 1 then (x - offset_bytes r) div stride_bytes r else 0) in
     u < num_units r \<and> x < offset_bytes r + u * stride_bytes r + packed r)"
proof -
  have p: "0 < packed r" "packed r \<le> stride_bytes r"
    using ok n by (auto simp: region_ok_def packed_pos)
  have u_eq: "u = (x - offset_bytes r) div stride_bytes r"
    if "offset_bytes r + u * stride_bytes r \<le> x" "x < offset_bytes r + u * stride_bytes r + packed r" for u
    using that p by (intro int_div_pos_eq [symmetric, where r = "x - offset_bytes r - u * stride_bytes r"])
      (auto simp: algebra_simps)
  let ?u = "(x - offset_bytes r) div stride_bytes r"
  have low: "?u * stride_bytes r \<le> x - offset_bytes r"
    using p by (metis mult.commute mult_div_mod_eq pos_mod_sign le_add_same_cancel1 order_less_le_trans)
  show ?thesis
  proof
    assume "x \<in> region_live r"
    then obtain u where u: "0 \<le> u" "u < num_units r" "offset_bytes r + u * stride_bytes r \<le> x"
      "x < offset_bytes r + u * stride_bytes r + packed r" by (auto simp: region_live_def)
    moreover have "0 \<le> u * stride_bytes r" using u p by simp
    moreover have "(if num_units r > 1 then ?u else 0) = u" using u u_eq [of u] by auto
    ultimately show "offset_bytes r \<le> x \<and> (let u = (if num_units r > 1 then ?u else 0) in
       u < num_units r \<and> x < offset_bytes r + u * stride_bytes r + packed r)"
      by (simp only: Let_def simp_thms)
  next
    assume a: "offset_bytes r \<le> x \<and> (let u = (if num_units r > 1 then ?u else 0) in
       u < num_units r \<and> x < offset_bytes r + u * stride_bytes r + packed r)"
    have "0 \<le> ?u" using a p by (auto simp: pos_imp_zdiv_nonneg_iff)
    then show "x \<in> region_live r"
      using a low n unfolding region_live_def Let_def
      by (cases "num_units r > 1") (auto intro: exI [of _ ?u] exI [of _ 0])
  qed
qed

text \<open>\<open>size_t\<close> values that come from small non-negative integers compute as integers.\<close>

abbreviation size_t :: "int \<Rightarrow> 64 word" where
  "size_t \<equiv> word_of_int"

definition fits :: "int \<Rightarrow> bool" where
  "fits k \<longleftrightarrow> 0 \<le> k \<and> k < 2 ^ 64"

lemma uint_size_t: "fits k \<Longrightarrow> uint (size_t k) = k"
  by (simp add: fits_def uint_word_of_int_eq take_bit_int_eq_self)

lemma size_t_cmp:
  assumes "fits a" "fits b"
  shows "size_t a < size_t b \<longleftrightarrow> a < b" "size_t a \<le> size_t b \<longleftrightarrow> a \<le> b" "size_t a = size_t b \<longleftrightarrow> a = b"
  using assms by (simp_all add: word_less_def word_le_def word_uint_eq_iff uint_size_t)

lemma size_t_div: "fits a \<Longrightarrow> fits b \<Longrightarrow> size_t a div size_t b = size_t (a div b)"
  by (metis uint_div_distrib uint_size_t word_of_int_uint)

lemma size_t_uint: "size_t (uint w) = w"
  by simp

lemma fits_uint: "fits (uint (w :: 64 word))"
  using uint_lt2p [of w] by (simp add: fits_def)

lemma fits_int64: "0 \<le> k \<Longrightarrow> k \<le> INT64_MAX \<Longrightarrow> fits k"
  by (simp add: fits_def INT64_MAX_def)

lemma fits_mono: "fits b \<Longrightarrow> 0 \<le> a \<Longrightarrow> a \<le> b \<Longrightarrow> fits a"
  by (simp add: fits_def)

definition unit_of :: "RegionSpec \<Rightarrow> int \<Rightarrow> int" where
  "unit_of r x = (if num_units r > 1 then (x - offset_bytes r) div stride_bytes r else 0)"

definition unit_end :: "RegionSpec \<Rightarrow> int \<Rightarrow> int" where
  "unit_end r x = offset_bytes r + unit_of r x * stride_bytes r + packed r"

lemma unit_of_bounds:
  assumes ok: "region_ok r slot" and n: "num_units r > 0" and x: "offset_bytes r \<le> x"
  shows "0 \<le> unit_of r x" "offset_bytes r + unit_of r x * stride_bytes r \<le> x"
proof -
  have p: "0 < stride_bytes r" using ok n packed_pos [of r] by (auto simp: region_ok_def)
  have "(x - offset_bytes r) div stride_bytes r * stride_bytes r \<le> x - offset_bytes r"
    using p by (metis mult.commute mult_div_mod_eq pos_mod_sign le_add_same_cancel1)
  then show "0 \<le> unit_of r x" "offset_bytes r + unit_of r x * stride_bytes r \<le> x"
    using p x by (auto simp: unit_of_def pos_imp_zdiv_nonneg_iff)
qed

lemma RegionCoversOffset_eq:
  assumes ok: "region_ok r slot" and int64: "region_int64 r"
  shows "RegionCoversOffset r w =
    (if uint w \<in> region_live r then Some (size_t (unit_end r (uint w))) else None)"
proof (cases "num_units r > 0")
  case False
  then show ?thesis by (auto simp: RegionCoversOffset_def region_live_def)
next
  case n: True
  define x where "x = uint w"
  have w: "w = size_t x" by (simp add: x_def)
  note b = region_ok_bounds [OF ok]
  have p: "0 < packed r" using ok n by (auto simp: region_ok_def packed_pos)
  have fx: "fits x" unfolding x_def by (rule fits_uint)
  have fo: "fits (offset_bytes r)" "fits (packed r)" using b by (auto intro!: fits_int64)
  have fs: "fits (stride_bytes r)" "fits (num_units r)"
    using ok int64 by (auto simp: region_ok_def region_int64_def is_int64_def intro!: fits_int64)
  have fc: "fits 0" "fits 1" by (simp_all add: fits_def)
  have pk: "size_t (unit_bytes r) * size_t (units_per_stride r) = size_t (packed r)"
    by (simp add: packed_def)
  have s0: "stride_bytes r \<noteq> 0" using ok n p by (auto simp: region_ok_def)
  show ?thesis
  proof (cases "x < offset_bytes r")
    case True
    then have "x \<notin> region_live r" using region_live_bounds(1) [OF ok] by force
    then show ?thesis using True n
      by (simp add: RegionCoversOffset_def w size_t_cmp fx fo uint_size_t)
  next
    case False
    define u where "u = unit_of r x"
    have u: "0 \<le> u" "offset_bytes r + u * stride_bytes r \<le> x"
      using unit_of_bounds [OF ok n, of x] False by (auto simp: u_def)
    have su: "0 \<le> u * stride_bytes r" using u ok by (simp add: region_ok_def)
    have fd: "fits (x - offset_bytes r)" using fits_mono [OF fx, of "x - offset_bytes r"] False b by simp
    have "u \<le> x" using u(2) b(3) s0 ok mult_left_mono [of 1 "stride_bytes r" u] u(1)
      by (simp add: region_ok_def)
    then have fu: "fits u" using fits_mono [OF fx] u by blast
    have live: "x \<in> region_live r \<longleftrightarrow> u < num_units r \<and> x < unit_end r x"
      using region_live_iff [OF ok n, of x] False by (simp add: u_def unit_of_def unit_end_def Let_def)
    have f1: "fits (offset_bytes r + u * stride_bytes r)" using fits_mono [OF fx] u su b by simp
    define S where "S = offset_bytes r + u * stride_bytes r"
    define E where "E = S + packed r"
    have S: "size_t (offset_bytes r) + size_t u * size_t (stride_bytes r) = size_t S" by (simp add: S_def)
    have E: "size_t S + size_t (packed r) = size_t E" by (simp add: E_def)
    have idx: "(if 1 < num_units r then (size_t x - size_t (offset_bytes r)) div size_t (stride_bytes r) else 0)
        = size_t u"
      using size_t_div [OF fd fs(1)] by (simp add: u_def unit_of_def)
    have g: "\<not> size_t x < size_t (offset_bytes r)" "size_t (packed r) \<noteq> 0" "size_t (stride_bytes r) \<noteq> 0"
      "1 < size_t (num_units r) \<longleftrightarrow> 1 < num_units r" "size_t (num_units r) \<le> size_t u \<longleftrightarrow> num_units r \<le> u"
      "\<not> size_t x < size_t S"
      using size_t_cmp [OF fx fo(1)] size_t_cmp [OF fo(2) fc(1)] size_t_cmp [OF fs(1) fc(1)]
        size_t_cmp [OF fc(2) fs(2)] size_t_cmp [OF fs(2) fu] size_t_cmp [OF fx f1] False p s0 u(2)
      by (simp_all add: S_def del: of_int_add of_int_mult)
    have cov: "RegionCoversOffset r w = (if 1 < num_units r \<and> num_units r \<le> u then None
      else if size_t E \<le> size_t x then None else Some (size_t E))"
      using n unfolding RegionCoversOffset_def Let_def pk w by (simp add: g idx S E)
    show ?thesis
    proof (cases "u < num_units r")
      case True
      have "fits E" unfolding E_def S_def
        using unit_le_last [OF ok u(1) True] b su by (intro fits_int64) auto
      then show ?thesis using True live size_t_cmp(2) [OF \<open>fits E\<close> fx]
        by (simp add: cov x_def [symmetric] unit_end_def S_def E_def u_def del: of_int_add of_int_mult)
    next
      case False
      then have "1 < num_units r" using n by (auto simp: u_def unit_of_def split: if_splits)
      then show ?thesis using False live by (simp add: cov x_def [symmetric])
    qed
  qed
qed

lemma live_run:
  assumes ok: "region_ok r slot" and x: "x \<in> region_live r"
  shows "x < unit_end r x" "unit_end r x \<le> INT64_MAX"
    "x \<le> y \<Longrightarrow> y < unit_end r x \<Longrightarrow> y \<in> region_live r"
proof -
  have n: "num_units r > 0" and o: "offset_bytes r \<le> x" using region_live_bounds [OF ok x] by auto
  have u: "unit_of r x < num_units r" and e: "x < unit_end r x"
    using region_live_iff [OF ok n, of x] x by (simp_all add: unit_of_def unit_end_def Let_def)
  note ub = unit_of_bounds [OF ok n o]
  show "x < unit_end r x" by (rule e)
  show "unit_end r x \<le> INT64_MAX"
    using unit_le_last(2) [OF ok ub(1) u] region_ok_bounds(5) [OF ok] by (simp add: unit_end_def)
  show "y \<in> region_live r" if "x \<le> y" "y < unit_end r x"
    using that ub u by (auto simp: region_live_def unit_end_def intro!: exI [of _ "unit_of r x"])
qed

lemma next_cursor_cases:
  "next_cursor rs c stop = c \<and>
     (\<forall>r\<in>set rs. \<forall>ce. RegionCoversOffset r c = Some ce \<longrightarrow> min ce stop \<le> c) \<or>
   (\<exists>r\<in>set rs. \<exists>ce. RegionCoversOffset r c = Some ce \<and> next_cursor rs c stop = min ce stop \<and>
      c < next_cursor rs c stop)"
proof -
  define f where "f = (\<lambda>r nxt. case RegionCoversOffset r c of
             None \<Rightarrow> nxt | Some covered_end \<Rightarrow> max nxt (min covered_end stop))"
  have "(fold f rs n = n \<and> (\<forall>r\<in>set rs. \<forall>ce. RegionCoversOffset r c = Some ce \<longrightarrow> min ce stop \<le> n)) \<or>
    (\<exists>r\<in>set rs. \<exists>ce. RegionCoversOffset r c = Some ce \<and> fold f rs n = min ce stop \<and> n < fold f rs n)" for n
  proof (induction rs arbitrary: n)
    case (Cons r rs)
    show ?case
    proof (cases "RegionCoversOffset r c")
      case None then show ?thesis using Cons.IH [of n] by (auto simp: f_def)
    next
      case (Some ce)
      then have fr: "f r n = max n (min ce stop)" by (simp add: f_def)
      from Cons.IH [of "max n (min ce stop)"] show ?thesis
      proof (elim disjE conjE bexE exE)
        fix r' ce' assume "r' \<in> set rs" "RegionCoversOffset r' c = Some ce'"
          "fold f rs (max n (min ce stop)) = min ce' stop" "max n (min ce stop) < fold f rs (max n (min ce stop))"
        then show ?thesis by (intro disjI2 bexI [of _ r'] exI [of _ ce']) (simp_all add: fr)
      next
        assume a: "fold f rs (max n (min ce stop)) = max n (min ce stop)"
          "\<forall>r\<in>set rs. \<forall>ce'. RegionCoversOffset r c = Some ce' \<longrightarrow> min ce' stop \<le> max n (min ce stop)"
        show ?thesis
        proof (cases "min ce stop \<le> n")
          case True
          then have "max n (min ce stop) = n" by (rule max_absorb1)
          then show ?thesis using a True Some by (simp add: fr)
        next
          case False
          then have less: "n < min ce stop" by (simp only: not_le)
          then have "max n (min ce stop) = min ce stop" by (intro max_absorb2 less_imp_le)
          then show ?thesis using a(1) less Some by (intro disjI2 bexI [of _ r] exI [of _ ce]) (simp_all add: fr)
        qed
      qed
    qed
  qed simp
  then show ?thesis unfolding next_cursor_def f_def .
qed

lemma RegionsCoverRange_iff:
  assumes "list_all (\<lambda>r. region_ok r slot \<and> region_int64 r) rs"
  shows "RegionsCoverRange rs s e \<longleftrightarrow>
    (\<forall>x. uint s \<le> x \<and> x < uint e \<longrightarrow> (\<exists>r\<in>set rs. x \<in> region_live r))"
  using assms
proof (induction rs s e rule: RegionsCoverRange.induct)
  case (1 rs c e)
  have cov: "RegionCoversOffset r c =
      (if uint c \<in> region_live r then Some (size_t (unit_end r (uint c))) else None)"
    and rok: "region_ok r slot" if "r \<in> set rs" for r
    using that 1(2) RegionCoversOffset_eq [of r slot] by (auto simp: list_all_iff)
  have ue: "uint (size_t (unit_end r (uint c))) = unit_end r (uint c)"
    if "r \<in> set rs" "uint c \<in> region_live r" for r
    using live_run(1,2) [OF rok [OF that(1)] that(2)] uint_ge_0 [of c]
    by (intro uint_size_t fits_int64) linarith+
  show ?case
  proof (cases "c < e")
    case False
    then show ?thesis by (auto simp: RegionsCoverRange.simps [of rs c e] word_less_def)
  next
    case lt: True
    let ?n = "next_cursor rs c e"
    show ?thesis
    proof (cases "?n = c")
      case True
      have "uint c \<notin> region_live r" if r: "r \<in> set rs" for r
      proof
        assume l: "uint c \<in> region_live r"
        have "min (size_t (unit_end r (uint c))) e \<le> c"
          using next_cursor_cases [of rs c e] True cov [OF r] l r by auto
        then show False using lt ue [OF r l] live_run(1) [OF rok [OF r] l]
          by (auto simp: min_def word_le_def word_less_def split: if_splits)
      qed
      moreover have "\<not> RegionsCoverRange rs c e"
        using lt True by (simp add: RegionsCoverRange.simps [of rs c e])
      ultimately show ?thesis using lt by (auto simp: word_less_def)
    next
      case False
      then obtain r where r: "r \<in> set rs" "uint c \<in> region_live r"
        and n: "?n = min (size_t (unit_end r (uint c))) e"
        using next_cursor_cases [of rs c e] cov by (auto split: if_splits)
      have bound: "uint c \<le> uint ?n" "uint ?n \<le> unit_end r (uint c)"
        using next_cursor_step [of c rs e] ue [OF r] n by (auto simp: word_le_def min_def)
      have "\<exists>r\<in>set rs. x \<in> region_live r" if "uint c \<le> x" "x < uint ?n" for x
        using live_run(3) [OF rok [OF r(1)] r(2) that(1)] that bound r(1) by auto
      then have "(\<forall>x. uint c \<le> x \<and> x < uint e \<longrightarrow> (\<exists>r\<in>set rs. x \<in> region_live r)) \<longleftrightarrow>
          (\<forall>x. uint ?n \<le> x \<and> x < uint e \<longrightarrow> (\<exists>r\<in>set rs. x \<in> region_live r))"
        using bound(1) by (meson linorder_not_le order_trans)
      moreover have "RegionsCoverRange rs c e = RegionsCoverRange rs ?n e"
        using lt False by (simp add: RegionsCoverRange.simps [of rs c e])
      ultimately show ?thesis using 1(1) [OF lt refl False 1(2)] by simp
    qed
  qed
qed

section \<open>Copy extents\<close>

definition extent_at :: "int \<Rightarrow> int \<Rightarrow> PoolBlockCopyExtent" where
  "extent_at off sz = \<lparr>extent_offset_bytes = off, extent_size_bytes = sz\<rparr>"

definition extent_bytes :: "PoolBlockCopyExtent \<Rightarrow> int set" where
  "extent_bytes e = {extent_offset_bytes e ..< extent_offset_bytes e + extent_size_bytes e}"

definition region_extent_list :: "int \<Rightarrow> RegionSpec \<Rightarrow> PoolBlockCopyExtent list" where
  "region_extent_list base r =
     (if num_units r = 0 \<or> packed r = 0 then []
      else if stride_bytes r = packed r then [extent_at (base + offset_bytes r) (num_units r * packed r)]
      else map (\<lambda>u. extent_at (base + offset_bytes r + u * stride_bytes r) (packed r)) [0..num_units r - 1])"

lemma unit_extent_Inr:
  "unit_extent p r base pk es u = Inr es' \<longleftrightarrow> 0 \<le> u \<and> 0 \<le> stride_bytes r \<and> u * stride_bytes r \<le> INT64_MAX \<and>
     0 \<le> base \<and> 0 \<le> offset_bytes r \<and> base + offset_bytes r + u * stride_bytes r \<le> INT64_MAX \<and>
     es' = es @ [extent_at (base + offset_bytes r + u * stride_bytes r) pk]"
proof (cases "0 \<le> u \<and> 0 \<le> stride_bytes r")
  case True
  define d where "d = u * stride_bytes r"
  have "0 \<le> d" using True by (simp add: d_def)
  then show ?thesis using True
    by (auto simp: unit_extent_def status_simps extent_at_def d_def [symmetric])
qed (auto simp: unit_extent_def status_simps)

lemma region_extents_Inr:
  assumes "region_extents p base es r = Inr es'"
  shows "es' = es @ region_extent_list base r"
    "0 \<le> packed r" "\<forall>e\<in>set (region_extent_list base r). 0 < extent_size_bytes e"
proof -
  have pk: "0 \<le> packed r" using assms by (auto simp: region_extents_def status_simps packed_def)
  let ?u = "\<lambda>u. [extent_at (base + offset_bytes r + u * stride_bytes r) (packed r)]"
  have units: "es' = es @ concat (map ?u [0..num_units r - 1])"
    if "foldM (unit_extent p r base (packed r)) es [0..num_units r - 1] = Inr es'"
    by (rule foldM_appends [OF that]) (simp add: unit_extent_Inr)
  show "es' = es @ region_extent_list base r"
    using assms units unfolding region_extents_def region_extent_list_def
    by (auto simp: status_simps packed_def [symmetric] extent_at_def concat_map_singleton split: if_splits)
  show "\<forall>e\<in>set (region_extent_list base r). 0 < extent_size_bytes e"
    using assms pk unfolding region_extents_def region_extent_list_def
    by (auto simp: status_simps packed_def [symmetric] extent_at_def mult_le_0_iff not_le [symmetric] split: if_splits)
  show "0 \<le> packed r" by (rule pk)
qed

lemma div_unit:
  fixes x p n :: int
  assumes "0 < p"
  shows "(\<exists>u. 0 \<le> u \<and> u < n \<and> u * p \<le> x \<and> x < u * p + p) \<longleftrightarrow> 0 \<le> x \<and> x < n * p"
proof
  assume "\<exists>u. 0 \<le> u \<and> u < n \<and> u * p \<le> x \<and> x < u * p + p"
  then obtain u where u: "0 \<le> u" "u < n" "u * p \<le> x" "x < u * p + p" by blast
  have "(u + 1) * p \<le> n * p" using u assms by (intro mult_right_mono) auto
  then have "u * p + p \<le> n * p" by (simp add: distrib_right)
  moreover have "0 \<le> u * p" using u assms by simp
  ultimately show "0 \<le> x \<and> x < n * p" using u by linarith
next
  assume x: "0 \<le> x \<and> x < n * p"
  have "x = x div p * p + x mod p" "0 \<le> x mod p" "x mod p < p" using assms by simp_all
  moreover have "0 \<le> x div p" using x assms by (simp add: pos_imp_zdiv_nonneg_iff)
  moreover have "x div p < n" using x assms less_div_iff by blast
  ultimately show "\<exists>u. 0 \<le> u \<and> u < n \<and> u * p \<le> x \<and> x < u * p + p"
    by (intro exI [of _ "x div p"]) linarith
qed

lemma extent_bytes_at: "y \<in> extent_bytes (extent_at off sz) \<longleftrightarrow> off \<le> y \<and> y < off + sz"
  by (simp add: extent_bytes_def extent_at_def)

lemma region_extent_list_bytes:
  assumes "0 \<le> packed r"
  shows "(\<Union>e\<in>set (region_extent_list base r). extent_bytes e) = (\<lambda>x. base + x) ` region_live r"
proof -
  have img: "y \<in> (\<lambda>x. base + x) ` region_live r \<longleftrightarrow> y - base \<in> region_live r" for y
    by (auto intro: image_eqI [of _ _ "y - base"])
  show ?thesis
  proof (cases "packed r = 0 \<or> num_units r = 0")
    case True then show ?thesis by (auto simp: region_extent_list_def region_live_def)
  next
    case False
    then have p: "0 < packed r" using assms by simp
    show ?thesis
    proof (cases "stride_bytes r = packed r")
      case True
      have "y - base \<in> region_live r \<longleftrightarrow>
          (\<exists>u. 0 \<le> u \<and> u < num_units r \<and> u * packed r \<le> y - base - offset_bytes r \<and>
            y - base - offset_bytes r < u * packed r + packed r)" for y
        by (auto simp: region_live_def True)
      then have "y - base \<in> region_live r \<longleftrightarrow> 0 \<le> y - base - offset_bytes r \<and>
          y - base - offset_bytes r < num_units r * packed r" for y
        unfolding div_unit [OF p] .
      then have "y - base \<in> region_live r \<longleftrightarrow>
          y \<in> extent_bytes (extent_at (base + offset_bytes r) (num_units r * packed r))" for y
        unfolding extent_bytes_at by (simp add: algebra_simps)
      moreover have "region_extent_list base r = [extent_at (base + offset_bytes r) (num_units r * packed r)]"
        using False True by (simp add: region_extent_list_def)
      ultimately show ?thesis unfolding set_eq_iff img by simp
    next
      case sparse: False
      have "region_extent_list base r =
          map (\<lambda>u. extent_at (base + offset_bytes r + u * stride_bytes r) (packed r)) [0..num_units r - 1]"
        using False sparse by (simp add: region_extent_list_def)
      then have "y \<in> (\<Union>e\<in>set (region_extent_list base r). extent_bytes e) \<longleftrightarrow>
          (\<exists>u. 0 \<le> u \<and> u < num_units r \<and>
             y \<in> extent_bytes (extent_at (base + offset_bytes r + u * stride_bytes r) (packed r)))" for y
        by auto
      then show ?thesis unfolding set_eq_iff img
        unfolding extent_bytes_at region_live_def mem_Collect_eq by (simp add: algebra_simps)
    qed
  qed
qed

section \<open>Merging sorted extents\<close>

definition separated :: "PoolBlockCopyExtent list \<Rightarrow> bool" where
  "separated es \<longleftrightarrow> sorted_wrt (\<lambda>a b. extent_offset_bytes a + extent_size_bytes a < extent_offset_bytes b) es \<and>
     (\<forall>e\<in>set es. 0 < extent_size_bytes e)"

definition good_extent :: "PoolBlockCopyExtent \<Rightarrow> bool" where
  "good_extent e \<longleftrightarrow> 0 \<le> extent_offset_bytes e \<and> 0 < extent_size_bytes e \<and>
     extent_offset_bytes e + extent_size_bytes e \<le> INT64_MAX"

lemma merge_extent_step:
  assumes "good_extent e" "\<forall>x\<in>set m. good_extent x" "separated m"
    and "m \<noteq> [] \<Longrightarrow> extent_offset_bytes (last m) \<le> extent_offset_bytes e"
  shows "\<exists>m'. merge_extent p m e = Inr m' \<and> m' \<noteq> [] \<and> separated m' \<and> (\<forall>x\<in>set m'. good_extent x) \<and>
    extent_offset_bytes (last m') \<le> extent_offset_bytes e \<and>
    (\<Union>x\<in>set m'. extent_bytes x) = (\<Union>x\<in>set m. extent_bytes x) \<union> extent_bytes e"
proof (cases m rule: rev_cases)
  case Nil
  then show ?thesis using assms(1)
    by (auto simp: merge_extent_def CheckedAdd_eq good_extent_def separated_def)
next
  case (snoc xs l)
  let ?le = "extent_offset_bytes l + extent_size_bytes l"
  let ?ee = "extent_offset_bytes e + extent_size_bytes e"
  have l: "good_extent l" and off: "extent_offset_bytes l \<le> extent_offset_bytes e" using assms snoc by auto
  have add: "CheckedAdd (extent_offset_bytes e) (extent_size_bytes e) f = Inr ?ee"
    "CheckedAdd (extent_offset_bytes l) (extent_size_bytes l) f = Inr ?le" for f
    using l assms(1) by (auto simp: CheckedAdd_eq good_extent_def)
  show ?thesis
  proof (cases "extent_offset_bytes e > ?le")
    case True
    have "separated (m @ [e])"
      using assms(1,3) True snoc by (fastforce simp: separated_def good_extent_def sorted_wrt_append)
    then show ?thesis using True snoc assms(1,2) add by (auto simp: merge_extent_def)
  next
    case False
    define l' where "l' = l\<lparr>extent_size_bytes := max ?le ?ee - extent_offset_bytes l\<rparr>"
    have b: "extent_bytes l' = extent_bytes l \<union> extent_bytes e"
      using False off l assms(1) by (auto simp: l'_def extent_bytes_def good_extent_def)
    have g: "good_extent l'" using l assms(1) by (auto simp: l'_def good_extent_def)
    have "separated (xs @ [l'])"
      using assms(3) g snoc by (auto simp: separated_def good_extent_def l'_def sorted_wrt_append)
    moreover have "merge_extent p m e = Inr (xs @ [l'])"
      using False l assms(1) snoc add
      by (auto simp: merge_extent_def sub64_def l'_def good_extent_def is_int64_def INT64_MIN_def)
    ultimately show ?thesis using b g assms(2) off snoc by (auto simp: l'_def)
  qed
qed

lemma merge_extents:
  assumes "\<forall>x\<in>set es. good_extent x" "\<forall>x\<in>set m. good_extent x" "separated m"
    and "sorted (map extent_offset_bytes es)"
    and "m \<noteq> [] \<Longrightarrow> \<forall>x\<in>set es. extent_offset_bytes (last m) \<le> extent_offset_bytes x"
  shows "\<exists>m'. foldM (merge_extent p) m es = Inr m' \<and> separated m' \<and> (\<forall>x\<in>set m'. good_extent x) \<and>
    (\<Union>x\<in>set m'. extent_bytes x) = (\<Union>x\<in>set m. extent_bytes x) \<union> (\<Union>x\<in>set es. extent_bytes x)"
  using assms
proof (induction es arbitrary: m)
  case (Cons e es)
  obtain m1 where m1: "merge_extent p m e = Inr m1" "m1 \<noteq> []" "separated m1" "\<forall>x\<in>set m1. good_extent x"
      "extent_offset_bytes (last m1) \<le> extent_offset_bytes e"
      "(\<Union>x\<in>set m1. extent_bytes x) = (\<Union>x\<in>set m. extent_bytes x) \<union> extent_bytes e"
    using merge_extent_step [of e m p] Cons.prems by auto
  have "\<forall>x\<in>set es. extent_offset_bytes (last m1) \<le> extent_offset_bytes x"
    using m1(5) Cons.prems(4) by auto
  then obtain m' where "foldM (merge_extent p) m1 es = Inr m'" "separated m'" "\<forall>x\<in>set m'. good_extent x"
      "(\<Union>x\<in>set m'. extent_bytes x) = (\<Union>x\<in>set m1. extent_bytes x) \<union> (\<Union>x\<in>set es. extent_bytes x)"
    using Cons.IH [of m1] m1 Cons.prems by auto
  then show ?case using m1 by auto
qed auto

lemma merge_each:
  assumes "foldM (merge_extent p) m es = Inr m'" "e \<in> set es"
  shows "0 \<le> extent_offset_bytes e" "extent_offset_bytes e + extent_size_bytes e \<le> INT64_MAX"
  using foldM_each [OF assms] by (auto simp: merge_extent_def status_simps)

abbreviation block_base :: "PoolSpec \<Rightarrow> int \<Rightarrow> int" where
  "block_base p b \<equiv> base_offset_bytes p + b * block_stride_bytes p"

lemma block_extents_Inr:
  assumes "block_extents p es b = Inr es'"
  shows "es' = es @ concat (map (region_extent_list (block_base p b)) (regions p))"
    "0 \<le> b" "b < num_blocks p"
    "\<forall>r\<in>set (regions p). 0 \<le> packed r \<and> (\<forall>e\<in>set (region_extent_list (block_base p b) r). 0 < extent_size_bytes e)"
proof -
  show b: "0 \<le> b" "b < num_blocks p" using assms by (auto simp: block_extents_def split: if_splits)
  have f: "foldM (region_extents p (block_base p b)) es (regions p) = Inr es'"
    using assms by (auto simp: block_extents_def status_simps split: if_splits)
  show "es' = es @ concat (map (region_extent_list (block_base p b)) (regions p))"
    by (rule foldM_appends [OF f]) (rule region_extents_Inr(1))
  show "\<forall>r\<in>set (regions p). 0 \<le> packed r \<and>
      (\<forall>e\<in>set (region_extent_list (block_base p b) r). 0 < extent_size_bytes e)"
    using foldM_each [OF f] region_extents_Inr(2,3) by blast
qed

definition all_extents :: "PoolSpec \<Rightarrow> int list \<Rightarrow> PoolBlockCopyExtent list" where
  "all_extents p ids = concat (map (\<lambda>b. concat (map (region_extent_list (block_base p b)) (regions p))) ids)"

text \<open>The declared-live bytes of a block, at their storage offsets.\<close>

definition block_live :: "PoolSpec \<Rightarrow> int \<Rightarrow> int set" where
  "block_live p b = (\<Union>r\<in>set (regions p). (\<lambda>x. block_base p b + x) ` region_live r)"

lemma all_extents_bytes:
  assumes "\<forall>r\<in>set (regions p). 0 \<le> packed r"
  shows "(\<Union>e\<in>set (all_extents p ids). extent_bytes e) = (\<Union>b\<in>set ids. block_live p b)"
  using region_extent_list_bytes assms by (fastforce simp: all_extents_def block_live_def)

lemma sorted_key_offsets:
  "sorted (map extent_offset_bytes (sort_key (\<lambda>e. (extent_offset_bytes e, extent_size_bytes e)) es))"
proof -
  have "sorted (map (\<lambda>e. (extent_offset_bytes e, extent_size_bytes e))
      (sort_key (\<lambda>e. (extent_offset_bytes e, extent_size_bytes e)) es))" by simp
  then show ?thesis
    unfolding sorted_map by (rule sorted_wrt_mono_rel [rotated]) (auto simp: less_eq_prod_def)
qed

lemma merged_sorted:
  assumes "\<forall>x\<in>set es. good_extent x"
  shows "\<exists>m. foldM (merge_extent p) [] (sort_key (\<lambda>e. (extent_offset_bytes e, extent_size_bytes e)) es) = Inr m \<and>
    separated m \<and> (\<forall>x\<in>set m. good_extent x) \<and>
    (\<Union>x\<in>set m. extent_bytes x) = (\<Union>x\<in>set es. extent_bytes x)"
proof -
  have "\<exists>m. foldM (merge_extent p) [] (sort_key (\<lambda>e. (extent_offset_bytes e, extent_size_bytes e)) es) = Inr m \<and>
    separated m \<and> (\<forall>x\<in>set m. good_extent x) \<and> (\<Union>x\<in>set m. extent_bytes x) = (\<Union>x\<in>set []. extent_bytes x) \<union>
      (\<Union>x\<in>set (sort_key (\<lambda>e. (extent_offset_bytes e, extent_size_bytes e)) es). extent_bytes x)"
    by (rule merge_extents) (use assms sorted_key_offsets in \<open>auto simp: separated_def\<close>)
  then show ?thesis by simp
qed

lemma Compute_collect:
  assumes "foldM (block_extents p) [] ids = Inr es"
  shows "es = all_extents p ids" "\<forall>b\<in>set ids. 0 \<le> b \<and> b < num_blocks p"
    "\<forall>e\<in>set es. 0 < extent_size_bytes e" "ids \<noteq> [] \<Longrightarrow> \<forall>r\<in>set (regions p). 0 \<le> packed r"
proof -
  have each: "0 \<le> b \<and> b < num_blocks p \<and> (\<forall>r\<in>set (regions p). 0 \<le> packed r \<and>
      (\<forall>e\<in>set (region_extent_list (block_base p b) r). 0 < extent_size_bytes e))" if "b \<in> set ids" for b
    using foldM_each [OF assms that] block_extents_Inr(2-4) by blast
  have "es = [] @ all_extents p ids" unfolding all_extents_def
    by (rule foldM_appends [OF assms]) (rule block_extents_Inr(1))
  then show "es = all_extents p ids" by simp
  then show "\<forall>e\<in>set es. 0 < extent_size_bytes e" using each by (auto simp: all_extents_def)
  show "\<forall>b\<in>set ids. 0 \<le> b \<and> b < num_blocks p" using each by blast
  show "\<forall>r\<in>set (regions p). 0 \<le> packed r" if "ids \<noteq> []" using each that by (cases ids) auto
qed

section \<open>Properties\<close>

text \<open>
  Property C17. A pool accepted by \<open>PoolSpec::Validate\<close> against a storage of
  \<open>storage_bytes\<close> bytes never addresses a byte outside that storage: every live byte of
  every region of every block lies in \<open>[0, storage_bytes)\<close>.
\<close>

theorem validated_pool_in_bounds:
  assumes "PoolSpec_Validate p storage = OkStatus" "storage \<ge> 0" "0 \<le> b" "b < num_blocks p"
  shows "block_live p b \<subseteq> {0 ..< storage}"
  using block_byte_in_storage [OF assms] by (auto simp: block_live_def)

text \<open>
  Property C18. For regions accepted by validation, \<open>RegionsCoverRange\<close>, which advances a
  cursor over 64-bit unsigned offsets, ends and returns true exactly when every byte of
  \<open>[start, end)\<close> is a live byte of some region.
\<close>

theorem regions_cover_range_exact:
  assumes "list_all (\<lambda>r. RegionSpec_Validate r slot = OkStatus \<and> region_int64 r) rs"
  shows "RegionsCoverRange rs s e \<longleftrightarrow> {uint s ..< uint e} \<subseteq> (\<Union>r\<in>set rs. region_live r)"
proof -
  have "list_all (\<lambda>r. region_ok r slot \<and> region_int64 r) rs"
    using assms by (simp add: region_Validate_iff)
  from RegionsCoverRange_iff [OF this] show ?thesis by (auto simp: subset_iff)
qed

text \<open>
  Property C16. When \<open>ComputePoolBlockCopyExtents\<close> succeeds, its extents are non-empty,
  sorted and pairwise separated by at least one byte (maximally coalesced), and together
  they hold exactly the declared-live bytes of the requested blocks: no padding is copied and
  no live byte is missed.
\<close>

theorem copy_extents_exact:
  assumes "ComputePoolBlockCopyExtents p ids = Inr es"
  shows "separated es \<and> (\<Union>e\<in>set es. extent_bytes e) = (\<Union>b\<in>set ids. block_live p b)"
proof -
  obtain xs where xs: "foldM (block_extents p) [] ids = Inr xs"
    and m: "foldM (merge_extent p) [] (sort_key (\<lambda>e. (extent_offset_bytes e, extent_size_bytes e)) xs) = Inr es"
    using assms by (auto simp: ComputePoolBlockCopyExtents_def and_then_Inr_iff)
  note c = Compute_collect [OF xs]
  have "\<forall>x\<in>set xs. good_extent x" using merge_each [OF m] c(3) by (auto simp: good_extent_def)
  then have "separated es" and u: "(\<Union>e\<in>set es. extent_bytes e) = (\<Union>x\<in>set xs. extent_bytes x)"
    using merged_sorted [of xs p] m by auto
  moreover have "(\<Union>x\<in>set xs. extent_bytes x) = (\<Union>b\<in>set ids. block_live p b)"
    using all_extents_bytes [of p ids] c(1,4) by (cases "ids = []") (simp_all add: all_extents_def)
  ultimately show ?thesis by simp
qed

lemma region_extents_total:
  assumes ok: "region_ok r slot" and b: "0 \<le> base"
    and fit: "num_units r > 0 \<Longrightarrow> base + offset_bytes r + last_unit r + packed r \<le> INT64_MAX"
  shows "region_extents p base es r = Inr (es @ region_extent_list base r)"
proof -
  note bd = region_ok_bounds [OF ok]
  have nn: "0 \<le> unit_bytes r" "0 \<le> units_per_stride r" "0 \<le> num_units r" "0 \<le> stride_bytes r"
    using ok by (auto simp: region_ok_def)
  have pm: "CheckedMul (unit_bytes r) (units_per_stride r) f = Inr (packed r)" for f
    using bd nn by (simp add: CheckedMul_eq packed_def [symmetric])
  show ?thesis
  proof (cases "num_units r = 0 \<or> packed r = 0")
    case False
    then have n: "num_units r > 0" "0 < packed r" using nn bd by auto
    have dense: "num_units r * packed r = last_unit r + packed r" if "stride_bytes r = packed r"
      using n that by (simp add: last_unit_def algebra_simps)
    have units: "foldM (unit_extent p r base (packed r)) es [0..num_units r - 1] = Inr (es @ concat (map
        (\<lambda>u. [extent_at (base + offset_bytes r + u * stride_bytes r) (packed r)]) [0..num_units r - 1]))"
    proof (rule foldM_append_total)
      fix u s assume "u \<in> set [0..num_units r - 1]"
      then have u: "0 \<le> u" "u < num_units r" by auto
      then show "unit_extent p r base (packed r) s u =
          Inr (s @ [extent_at (base + offset_bytes r + u * stride_bytes r) (packed r)])"
        using unit_le_last [OF ok u] fit [OF n(1)] bd nn b unfolding unit_extent_Inr by simp
    qed
    have dm: "CheckedMul (num_units r) (packed r) f = Inr (num_units r * packed r)" if "stride_bytes r = packed r" for f
      using n nn bd dense [OF that] by (simp add: CheckedMul_eq)
    have da: "CheckedAdd base (offset_bytes r) f = Inr (base + offset_bytes r)" for f
      using bd b fit [OF n(1)] by (simp add: CheckedAdd_eq)
    show ?thesis
      using False units unfolding region_extents_def region_extent_list_def
      by (simp add: pm dm da extent_at_def [symmetric] concat_map_singleton)
  qed (simp add: region_extents_def region_extent_list_def pm)
qed

lemma block_extents_total:
  assumes v: "PoolSpec_Validate p storage = OkStatus" "storage \<ge> 0" and b: "0 \<le> b" "b < num_blocks p"
  shows "block_extents p es b = Inr (es @ concat (map (region_extent_list (block_base p b)) (regions p)))"
proof -
  have ok: "pool_ok p" using pool_Validate_structure(1) [OF v(1)] .
  have nn: "0 \<le> base_offset_bytes p" "0 \<le> block_stride_bytes p" using ok by (auto simp: pool_ok_def)
  have s: "0 \<le> b * block_stride_bytes p" "b * block_stride_bytes p \<le> (num_blocks p - 1) * block_stride_bytes p"
    using b nn by (auto intro: mult_right_mono)
  obtain e where e: "storage_extent_end_bytes p = Inr e" "e < INT64_MAX"
    using pool_Validate_structure(2) [OF v] by blast
  obtain M where M: "0 \<le> M" "e = base_offset_bytes p + (num_blocks p - 1) * block_stride_bytes p + M"
    "\<forall>r\<in>set (regions p). num_units r > 0 \<longrightarrow> offset_bytes r + last_unit r + packed r \<le> M"
    using storage_extent_end_ok [OF ok e] by blast
  have cm: "CheckedMul b (block_stride_bytes p) f = Inr (b * block_stride_bytes p)" for f
    using s b nn M(1,2) e(2) by (simp add: CheckedMul_eq)
  have ca: "CheckedAdd (base_offset_bytes p) (b * block_stride_bytes p) f = Inr (block_base p b)" for f
  proof -
    have "\<not> (base_offset_bytes p < 0 \<or> b * block_stride_bytes p < 0)" "\<not> INT64_MAX < block_base p b"
      using s nn M(1,2) e(2) by linarith+
    then show ?thesis by (simp only: CheckedAdd_eq if_False)
  qed
  have "foldM (region_extents p (block_base p b)) es (regions p) =
      Inr (es @ concat (map (region_extent_list (block_base p b)) (regions p)))"
  proof (rule foldM_append_total)
    fix r t assume r: "r \<in> set (regions p)"
    then have rok: "region_ok r (block_stride_bytes p)" using ok by (auto simp: pool_ok_def list_all_iff)
    show "region_extents p (block_base p b) t r = Inr (t @ region_extent_list (block_base p b) r)"
      by (rule region_extents_total [OF rok]) (use s nn M e(2) r in fastforce)+
  qed
  then show ?thesis using b by (simp add: block_extents_def cm ca)
qed

lemma region_extent_sizes:
  assumes "region_ok r slot" "e \<in> set (region_extent_list base r)"
  shows "0 < extent_size_bytes e"
proof -
  have "0 < packed r" if "num_units r > 0"
    using assms(1) that by (auto simp: region_ok_def packed_pos)
  then show ?thesis using assms by (auto simp: region_extent_list_def extent_at_def region_ok_def split: if_splits)
qed

lemma extent_within:
  assumes "0 < extent_size_bytes e" "extent_bytes e \<subseteq> {0 ..< INT64_MAX}"
  shows "good_extent e"
proof -
  have "extent_offset_bytes e \<in> extent_bytes e" "extent_offset_bytes e + extent_size_bytes e - 1 \<in> extent_bytes e"
    using assms(1) by (auto simp: extent_bytes_def)
  then have "extent_offset_bytes e \<in> {0 ..< INT64_MAX}"
    "extent_offset_bytes e + extent_size_bytes e - 1 \<in> {0 ..< INT64_MAX}" using assms(2) by blast+
  then show ?thesis using assms(1) by (simp add: good_extent_def)
qed

text \<open>
  Property C37. For a validated pool and in-range block ids the extent computation cannot
  fail: no checked operation overflows, the result exists, and it stays inside the storage.
\<close>

theorem copy_extents_total:
  assumes v: "PoolSpec_Validate p storage = OkStatus" "storage \<ge> 0"
    and ids: "list_all (\<lambda>b. 0 \<le> b \<and> b < num_blocks p) ids"
  shows "\<exists>es. ComputePoolBlockCopyExtents p ids = Inr es \<and>
    (\<forall>e\<in>set es. extent_bytes e \<subseteq> {0 ..< storage})"
proof -
  have ok: "list_all (\<lambda>r. region_ok r (block_stride_bytes p)) (regions p)"
    using pool_Validate_structure(1) [OF v(1)] by (simp add: pool_ok_def)
  have c: "foldM (block_extents p) [] ids = Inr ([] @ all_extents p ids)"
    unfolding all_extents_def
    by (rule foldM_append_total) (use block_extents_total [OF v] ids in \<open>auto simp: list_all_iff\<close>)
  have bytes: "(\<Union>e\<in>set (all_extents p ids). extent_bytes e) = (\<Union>b\<in>set ids. block_live p b)"
    by (rule all_extents_bytes) (use ok region_ok_bounds(1) in \<open>auto simp: list_all_iff\<close>)
  have in_storage: "(\<Union>b\<in>set ids. block_live p b) \<subseteq> {0 ..< min storage INT64_MAX}"
    using block_byte_in_storage [OF v] ids by (fastforce simp: block_live_def list_all_iff)
  have "good_extent e" if "e \<in> set (all_extents p ids)" for e
  proof (rule extent_within)
    show "0 < extent_size_bytes e"
      using that ok region_extent_sizes by (auto simp: all_extents_def list_all_iff)
    have "extent_bytes e \<subseteq> (\<Union>e\<in>set (all_extents p ids). extent_bytes e)" using that by blast
    also have "\<dots> \<subseteq> {0 ..< min storage INT64_MAX}" unfolding bytes by (rule in_storage)
    finally show "extent_bytes e \<subseteq> {0 ..< INT64_MAX}" by auto
  qed
  then obtain m where "ComputePoolBlockCopyExtents p ids = Inr m"
    "(\<Union>x\<in>set m. extent_bytes x) = (\<Union>b\<in>set ids. block_live p b)"
    using merged_sorted [of "all_extents p ids" p] bytes
    by (auto simp: ComputePoolBlockCopyExtents_def c)
  moreover have "extent_bytes e \<subseteq> {0 ..< storage}" if "e \<in> set m" for e
  proof -
    have "extent_bytes e \<subseteq> {0 ..< min storage INT64_MAX}" using that in_storage calculation(2) by blast
    then show ?thesis by auto
  qed
  ultimately show ?thesis by blast
qed

text \<open>
  A pool specification survives the trip through its protobuf message exactly
  when its storage index fits a signed 64-bit field; a larger index is rejected on arrival.
\<close>

theorem pool_proto_round_trip:
  "PoolSpecFromProto (PoolSpec_ToProto p) =
     (if uint (storage_index p) < 2 ^ 63 then Inr p
      else InvalidArgumentError ''storage_index must be non-negative'')"
proof -
  have "foldM (\<lambda>rs rq. and_then (RegionSpecFromProto rq) (\<lambda>r. Inr (rs @ [r]))) acc (map RegionSpec_ToProto rs)
      = Inr (acc @ rs)" for acc rs
    by (induction rs arbitrary: acc) (simp_all add: RegionSpecFromProto_def RegionSpec_ToProto_def)
  moreover have "sint w < 0 \<longleftrightarrow> \<not> uint w < 2 ^ 63" for w :: "64 word"
  proof -
    have "odd (uint w div 2 ^ 63) \<longleftrightarrow> \<not> uint w < 2 ^ 63"
    proof (cases "uint w < 2 ^ 63")
      case True then show ?thesis using uint_ge_0 [of w] by (simp add: div_pos_pos_trivial)
    next
      case False
      then have "uint w div 2 ^ 63 = 1"
        using uint_lt2p [of w] by (intro int_div_pos_eq [where r = "uint w - 2 ^ 63"]) auto
      then show ?thesis using False by simp
    qed
    then show ?thesis by (simp add: sint_uint bit_iff_odd)
  qed
  ultimately show ?thesis by (simp add: PoolSpecFromProto_def PoolSpec_ToProto_def)
qed

subsection \<open>Witnesses\<close>

definition example_region :: RegionSpec where
  "example_region = \<lparr>region_name = ''k'', offset_bytes = 16, stride_bytes = 32, unit_bytes = 8,
     num_units = 3, units_per_stride = 2\<rparr>"

definition example_pool_spec :: PoolSpec where
  "example_pool_spec = \<lparr>pool_tag = ''kv'', storage_index = 0, base_offset_bytes = 64,
     block_stride_bytes = 128, num_blocks = 4, regions = [example_region], dtype_tag = ''bf16''\<rparr>"

lemma example_pool_valid: "PoolSpec_Validate example_pool_spec 544 = OkStatus"
  by code_simp

lemma example_pool_int64: "pool_int64 example_pool_spec"
  by code_simp

theorem validated_pool_in_bounds_witness: "block_live example_pool_spec 3 \<subseteq> {0 ..< 544}"
  by (rule validated_pool_in_bounds [OF example_pool_valid]) code_simp+

theorem regions_cover_range_exact_witness:
  "RegionsCoverRange [example_region] 48 64 \<and> {48 ..< 64} \<subseteq> region_live example_region \<and>
   \<not> RegionsCoverRange [example_region] 48 65"
proof -
  have "list_all (\<lambda>r. RegionSpec_Validate r 128 = OkStatus \<and> region_int64 r) [example_region]" by code_simp
  from regions_cover_range_exact [OF this, of 48 64]
  have "RegionsCoverRange [example_region] 48 64 \<longleftrightarrow> {48 ..< 64} \<subseteq> region_live example_region" by simp
  moreover have "RegionsCoverRange [example_region] 48 64" "\<not> RegionsCoverRange [example_region] 48 65"
    by code_simp+
  ultimately show ?thesis by simp
qed

theorem copy_extents_exact_witness:
  "\<exists>es. ComputePoolBlockCopyExtents example_pool_spec [2, 0] = Inr es \<and> separated es \<and>
     (\<Union>e\<in>set es. extent_bytes e) = block_live example_pool_spec 2 \<union> block_live example_pool_spec 0"
proof -
  obtain es where es: "ComputePoolBlockCopyExtents example_pool_spec [2, 0] = Inr es"
  proof (cases "ComputePoolBlockCopyExtents example_pool_spec [2, 0]")
    case (Inl e)
    have "\<not> isl (ComputePoolBlockCopyExtents example_pool_spec [2, 0])" by code_simp
    then show ?thesis using Inl by simp
  qed
  from copy_extents_exact [OF es] es show ?thesis by simp
qed

theorem copy_extents_total_witness:
  "\<exists>es. ComputePoolBlockCopyExtents example_pool_spec [2, 0, 3] = Inr es"
proof -
  have "list_all (\<lambda>b. 0 \<le> b \<and> b < num_blocks example_pool_spec) [2, 0, 3]" by code_simp
  from copy_extents_total [OF example_pool_valid _ this] show ?thesis by auto
qed

end
