(* ===== verification/LiveSegments.thy ===== *)
theory LiveSegments
  imports PoolLayout
begin

text \<open>
  \<open>kv_cache/pool_layout.cc\<close>, second part: the compact-live coordinate space of a pool
  block. \<open>ExpandPoolLiveSegments\<close> turns the regions of a pool into coalesced physical runs
  with logical offsets, \<open>PhysicalLiveRangeToLogical\<close> maps a physical range back, and
  \<open>TranslateLiveCopy\<close> splits a compact-live copy into physical chunks. \<open>segments_ok\<close> is the
  contract between them, \<open>phys_of\<close> the address map they all implement.
\<close>

record PoolLiveSegment =
  logical_offset :: int
  physical_offset :: int
  seg_size :: int

record LiveCopyChunk =
  src_physical :: int
  dst_physical :: int
  chunk_size :: int

section \<open>Expansion of a pool's regions\<close>

definition kMaxLiveSegments :: int where
  "kMaxLiveSegments = 1048576"

definition check_region_geometry :: "PoolSpec \<Rightarrow> RegionSpec \<Rightarrow> int status_or" where
  "check_region_geometry p r =
     (if offset_bytes r < 0 \<or> stride_bytes r < 0 \<or> unit_bytes r < 0 \<or> num_units r < 0 then
        pool_error p '' has negative region geometry''
      else if units_per_stride r \<le> 0 then pool_error p '' has non-positive units_per_stride''
      else if MulWillOverflow (unit_bytes r) (units_per_stride r) then
        pool_error p '' region byte geometry overflows''
      else and_then (mul64 (unit_bytes r) (units_per_stride r)) (\<lambda>packed_bytes.
        if num_units r > 0 \<and> packed_bytes \<le> 0 then pool_error p '' has an empty live region''
        else if num_units r > 1 \<and> stride_bytes r \<le> 0 then
          pool_error p '' has a non-positive region stride''
        else if num_units r > 0 \<and> stride_bytes r < packed_bytes then
          pool_error p '' has overlapping units within one region''
        else Inr packed_bytes))"

definition exceeds_stride :: "PoolSpec \<Rightarrow> int \<Rightarrow> 'a status_or" where
  "exceeds_stride p stop = pool_error p
     ('' live region exceeds its block stride: end='' @ dec stop @ '', stride='' @ dec (block_stride_bytes p))"

definition expand_unit ::
  "PoolSpec \<Rightarrow> RegionSpec \<Rightarrow> int \<Rightarrow> (int \<times> int) list \<Rightarrow> int \<Rightarrow> (int \<times> int) list status_or" where
  "expand_unit p r packed_bytes intervals u =
     (if MulWillOverflow u (stride_bytes r) then pool_error p '' region byte geometry overflows''
      else
        and_then (mul64 u (stride_bytes r)) (\<lambda>delta.
        and_then (add64 (offset_bytes r) delta) (\<lambda>start.
        and_then (add64 start packed_bytes) (\<lambda>stop.
        if stop > block_stride_bytes p then exceeds_stride p stop
        else Inr (intervals @ [(start, stop)])))))"

definition expand_region ::
  "PoolSpec \<Rightarrow> (int \<times> int) list \<Rightarrow> RegionSpec \<Rightarrow> (int \<times> int) list status_or" where
  "expand_region p intervals r =
     and_then (check_region_geometry p r) (\<lambda>packed_bytes.
     and_then (add64 (int (length intervals)) (num_units r)) (\<lambda>total.
     if total > kMaxLiveSegments then pool_error p '' exceeds the live-region expansion bound''
     else if num_units r > 0 \<and> stride_bytes r = packed_bytes then
       if MulWillOverflow (num_units r) packed_bytes then
         pool_error p '' region byte geometry overflows''
       else
         and_then (mul64 (num_units r) packed_bytes) (\<lambda>bytes.
         and_then (add64 (offset_bytes r) bytes) (\<lambda>stop.
         if stop > block_stride_bytes p then exceeds_stride p stop
         else Inr (intervals @ [(offset_bytes r, stop)])))
     else foldM (expand_unit p r packed_bytes) intervals [0..num_units r - 1]))"

definition coalesce_interval ::
  "PoolSpec \<Rightarrow> (int \<times> int) list \<Rightarrow> int \<times> int \<Rightarrow> (int \<times> int) list status_or" where
  "coalesce_interval p physical iv =
     (case iv of (start, stop) \<Rightarrow>
        if physical \<noteq> [] \<and> start < snd (last physical) then
          pool_error p ('' has overlapping live regions at byte '' @ dec start)
        else if physical \<noteq> [] \<and> start = snd (last physical) then
          Inr (butlast physical @ [(fst (last physical), stop)])
        else Inr (physical @ [(start, stop)]))"

definition push_segment ::
  "PoolLiveSegment list \<times> int \<Rightarrow> int \<times> int \<Rightarrow> (PoolLiveSegment list \<times> int) status_or" where
  "push_segment st iv =
     (case st of (segments, logical) \<Rightarrow> case iv of (start, stop) \<Rightarrow>
        and_then (sub64 stop start) (\<lambda>sz.
        and_then (add64 logical sz) (\<lambda>logical'.
        Inr (segments @ [\<lparr>logical_offset = logical, physical_offset = start, seg_size = sz\<rparr>], logical'))))"

definition ExpandPoolLiveSegments :: "PoolSpec \<Rightarrow> PoolLiveSegment list status_or" where
  "ExpandPoolLiveSegments p =
     (if block_stride_bytes p \<le> 0 then pool_error p '' has non-positive block stride''
      else
        and_then (foldM (expand_region p) [] (regions p)) (\<lambda>intervals.
        and_then (foldM (coalesce_interval p) [] (sort intervals)) (\<lambda>physical.
        and_then (foldM push_segment ([], 0) physical) (\<lambda>(segments, _). Inr segments))))"

section \<open>Physical ranges back to logical ones\<close>

fun find_physical ::
  "PoolLiveSegment list \<Rightarrow> int \<Rightarrow> int \<Rightarrow> int \<Rightarrow> (int \<times> int) status_or" where
  "find_physical [] po pend sz =
     InvalidArgumentError (''physical range ['' @ dec po @ '', '' @ dec pend @
       '') crosses padding or lies outside declared live regions'')"
| "find_physical (s # ss) po pend sz =
     and_then (add64 (physical_offset s) (seg_size s)) (\<lambda>segment_end.
     if physical_offset s \<le> po \<and> pend \<le> segment_end then
       and_then (add64 (logical_offset s) po) (\<lambda>l.
       and_then (sub64 l (physical_offset s)) (\<lambda>logical.
       and_then (add64 logical sz) (\<lambda>logical_end. Inr (logical, logical_end))))
     else find_physical ss po pend sz)"

definition PhysicalLiveRangeToLogical :: "PoolLiveSegment list \<Rightarrow> int \<Rightarrow> int \<Rightarrow> (int \<times> int) status_or" where
  "PhysicalLiveRangeToLogical segments po sz =
     (if po < 0 \<or> sz \<le> 0 then InvalidArgumentError ''physical live range offset/size is invalid''
      else and_then (add64 po sz) (\<lambda>pend. find_physical segments po pend sz))"

section \<open>Translation of a compact-live copy\<close>

fun locate :: "PoolLiveSegment list \<Rightarrow> int \<Rightarrow> (int \<times> int) status_or" where
  "locate [] logical = InvalidArgumentError (''Compact-live offset '' @ dec logical @ '' is out of range'')"
| "locate (s # ss) logical =
     (if logical_offset s \<le> logical then
        and_then (add64 (logical_offset s) (seg_size s)) (\<lambda>segment_end.
        if logical < segment_end then
          and_then (add64 (physical_offset s) logical) (\<lambda>x.
          and_then (sub64 x (logical_offset s)) (\<lambda>physical.
          and_then (sub64 segment_end logical) (\<lambda>available. Inr (physical, available))))
        else locate ss logical)
      else locate ss logical)"

lemma locate_pos: "locate ss l = Inr (p, a) \<Longrightarrow> 0 < a"
  by (induction ss) (auto simp: status_simps split: if_splits)

function translate_loop ::
  "PoolLiveSegment list \<Rightarrow> PoolLiveSegment list \<Rightarrow> LiveCopyChunk list \<Rightarrow> int \<Rightarrow> int \<Rightarrow> int \<Rightarrow>
   LiveCopyChunk list status_or" where
  "translate_loop src dst chunks src_cursor dst_cursor remaining =
     (if remaining > 0 then
        case locate src src_cursor of Inl e \<Rightarrow> Inl e | Inr src_loc \<Rightarrow>
        (case locate dst dst_cursor of Inl e \<Rightarrow> Inl e | Inr dst_loc \<Rightarrow>
         let sz = min remaining (min (snd src_loc) (snd dst_loc));
             chunks' = chunks @ [\<lparr>src_physical = fst src_loc, dst_physical = fst dst_loc, chunk_size = sz\<rparr>]
         in
         if int (length chunks') > kMaxLiveSegments then
           InvalidArgumentError ''Compact-live copy exceeds the segment expansion bound''
         else
           and_then (add64 src_cursor sz) (\<lambda>src_cursor'.
           and_then (add64 dst_cursor sz) (\<lambda>dst_cursor'.
           translate_loop src dst chunks' src_cursor' dst_cursor' (remaining - sz))))
      else Inr chunks)"
  by pat_completeness auto
termination
  by (relation "measure (\<lambda>(src, dst, chunks, sc, dc, remaining). nat remaining)")
    (auto dest!: locate_pos simp: min_def)

declare translate_loop.simps [simp del]

definition TranslateLiveCopy ::
  "PoolLiveSegment list \<Rightarrow> PoolLiveSegment list \<Rightarrow> int \<Rightarrow> int \<Rightarrow> int \<Rightarrow> LiveCopyChunk list status_or" where
  "TranslateLiveCopy src dst src_offset dst_offset sz =
     (if src_offset < 0 \<or> dst_offset < 0 \<or> sz \<le> 0 then
        InvalidArgumentError ''Compact-live copy offsets/size are invalid''
      else translate_loop src dst [] src_offset dst_offset sz)"

section \<open>Specification\<close>

fun tiled_from :: "int \<Rightarrow> PoolLiveSegment list \<Rightarrow> bool" where
  "tiled_from l [] = True"
| "tiled_from l (s # ss) = (logical_offset s = l \<and> tiled_from (l + seg_size s) ss)"

definition seg_end :: "PoolLiveSegment \<Rightarrow> int" where
  "seg_end s = physical_offset s + seg_size s"

text \<open>
  Non-empty runs in increasing physical order with a gap between any two, inside one block
  stride; their logical offsets number the live bytes from zero without gaps.
\<close>

definition segments_ok :: "int \<Rightarrow> PoolLiveSegment list \<Rightarrow> bool" where
  "segments_ok stride ss \<longleftrightarrow> tiled_from 0 ss \<and> sorted_wrt (\<lambda>s t. seg_end s < physical_offset t) ss \<and>
     (\<forall>s\<in>set ss. 0 \<le> physical_offset s \<and> 0 < seg_size s \<and> seg_end s \<le> stride)"

definition seg_bytes :: "PoolLiveSegment \<Rightarrow> int set" where
  "seg_bytes s = {physical_offset s ..< seg_end s}"

definition total_size :: "PoolLiveSegment list \<Rightarrow> int" where
  "total_size ss = sum_list (map seg_size ss)"

fun phys_of :: "PoolLiveSegment list \<Rightarrow> int \<Rightarrow> int option" where
  "phys_of [] l = None"
| "phys_of (s # ss) l =
     (if logical_offset s \<le> l \<and> l < logical_offset s + seg_size s
      then Some (physical_offset s + (l - logical_offset s)) else phys_of ss l)"

section \<open>Intervals of a region\<close>

definition region_intervals :: "RegionSpec \<Rightarrow> (int \<times> int) list" where
  "region_intervals r =
     (if num_units r > 0 \<and> stride_bytes r = packed r then
        [(offset_bytes r, offset_bytes r + num_units r * packed r)]
      else map (\<lambda>u. (offset_bytes r + u * stride_bytes r, offset_bytes r + u * stride_bytes r + packed r))
             [0..num_units r - 1])"

definition iv_bytes :: "int \<times> int \<Rightarrow> int set" where
  "iv_bytes iv = {fst iv ..< snd iv}"

definition iv_ok :: "int \<Rightarrow> int \<times> int \<Rightarrow> bool" where
  "iv_ok stride iv \<longleftrightarrow> 0 \<le> fst iv \<and> fst iv < snd iv \<and> snd iv \<le> stride"

definition iv_total :: "(int \<times> int) list \<Rightarrow> int" where
  "iv_total ivs = sum_list (map (\<lambda>iv. snd iv - fst iv) ivs)"

lemma check_region_geometry_Inr:
  assumes "check_region_geometry p r = Inr pk"
  shows "pk = packed r" "0 \<le> offset_bytes r" "0 \<le> stride_bytes r" "0 \<le> num_units r" "0 \<le> packed r"
    "num_units r > 0 \<Longrightarrow> 0 < packed r \<and> packed r \<le> stride_bytes r"
  using assms
  by (auto simp: check_region_geometry_def pool_error_def packed_def status_simps split: if_splits)

lemma expand_unit_Inr:
  assumes "expand_unit p r (packed r) ivs u = Inr ivs'"
  shows "ivs' = ivs @ [(offset_bytes r + u * stride_bytes r, offset_bytes r + u * stride_bytes r + packed r)]"
    "offset_bytes r + u * stride_bytes r + packed r \<le> block_stride_bytes p"
  using assms by (auto simp: expand_unit_def pool_error_def exceeds_stride_def status_simps split: if_splits)

lemma expand_region_Inr:
  assumes "expand_region p ivs r = Inr ivs'"
  shows "ivs' = ivs @ region_intervals r" "0 \<le> packed r" "0 \<le> num_units r"
    "\<forall>iv\<in>set (region_intervals r). iv_ok (block_stride_bytes p) iv"
proof -
  from assms have geo: "check_region_geometry p r = Inr (packed r)"
    using check_region_geometry_Inr(1) by (auto simp: expand_region_def and_then_Inr_iff)
  note g = check_region_geometry_Inr [OF geo]
  show "0 \<le> packed r" "0 \<le> num_units r" using g by auto
  consider (dense) "num_units r > 0" "stride_bytes r = packed r"
      "ivs' = ivs @ [(offset_bytes r, offset_bytes r + num_units r * packed r)]"
      "offset_bytes r + num_units r * packed r \<le> block_stride_bytes p"
    | (sparse) "\<not> (num_units r > 0 \<and> stride_bytes r = packed r)"
      "foldM (expand_unit p r (packed r)) ivs [0..num_units r - 1] = Inr ivs'"
    using assms by (auto simp: expand_region_def geo pool_error_def exceeds_stride_def status_simps split: if_splits)
  then have "ivs' = ivs @ region_intervals r \<and> (\<forall>iv\<in>set (region_intervals r). iv_ok (block_stride_bytes p) iv)"
  proof cases
    case dense
    then show ?thesis using g by (simp add: region_intervals_def iv_ok_def)
  next
    case sparse
    let ?iv = "\<lambda>u. (offset_bytes r + u * stride_bytes r, offset_bytes r + u * stride_bytes r + packed r)"
    have "ivs' = ivs @ concat (map (\<lambda>u. [?iv u]) [0..num_units r - 1])"
      by (rule foldM_appends [OF sparse(2)]) (rule expand_unit_Inr(1))
    moreover have "iv_ok (block_stride_bytes p) (?iv u)" if "u \<in> set [0..num_units r - 1]" for u
    proof -
      have "offset_bytes r + u * stride_bytes r + packed r \<le> block_stride_bytes p"
        using foldM_each [OF sparse(2) that] expand_unit_Inr(2) by blast
      moreover have "0 \<le> u * stride_bytes r" using that g by simp
      ultimately show ?thesis using that g unfolding iv_ok_def fst_conv snd_conv by auto
    qed
    ultimately show ?thesis using sparse(1) by (auto simp: region_intervals_def concat_map_singleton)
  qed
  then show "ivs' = ivs @ region_intervals r"
    "\<forall>iv\<in>set (region_intervals r). iv_ok (block_stride_bytes p) iv" by blast+
qed

lemma region_intervals_bytes:
  assumes "0 \<le> packed r" "0 \<le> num_units r" "num_units r > 0 \<longrightarrow> 0 < packed r"
  shows "(\<Union>iv\<in>set (region_intervals r). iv_bytes iv) = region_live r"
    and "iv_total (region_intervals r) = num_units r * packed r"
proof -
  have "map (\<lambda>e. (extent_offset_bytes e, extent_offset_bytes e + extent_size_bytes e)) (region_extent_list 0 r)
      = region_intervals r"
    using assms by (auto simp: region_intervals_def region_extent_list_def extent_at_def)
  then have "(\<Union>iv\<in>set (region_intervals r). iv_bytes iv) = (\<Union>e\<in>set (region_extent_list 0 r). extent_bytes e)"
    by (metis (no_types, lifting) UN_extend_simps(10) extent_bytes_def fst_conv iv_bytes_def list.set_map snd_conv SUP_cong)
  also have "\<dots> = region_live r" using region_extent_list_bytes [OF assms(1), of 0] by simp
  finally show "(\<Union>iv\<in>set (region_intervals r). iv_bytes iv) = region_live r" .
  have "(\<Sum>u\<leftarrow>[0..num_units r - 1]. packed r) = num_units r * packed r"
    using assms(2) by (simp add: sum_list_triv)
  then show "iv_total (region_intervals r) = num_units r * packed r"
    by (simp add: region_intervals_def iv_total_def comp_def)
qed

section \<open>Coalescing and numbering\<close>

definition runs_ok :: "int \<Rightarrow> (int \<times> int) list \<Rightarrow> bool" where
  "runs_ok stride ivs \<longleftrightarrow> sorted_wrt (\<lambda>a b. snd a < fst b) ivs \<and> (\<forall>iv\<in>set ivs. iv_ok stride iv)"

definition runs_bytes :: "(int \<times> int) list \<Rightarrow> int set" where
  "runs_bytes ivs = (\<Union>iv\<in>set ivs. iv_bytes iv)"

lemma coalesce_step:
  assumes "coalesce_interval p ph iv = Inr ph'" "runs_ok stride ph" "iv_ok stride iv"
    and "ph \<noteq> [] \<Longrightarrow> fst (last ph) \<le> fst iv"
  shows "runs_ok stride ph' \<and> ph' \<noteq> [] \<and> fst (last ph') \<le> fst iv \<and>
    runs_bytes ph' = runs_bytes ph \<union> iv_bytes iv \<and> iv_total ph' = iv_total ph + (snd iv - fst iv)"
proof (cases ph rule: rev_cases)
  case Nil
  then show ?thesis using assms
    by (auto simp: coalesce_interval_def runs_ok_def runs_bytes_def iv_total_def split: prod.splits)
next
  case (snoc xs l)
  have l: "iv_ok stride l" "fst l \<le> fst iv" and xs: "sorted_wrt (\<lambda>a b. snd a < fst b) xs"
      "\<forall>x\<in>set xs. snd x < fst l \<and> iv_ok stride x"
    using assms snoc by (auto simp: runs_ok_def sorted_wrt_append)
  have ge: "\<not> fst iv < snd l"
    using assms(1) snoc by (auto simp: coalesce_interval_def pool_error_def split: prod.splits if_splits)
  show ?thesis
  proof (cases "fst iv = snd l")
    case True
    then have ph': "ph' = xs @ [(fst l, snd iv)]"
      using assms(1) snoc by (auto simp: coalesce_interval_def split: prod.splits if_splits)
    have "iv_bytes (fst l, snd iv) = iv_bytes l \<union> iv_bytes iv" "iv_ok stride (fst l, snd iv)"
      using l True assms(3) by (auto simp: iv_bytes_def iv_ok_def)
    then show ?thesis using xs l True unfolding ph' snoc
      by (auto simp: runs_ok_def runs_bytes_def iv_total_def sorted_wrt_append)
  next
    case False
    then have ph': "ph' = xs @ [l, iv]"
      using assms(1) snoc ge by (auto simp: coalesce_interval_def split: prod.splits if_splits)
    have "snd x < fst iv" if "x \<in> set xs" for x
      using xs(2) that l by force
    then show ?thesis using xs l False ge assms(3) unfolding ph' snoc
      by (auto simp: runs_ok_def runs_bytes_def iv_total_def sorted_wrt_append)
  qed
qed

lemma coalesce_runs:
  assumes "foldM (coalesce_interval p) ph ivs = Inr ph'" "runs_ok stride ph" "\<forall>iv\<in>set ivs. iv_ok stride iv"
    and "sorted ivs" "ph \<noteq> [] \<Longrightarrow> \<forall>iv\<in>set ivs. fst (last ph) \<le> fst iv"
  shows "runs_ok stride ph' \<and> runs_bytes ph' = runs_bytes ph \<union> runs_bytes ivs \<and>
    iv_total ph' = iv_total ph + iv_total ivs"
  using assms
proof (induction ivs arbitrary: ph)
  case Nil then show ?case by (simp add: runs_bytes_def iv_total_def)
next
  case (Cons iv ivs)
  obtain ph1 where ph1: "coalesce_interval p ph iv = Inr ph1" "foldM (coalesce_interval p) ph1 ivs = Inr ph'"
    using Cons.prems(1) by (auto simp: and_then_Inr_iff)
  have step: "runs_ok stride ph1" "ph1 \<noteq> []" "fst (last ph1) \<le> fst iv"
      "runs_bytes ph1 = runs_bytes ph \<union> iv_bytes iv" "iv_total ph1 = iv_total ph + (snd iv - fst iv)"
    using coalesce_step [OF ph1(1) Cons.prems(2)] Cons.prems by auto
  have "fst (last ph1) \<le> fst x" if "x \<in> set ivs" for x
    using step(3) Cons.prems(4) that by (force simp: less_eq_prod_def)
  then have "runs_ok stride ph' \<and> runs_bytes ph' = runs_bytes ph1 \<union> runs_bytes ivs \<and>
      iv_total ph' = iv_total ph1 + iv_total ivs"
    using Cons.IH [OF ph1(2) step(1)] Cons.prems by simp
  then show ?case using step by (auto simp: runs_bytes_def iv_total_def)
qed

fun number_runs :: "int \<Rightarrow> (int \<times> int) list \<Rightarrow> PoolLiveSegment list" where
  "number_runs l [] = []"
| "number_runs l (iv # ivs) =
     \<lparr>logical_offset = l, physical_offset = fst iv, seg_size = snd iv - fst iv\<rparr> #
     number_runs (l + (snd iv - fst iv)) ivs"

lemma push_segments_eq:
  assumes "foldM push_segment (ss, l) ivs = Inr (ss', l')"
  shows "ss' = ss @ number_runs l ivs"
  using assms
  by (induction ivs arbitrary: ss l) (fastforce simp: push_segment_def status_simps split: prod.splits)+

lemma iv_total_Cons: "iv_total (iv # ivs) = (snd iv - fst iv) + iv_total ivs"
  by (simp add: iv_total_def)

lemma push_segments_total:
  assumes "\<forall>iv\<in>set ivs. iv_ok INT64_MAX iv" "0 \<le> l" "l + iv_total ivs \<le> INT64_MAX"
  shows "foldM push_segment (ss, l) ivs = Inr (ss @ number_runs l ivs, l + iv_total ivs)"
  using assms
proof (induction ivs arbitrary: ss l)
  case (Cons iv ivs)
  have nn: "0 \<le> iv_total ivs"
    using Cons.prems(1) unfolding iv_total_def by (intro sum_list_nonneg) (fastforce simp: iv_ok_def)
  have "sub64 (snd iv) (fst iv) = Inr (snd iv - fst iv)" "add64 l (snd iv - fst iv) = Inr (l + (snd iv - fst iv))"
    using Cons.prems nn by (auto simp: iv_ok_def iv_total_Cons intro!: sub64_in_range add64_in_range is_int64_between)
  then show ?case using Cons by (auto simp: push_segment_def iv_total_Cons iv_ok_def split: prod.split)
qed (simp add: iv_total_def)

lemma number_runs_sets:
  "s \<in> set (number_runs l ivs) \<Longrightarrow> \<exists>iv\<in>set ivs. physical_offset s = fst iv \<and> seg_end s = snd iv"
  by (induction ivs arbitrary: l) (auto simp: seg_end_def)

lemma number_runs_ok:
  assumes "runs_ok stride ivs"
  shows "tiled_from l (number_runs l ivs) \<and>
    sorted_wrt (\<lambda>s t. seg_end s < physical_offset t) (number_runs l ivs) \<and>
    (\<forall>s\<in>set (number_runs l ivs). 0 \<le> physical_offset s \<and> 0 < seg_size s \<and> seg_end s \<le> stride) \<and>
    (\<Union>s\<in>set (number_runs l ivs). seg_bytes s) = runs_bytes ivs \<and>
    total_size (number_runs l ivs) = iv_total ivs"
  using assms
proof (induction ivs arbitrary: l)
  case (Cons iv ivs)
  have ok: "runs_ok stride ivs" "iv_ok stride iv" "\<forall>x\<in>set ivs. snd iv < fst x"
    using Cons.prems by (auto simp: runs_ok_def)
  note IH = Cons.IH [OF ok(1), of "l + (snd iv - fst iv)"]
  have "snd iv < physical_offset t" if "t \<in> set (number_runs (l + (snd iv - fst iv)) ivs)" for t
    using number_runs_sets [OF that] ok(3) by auto
  then show ?case using IH ok(2)
    by (simp add: iv_ok_def seg_end_def runs_bytes_def seg_bytes_def iv_bytes_def total_size_def iv_total_def)
qed (simp add: runs_bytes_def total_size_def iv_total_def)

section \<open>The expansion\<close>

lemma expand_collect:
  assumes "foldM (expand_region p) [] rs = Inr ivs"
  shows "ivs = concat (map region_intervals rs)" "\<forall>iv\<in>set ivs. iv_ok (block_stride_bytes p) iv"
    "runs_bytes ivs = (\<Union>r\<in>set rs. region_live r)"
    "iv_total ivs = (\<Sum>r\<leftarrow>rs. num_units r * packed r)"
proof -
  have each: "0 \<le> packed r \<and> 0 \<le> num_units r \<and> (num_units r > 0 \<longrightarrow> 0 < packed r) \<and>
      (\<forall>iv\<in>set (region_intervals r). iv_ok (block_stride_bytes p) iv)" if r: "r \<in> set rs" for r
  proof -
    obtain t t' where t: "expand_region p t r = Inr t'" using foldM_each [OF assms r] by blast
    then obtain pk where "check_region_geometry p r = Inr pk"
      by (auto simp: expand_region_def and_then_Inr_iff)
    from check_region_geometry_Inr(6) [OF this] show ?thesis using expand_region_Inr [OF t] by auto
  qed
  have "ivs = [] @ concat (map region_intervals rs)"
    by (rule foldM_appends [OF assms]) (rule expand_region_Inr(1))
  then show ivs: "ivs = concat (map region_intervals rs)" by simp
  show "\<forall>iv\<in>set ivs. iv_ok (block_stride_bytes p) iv" using each by (auto simp: ivs)
  have "(\<Union>iv\<in>set (region_intervals r). iv_bytes iv) = region_live r" if "r \<in> set rs" for r
    using region_intervals_bytes(1) each [OF that] by blast
  then show "runs_bytes ivs = (\<Union>r\<in>set rs. region_live r)" by (auto simp: runs_bytes_def ivs)
  have "iv_total (concat (map region_intervals rs)) = (\<Sum>r\<leftarrow>rs. iv_total (region_intervals r))"
    by (induction rs) (simp_all add: iv_total_def)
  also have "\<dots> = (\<Sum>r\<leftarrow>rs. num_units r * packed r)"
    using region_intervals_bytes(2) each by (intro arg_cong [where f = sum_list] map_cong) auto
  finally show "iv_total ivs = (\<Sum>r\<leftarrow>rs. num_units r * packed r)" by (simp add: ivs)
qed

lemma iv_total_sort: "iv_total (sort ivs) = iv_total ivs"
proof -
  have "sum_list (map f (insort x xs)) = f x + sum_list (map f xs)" for f :: "int \<times> int \<Rightarrow> int" and x xs
    by (induction xs) auto
  then have "sum_list (map f (sort ivs)) = sum_list (map f ivs)" for f :: "int \<times> int \<Rightarrow> int"
    by (induction ivs) simp_all
  then show ?thesis by (simp add: iv_total_def)
qed

lemma Expand_Inr:
  assumes "ExpandPoolLiveSegments p = Inr ss"
  shows "segments_ok (block_stride_bytes p) ss" "(\<Union>s\<in>set ss. seg_bytes s) = (\<Union>r\<in>set (regions p). region_live r)"
    "total_size ss = (\<Sum>r\<leftarrow>regions p. num_units r * packed r)"
proof -
  obtain ivs ph l where e: "foldM (expand_region p) [] (regions p) = Inr ivs"
      "foldM (coalesce_interval p) [] (sort ivs) = Inr ph" "foldM push_segment ([], 0) ph = Inr (ss, l)"
    using assms by (auto simp: ExpandPoolLiveSegments_def pool_error_def and_then_Inr_iff split: if_splits)
  note c = expand_collect [OF e(1)]
  have "runs_ok (block_stride_bytes p) ph \<and> runs_bytes ph = runs_bytes [] \<union> runs_bytes (sort ivs) \<and>
      iv_total ph = iv_total [] + iv_total (sort ivs)"
    by (rule coalesce_runs [OF e(2)]) (use c(2) in \<open>auto simp: runs_ok_def\<close>)
  then have ph: "runs_ok (block_stride_bytes p) ph" "runs_bytes ph = runs_bytes ivs" "iv_total ph = iv_total ivs"
    by (simp_all add: runs_bytes_def iv_total_def iv_total_sort [unfolded iv_total_def])
  have ss: "ss = number_runs 0 ph" using push_segments_eq [OF e(3)] by simp
  show "segments_ok (block_stride_bytes p) ss" "(\<Union>s\<in>set ss. seg_bytes s) = (\<Union>r\<in>set (regions p). region_live r)"
    "total_size ss = (\<Sum>r\<leftarrow>regions p. num_units r * packed r)"
    using number_runs_ok [OF ph(1), of 0] ph c(3,4) unfolding ss segments_ok_def by auto
qed

abbreviation rejected :: "error \<Rightarrow> bool" where
  "rejected e \<equiv> err_code e = InvalidArgument"

lemma num_units_le:
  assumes "region_ok r slot" shows "num_units r \<le> slot"
proof (cases "num_units r > 0")
  case True
  have p: "1 \<le> packed r" "packed r \<le> stride_bytes r" using assms True packed_pos [of r] by (auto simp: region_ok_def)
  have "(num_units r - 1) * 1 \<le> (num_units r - 1) * stride_bytes r"
    using p True by (intro mult_left_mono) auto
  then have "num_units r - 1 \<le> last_unit r" using True by (simp add: last_unit_def)
  then show ?thesis using region_ok_bounds [OF assms] p by linarith
next
  case False then show ?thesis using assms by (simp add: region_ok_def)
qed

lemma check_region_geometry_outcome:
  assumes "region_ok r slot"
  shows "check_region_geometry p r = Inr (packed r) \<or> (\<exists>m. check_region_geometry p r = InvalidArgumentError m)"
proof -
  have "0 \<le> packed r" "packed r \<le> INT64_MAX" using region_ok_bounds [OF assms] by auto
  then have "mul64 (unit_bytes r) (units_per_stride r) = Inr (packed r)"
    by (simp add: packed_def mul64_def nonneg_int64)
  then show ?thesis by (simp add: check_region_geometry_def pool_error_def)
qed

lemma expand_region_outcome:
  assumes ok: "region_ok r (block_stride_bytes p)" and bs: "block_stride_bytes p \<le> INT64_MAX - kMaxLiveSegments"
    and len: "int (length ivs) \<le> kMaxLiveSegments"
  shows "outcome rejected (\<lambda>ivs'. int (length ivs') \<le> kMaxLiveSegments) (expand_region p ivs r)"
proof -
  note b = region_ok_bounds [OF ok]
  have nn: "0 \<le> num_units r" "0 \<le> stride_bytes r" using ok by (auto simp: region_ok_def)
  have add: "add64 (int (length ivs)) (num_units r) = Inr (int (length ivs) + num_units r)"
    using num_units_le [OF ok] bs len nn by (auto intro!: add64_in_range is_int64_between)
  have dense: "outcome rejected (\<lambda>ivs'. int (length ivs') \<le> kMaxLiveSegments)
      (and_then (mul64 (num_units r) (packed r)) (\<lambda>bytes. and_then (add64 (offset_bytes r) bytes) (\<lambda>stop.
         if stop > block_stride_bytes p then exceeds_stride p stop else Inr (ivs @ [(offset_bytes r, stop)]))))"
    if "num_units r > 0" "stride_bytes r = packed r" "int (length ivs) + num_units r \<le> kMaxLiveSegments"
  proof -
    have "num_units r * packed r = last_unit r + packed r"
      using that by (simp add: last_unit_def algebra_simps)
    then have "mul64 (num_units r) (packed r) = Inr (last_unit r + packed r)"
      "add64 (offset_bytes r) (last_unit r + packed r) = Inr (offset_bytes r + (last_unit r + packed r))"
      using b by (auto simp: mul64_def add64_def nonneg_int64)
    then show ?thesis using that by (simp add: exceeds_stride_def pool_error_def)
  qed
  have units: "outcome rejected (\<lambda>ivs'. int (length ivs') \<le> kMaxLiveSegments)
      (foldM (expand_unit p r (packed r)) ivs [0..num_units r - 1])"
    if "int (length ivs) + num_units r \<le> kMaxLiveSegments"
  proof -
    have u: "expand_unit p r (packed r) t u =
        Inr (t @ [(offset_bytes r + u * stride_bytes r, offset_bytes r + u * stride_bytes r + packed r)])"
      if "u \<in> set [0..num_units r - 1]" for u t
    proof -
      have ub: "0 \<le> u" "0 \<le> u * stride_bytes r" "u * stride_bytes r \<le> last_unit r"
        using that unit_le_last [OF ok, of u] by auto
      then have "mul64 u (stride_bytes r) = Inr (u * stride_bytes r)"
        "add64 (offset_bytes r) (u * stride_bytes r) = Inr (offset_bytes r + u * stride_bytes r)"
        "add64 (offset_bytes r + u * stride_bytes r) (packed r) = Inr (offset_bytes r + u * stride_bytes r + packed r)"
        using b by (intro mul64_in_range add64_in_range is_int64_between; linarith)+
      moreover have "\<not> MulWillOverflow u (stride_bytes r)"
        using MulWillOverflow_iff [OF ub(1) nn(2)] ub b by linarith
      ultimately show ?thesis using ub b by (simp add: expand_unit_def)
    qed
    show ?thesis using that nn
      by (subst foldM_append_total [OF u]) (simp_all add: concat_map_singleton)
  qed
  from check_region_geometry_outcome [OF ok, of p] show ?thesis
    using dense units by (auto simp: expand_region_def add pool_error_def)
qed

lemma runs_total_le:
  assumes "sorted_wrt (\<lambda>a b. snd a < fst b) ivs" "\<forall>iv\<in>set ivs. iv_ok stride iv \<and> lo \<le> fst iv" "lo \<le> stride"
  shows "iv_total ivs \<le> stride - lo"
  using assms
proof (induction ivs arbitrary: lo)
  case (Cons iv ivs)
  have iv: "iv_ok stride iv" "lo \<le> fst iv" using Cons.prems(2) by auto
  have "iv_total ivs \<le> stride - snd iv"
    by (rule Cons.IH) (use Cons.prems iv in \<open>auto simp: iv_ok_def\<close>)
  then show ?case using iv by (simp add: iv_total_Cons)
qed (simp add: iv_total_def)

lemma coalesce_outcome: "outcome rejected (\<lambda>_. True) (coalesce_interval p ph iv)"
  by (simp add: coalesce_interval_def pool_error_def split: prod.split)

lemma Expand_outcome:
  assumes v: "PoolSpec_Validate p st = OkStatus" and bs: "2 * block_stride_bytes p \<le> INT64_MAX"
  shows "outcome rejected (segments_ok (block_stride_bytes p)) (ExpandPoolLiveSegments p)"
proof -
  have ok: "pool_ok p" using pool_Validate_structure(1) [OF v] .
  then have pos: "0 < block_stride_bytes p" by (simp add: pool_ok_def)
  have bs': "block_stride_bytes p \<le> INT64_MAX - kMaxLiveSegments"
    using bs by (simp add: INT64_MAX_def kMaxLiveSegments_def)
  have c: "outcome rejected (\<lambda>_. True) (foldM (coalesce_interval p) ph ivs)" for ph ivs
    by (rule outcome_foldM) (simp_all add: coalesce_outcome)
  have push: "\<exists>x. foldM push_segment ([], 0) ph = Inr x" if r: "runs_ok (block_stride_bytes p) ph" for ph
  proof -
    have "iv_total ph \<le> block_stride_bytes p - 0"
      by (rule runs_total_le) (use r pos in \<open>auto simp: runs_ok_def iv_ok_def\<close>)
    moreover have "\<forall>iv\<in>set ph. iv_ok INT64_MAX iv"
      using r bs pos by (fastforce simp: runs_ok_def iv_ok_def)
    ultimately show ?thesis using push_segments_total [of ph 0 "[]"] bs pos by auto
  qed
  have "outcome rejected (\<lambda>_. True) (ExpandPoolLiveSegments p)"
    unfolding ExpandPoolLiveSegments_def if_not_P [OF pos [unfolded not_le [symmetric]]]
  proof (intro outcome_and_then)
    show "outcome rejected (\<lambda>ivs. int (length ivs) \<le> kMaxLiveSegments) (foldM (expand_region p) [] (regions p))"
      by (rule outcome_foldM) (use ok bs' expand_region_outcome in \<open>auto simp: pool_ok_def list_all_iff kMaxLiveSegments_def\<close>)
    fix ivs assume ivs: "foldM (expand_region p) [] (regions p) = Inr ivs"
    show "outcome rejected (\<lambda>_. True) (foldM (coalesce_interval p) [] (sort ivs))" by (rule c)
    fix ph assume ph: "foldM (coalesce_interval p) [] (sort ivs) = Inr ph"
    have "runs_ok (block_stride_bytes p) ph"
      using coalesce_runs [OF ph, of "block_stride_bytes p"] expand_collect(2) [OF ivs] by (simp add: runs_ok_def)
    from push [OF this] show "outcome rejected (\<lambda>_. True) (foldM push_segment ([], 0) ph)" by auto
  qed auto
  then show ?thesis using Expand_Inr(1) [of p] by (cases "ExpandPoolLiveSegments p") auto
qed

section \<open>Locating a logical offset\<close>

abbreviation sizes_pos :: "PoolLiveSegment list \<Rightarrow> bool" where
  "sizes_pos ss \<equiv> \<forall>s\<in>set ss. 0 < seg_size s"

lemma tiled_lower: "tiled_from b ss \<Longrightarrow> sizes_pos ss \<Longrightarrow> s \<in> set ss \<Longrightarrow> b \<le> logical_offset s"
  by (induction ss arbitrary: b) fastforce+

lemma total_nonneg: "sizes_pos ss \<Longrightarrow> 0 \<le> total_size ss"
  by (induction ss) (auto simp: total_size_def)

lemma tiled_upper:
  "tiled_from b ss \<Longrightarrow> sizes_pos ss \<Longrightarrow> s \<in> set ss \<Longrightarrow> logical_offset s + seg_size s \<le> b + total_size ss"
proof (induction ss arbitrary: b)
  case (Cons a ss)
  have "0 \<le> total_size ss" by (rule total_nonneg) (use Cons.prems(2) in auto)
  then show ?case using Cons by (fastforce simp: total_size_def)
qed simp

lemma locate_in: "locate ss l = Inr xa \<Longrightarrow> \<exists>s\<in>set ss. logical_offset s \<le> l \<and> l < logical_offset s + seg_size s"
  by (induction ss) (auto simp: status_simps split: if_splits)

lemma phys_of_in: "phys_of ss l = Some x \<Longrightarrow> \<exists>s\<in>set ss. logical_offset s \<le> l \<and> l < logical_offset s + seg_size s \<and>
    x = physical_offset s + (l - logical_offset s)"
  by (induction ss) (auto split: if_splits)

lemma locate_run:
  assumes "tiled_from b ss" "sizes_pos ss" "locate ss l = Inr (x, a)"
  shows "(\<forall>i. 0 \<le> i \<and> i < a \<longrightarrow> phys_of ss (l + i) = Some (x + i)) \<and>
    (\<exists>s\<in>set ss. logical_offset s \<le> l \<and> l + a = logical_offset s + seg_size s)"
  using assms
proof (induction ss arbitrary: b)
  case (Cons s ss)
  show ?case
  proof (cases "logical_offset s \<le> l \<and> l < logical_offset s + seg_size s")
    case True
    then have "x = physical_offset s + (l - logical_offset s)" "a = logical_offset s + seg_size s - l"
      using Cons.prems(3) by (auto simp: status_simps)
    then show ?thesis using True by auto
  next
    case False
    then have loc: "locate ss l = Inr (x, a)" using Cons.prems(3) by (auto simp: status_simps split: if_splits)
    obtain t where "t \<in> set ss" "logical_offset t \<le> l" using locate_in [OF loc] by blast
    then have "logical_offset s + seg_size s \<le> l"
      using tiled_lower [of "b + seg_size s" ss t] Cons.prems(1,2) by fastforce
    then show ?thesis using Cons.IH [OF _ _ loc] Cons.prems(1,2) by fastforce
  qed
qed simp

lemma locate_total:
  assumes "tiled_from b ss" "\<forall>s\<in>set ss. 0 < seg_size s \<and> 0 \<le> physical_offset s \<and> seg_end s \<le> B"
    and "0 \<le> b" "b \<le> l" "l < b + total_size ss" "b + total_size ss \<le> B" "2 * B \<le> INT64_MAX"
  shows "\<exists>x a. locate ss l = Inr (x, a)"
  using assms
proof (induction ss arbitrary: b)
  case (Cons s ss)
  have s: "0 < seg_size s" "0 \<le> physical_offset s" "seg_end s \<le> B" "logical_offset s = b" using Cons.prems by auto
  have t: "0 \<le> total_size ss" by (rule total_nonneg) (use Cons.prems(2) in auto)
  have tot: "total_size (s # ss) = seg_size s + total_size ss" by (simp add: total_size_def)
  have add: "add64 b (seg_size s) = Inr (b + seg_size s)"
    using s t Cons.prems tot by (intro add64_in_range is_int64_between) linarith+
  show ?case
  proof (cases "l < b + seg_size s")
    case True
    have "add64 (physical_offset s) l = Inr (physical_offset s + l)"
      "sub64 (physical_offset s + l) b = Inr (physical_offset s + l - b)"
      "sub64 (b + seg_size s) l = Inr (b + seg_size s - l)"
      using s t Cons.prems True tot
      by (intro add64_in_range sub64_in_range is_int64_between; simp add: seg_end_def; linarith)+
    then show ?thesis using True s Cons.prems(4) add by simp
  next
    case False
    have "\<exists>x a. locate ss l = Inr (x, a)"
      by (rule Cons.IH [of "b + seg_size s"]) (use Cons.prems s False tot in auto)
    then show ?thesis using False s Cons.prems(4) add by simp
  qed
qed (simp add: total_size_def)

section \<open>Translation\<close>

text \<open>The pairs of physical bytes a list of chunks copies, in order.\<close>

definition chunk_pairs :: "LiveCopyChunk \<Rightarrow> (int \<times> int) list" where
  "chunk_pairs c = map (\<lambda>i. (src_physical c + i, dst_physical c + i)) [0..chunk_size c - 1]"

definition copied :: "LiveCopyChunk list \<Rightarrow> (int \<times> int) list" where
  "copied cs = concat (map chunk_pairs cs)"

text \<open>The pairs a compact-live copy of \<open>n\<close> bytes must copy.\<close>

definition wanted :: "PoolLiveSegment list \<Rightarrow> PoolLiveSegment list \<Rightarrow> int \<Rightarrow> int \<Rightarrow> int \<Rightarrow> (int option \<times> int option) list" where
  "wanted src dst so do n = map (\<lambda>i. (phys_of src (so + i), phys_of dst (do + i))) [0..n - 1]"

lemma map_upto_shift: "map f [a + c..b + c] = map (\<lambda>i. f (i + c)) [a..b]" for a b c :: int
proof (induction "nat (b - a + 1)" arbitrary: a)
  case (Suc n)
  then have "a \<le> b" by simp
  then show ?case using Suc(1) [of "a + 1"] Suc(2)
    by (simp add: upto_rec1 [of a b] upto_rec1 [of "a + c" "b + c"] algebra_simps)
qed simp

lemma wanted_split:
  assumes "0 \<le> k" "k \<le> n"
  shows "wanted src dst so do n = wanted src dst so do k @ wanted src dst (so + k) (do + k) (n - k)"
proof -
  have "[0..n - 1] = [0..k - 1] @ [k..n - 1]"
  proof (cases "k = n")
    case False then show ?thesis using assms upto_split1 [of 0 k "n - 1"] by simp
  qed simp
  moreover have "map f [k..n - 1] = map (\<lambda>i. f (i + k)) [0..n - k - 1]" for f :: "int \<Rightarrow> int option \<times> int option"
    using map_upto_shift [of f 0 k "n - k - 1"] by simp
  ultimately show ?thesis by (simp add: wanted_def algebra_simps)
qed

lemma translate_loop_sound:
  assumes "tiled_from 0 src" "sizes_pos src" "tiled_from 0 dst" "sizes_pos dst"
    and "translate_loop src dst chunks sc dc remaining = Inr cs" "0 \<le> remaining"
  shows "\<exists>new. cs = chunks @ new \<and> (\<forall>c\<in>set new. 0 < chunk_size c) \<and>
    map (\<lambda>(a, b). (Some a, Some b)) (copied new) = wanted src dst sc dc remaining"
  using assms
proof (induction src dst chunks sc dc remaining rule: translate_loop.induct)
  case (1 src dst chunks sc dc remaining)
  show ?case
  proof (cases "remaining > 0")
    case False
    then show ?thesis using 1(6,7) by (simp add: translate_loop.simps [of src] copied_def wanted_def)
  next
    case True
    obtain x a y b where sl: "locate src sc = Inr (x, a)" and dl: "locate dst dc = Inr (y, b)"
      using 1(6) True by (auto simp: translate_loop.simps [of src] split: sum.splits)
    define sz where "sz = min remaining (min a b)"
    define chunk where "chunk = \<lparr>src_physical = x, dst_physical = y, chunk_size = sz\<rparr>"
    have sz: "0 < sz" "sz \<le> remaining" "sz \<le> a" "sz \<le> b"
      using locate_pos [OF sl] locate_pos [OF dl] True by (auto simp: sz_def)
    have rec: "translate_loop src dst (chunks @ [chunk]) (sc + sz) (dc + sz) (remaining - sz) = Inr cs"
      and rng: "add64 sc sz = Inr (sc + sz)" "add64 dc sz = Inr (dc + sz)"
        "\<not> kMaxLiveSegments < int (length (chunks @ [chunk]))"
      using 1(6) True by (auto simp: translate_loop.simps [of src] sl dl Let_def sz_def chunk_def status_simps
        split: if_splits)
    have "\<exists>new. cs = (chunks @ [chunk]) @ new \<and> (\<forall>c\<in>set new. 0 < chunk_size c) \<and>
        map (\<lambda>(a, b). (Some a, Some b)) (copied new) = wanted src dst (sc + sz) (dc + sz) (remaining - sz)"
      by (rule 1(1) [OF True sl dl _ _ _ _ _ 1(2-5)])
        (use rec rng sz in \<open>auto simp: sz_def chunk_def\<close>)
    then obtain new where new: "cs = chunks @ chunk # new" "\<forall>c\<in>set new. 0 < chunk_size c"
      "map (\<lambda>(a, b). (Some a, Some b)) (copied new) = wanted src dst (sc + sz) (dc + sz) (remaining - sz)" by auto
    have "phys_of src (sc + i) = Some (x + i) \<and> phys_of dst (dc + i) = Some (y + i)"
      if "i \<in> set [0..sz - 1]" for i
      using that locate_run [OF 1(2,3) sl] locate_run [OF 1(4,5) dl] sz by auto
    then have "map (\<lambda>(a, b). (Some a, Some b)) (chunk_pairs chunk) = wanted src dst sc dc sz"
      by (simp add: chunk_pairs_def chunk_def wanted_def)
    then have "map (\<lambda>(a, b). (Some a, Some b)) (copied (chunk # new)) = wanted src dst sc dc remaining"
      using new(3) wanted_split [of sz remaining src dst sc dc] sz by (simp add: copied_def)
    then show ?thesis using new sz by (intro exI [of _ "chunk # new"]) (simp add: chunk_def)
  qed
qed

section \<open>Translation succeeds\<close>

definition ends_after :: "PoolLiveSegment list \<Rightarrow> int \<Rightarrow> nat" where
  "ends_after ss l = length (filter (\<lambda>s. l < logical_offset s + seg_size s) ss)"

lemma ends_after_mono: "l \<le> l' \<Longrightarrow> ends_after ss l' \<le> ends_after ss l"
  by (induction ss) (auto simp: ends_after_def)

lemma ends_after_strict:
  assumes "s \<in> set ss" "l < logical_offset s + seg_size s" "logical_offset s + seg_size s \<le> l'"
  shows "ends_after ss l' < ends_after ss l"
  using assms
proof (induction ss)
  case (Cons a ss)
  have "ends_after ss l' \<le> ends_after ss l" by (rule ends_after_mono) (use Cons.prems in linarith)
  then show ?case using Cons by (auto simp: ends_after_def)
qed simp

lemma segments_ok_total:
  assumes "segments_ok B ss" "ss \<noteq> [] \<or> 0 \<le> B"
  shows "total_size ss \<le> B"
proof -
  let ?ivs = "map (\<lambda>s. (physical_offset s, seg_end s)) ss"
  have "iv_total ?ivs = total_size ss" by (simp add: iv_total_def total_size_def comp_def seg_end_def)
  moreover have "0 \<le> B" using assms by (cases ss) (auto simp: segments_ok_def seg_end_def)
  then have "iv_total ?ivs \<le> B - 0"
    by (intro runs_total_le) (use assms in \<open>auto simp: segments_ok_def sorted_wrt_map iv_ok_def seg_end_def\<close>)
  ultimately show ?thesis by simp
qed

lemma locate_ok:
  assumes "segments_ok B ss" "2 * B \<le> INT64_MAX" "0 \<le> l" "l < total_size ss"
  shows "\<exists>x a. locate ss l = Inr (x, a)"
proof -
  have "ss \<noteq> []" using assms by (auto simp: total_size_def)
  then have "total_size ss \<le> B" using segments_ok_total [OF assms(1)] by simp
  then show ?thesis using assms
    by (intro locate_total [where b = 0 and B = B]) (auto simp: segments_ok_def)
qed

lemma translate_loop_total:
  assumes "segments_ok B src" "segments_ok B dst" "2 * B \<le> INT64_MAX"
    and "0 \<le> sc" "sc + remaining \<le> total_size src" "0 \<le> dc" "dc + remaining \<le> total_size dst"
    and "int (length chunks + ends_after src sc + ends_after dst dc) \<le> kMaxLiveSegments"
  shows "\<exists>cs. translate_loop src dst chunks sc dc remaining = Inr cs"
  using assms
proof (induction src dst chunks sc dc remaining rule: translate_loop.induct)
  case (1 src dst chunks sc dc remaining)
  note prems = 1(2-9)
  show ?case
  proof (cases "remaining > 0")
    case False then show ?thesis by (simp add: translate_loop.simps [of src])
  next
    case True
    obtain x a where sl: "locate src sc = Inr (x, a)" using locate_ok [OF prems(1,3,4)] prems True by auto
    obtain y b where dl: "locate dst dc = Inr (y, b)" using locate_ok [OF prems(2,3,6)] prems True by auto
    define sz where "sz = min remaining (min a b)"
    define chunk where "chunk = \<lparr>src_physical = x, dst_physical = y, chunk_size = sz\<rparr>"
    have sz: "0 < sz" "sz \<le> remaining"
      using locate_pos [OF sl] locate_pos [OF dl] True by (auto simp: sz_def)
    have "src \<noteq> []" "dst \<noteq> []" using prems True by (auto simp: total_size_def)
    then have tot: "total_size src \<le> B" "total_size dst \<le> B" using segments_ok_total prems(1,2) by auto
    have add: "add64 sc sz = Inr (sc + sz)" "add64 dc sz = Inr (dc + sz)"
      using tot prems sz by (intro add64_in_range is_int64_between; linarith)+
    obtain s where s: "s \<in> set src" "logical_offset s \<le> sc" "sc + a = logical_offset s + seg_size s"
      using locate_run [OF _ _ sl, of 0] prems(1) by (auto simp: segments_ok_def)
    obtain d where d: "d \<in> set dst" "logical_offset d \<le> dc" "dc + b = logical_offset d + seg_size d"
      using locate_run [OF _ _ dl, of 0] prems(2) by (auto simp: segments_ok_def)
    have "s \<in> set (filter (\<lambda>s. sc < logical_offset s + seg_size s) src)" using s locate_pos [OF sl] by simp
    then have "0 < ends_after src sc" unfolding ends_after_def by (metis length_pos_if_in_set)
    then have len: "\<not> int (length (chunks @ [chunk])) > kMaxLiveSegments" using prems(8) by simp
    have step: "translate_loop src dst chunks sc dc remaining =
        translate_loop src dst (chunks @ [chunk]) (sc + sz) (dc + sz) (remaining - sz)"
      using True len add
      by (simp add: translate_loop.simps [of src dst chunks] sl dl Let_def sz_def [symmetric] chunk_def)
    show ?thesis
    proof (cases "sz = remaining")
      case True then show ?thesis unfolding step by (simp add: translate_loop.simps [of src])
    next
      case False
      then have "sz = a \<or> sz = b" by (auto simp: sz_def min_def split: if_splits)
      then have "ends_after src (sc + sz) + ends_after dst (dc + sz) < ends_after src sc + ends_after dst dc"
        using ends_after_strict [OF s(1), of sc "sc + sz"] ends_after_strict [OF d(1), of dc "dc + sz"]
          ends_after_mono [of sc "sc + sz" src] ends_after_mono [of dc "dc + sz" dst]
          s d locate_pos [OF sl] locate_pos [OF dl] sz(1) by force
      then have "int (length (chunks @ [chunk]) + ends_after src (sc + sz) + ends_after dst (dc + sz)) \<le> kMaxLiveSegments"
        using prems(8) by simp
      then show ?thesis unfolding step
        by (intro 1(1) [OF True sl dl _ _ _ add(1) add(2) prems(1-3)])
          (use len prems sz in \<open>auto simp: sz_def chunk_def\<close>)
    qed
  qed
qed

section \<open>The address map\<close>

lemma phys_of_none: "tiled_from b ss \<Longrightarrow> sizes_pos ss \<Longrightarrow> l < b \<Longrightarrow> phys_of ss l = None"
  by (induction ss arbitrary: b) auto

lemma phys_of_seg:
  assumes "tiled_from b ss" "sizes_pos ss" "s \<in> set ss" "0 \<le> i" "i < seg_size s"
  shows "phys_of ss (logical_offset s + i) = Some (physical_offset s + i)"
  using assms
proof (induction ss arbitrary: b)
  case (Cons a ss)
  show ?case
  proof (cases "s = a")
    case False
    then have s: "s \<in> set ss" using Cons.prems by simp
    then have "logical_offset a + seg_size a \<le> logical_offset s"
      using tiled_lower [of "b + seg_size a" ss s] Cons.prems by auto
    then show ?thesis using Cons.IH [of "b + seg_size a"] Cons.prems s by auto
  qed (use Cons.prems in simp)
qed simp

lemma phys_of_live:
  assumes "segments_ok B ss" "phys_of ss l = Some x"
  shows "x \<in> (\<Union>s\<in>set ss. seg_bytes s)" "0 \<le> x" "x < B" "0 \<le> l" "l < total_size ss"
proof -
  obtain s where s: "s \<in> set ss" "logical_offset s \<le> l" "l < logical_offset s + seg_size s"
      "x = physical_offset s + (l - logical_offset s)" using phys_of_in [OF assms(2)] by blast
  have ok: "tiled_from 0 ss" "sizes_pos ss" "0 \<le> physical_offset s" "seg_end s \<le> B"
    using assms(1) s(1) by (auto simp: segments_ok_def)
  show "x \<in> (\<Union>s\<in>set ss. seg_bytes s)" using s by (auto simp: seg_bytes_def seg_end_def intro!: bexI [of _ s])
  show "0 \<le> x" "x < B" using s ok by (auto simp: seg_end_def)
  show "0 \<le> l" "l < total_size ss"
    using tiled_lower [OF ok(1,2) s(1)] tiled_upper [OF ok(1,2) s(1)] s by auto
qed

lemma live_phys_of:
  assumes "segments_ok B ss" "x \<in> (\<Union>s\<in>set ss. seg_bytes s)"
  shows "\<exists>l. phys_of ss l = Some x"
proof -
  obtain s where s: "s \<in> set ss" "physical_offset s \<le> x" "x < physical_offset s + seg_size s"
    using assms(2) by (auto simp: seg_bytes_def seg_end_def)
  then show ?thesis
    using phys_of_seg [of 0 ss s "x - physical_offset s"] assms(1) by (auto simp: segments_ok_def)
qed

lemma sorted_wrt_pair:
  assumes "sorted_wrt P xs" "x \<in> set xs" "y \<in> set xs"
  shows "x = y \<or> P x y \<or> P y x"
  using assms by (induction xs) auto

lemma phys_of_inj:
  assumes ok: "segments_ok B ss" and "phys_of ss l = Some x" "phys_of ss l' = Some x"
  shows "l = l'"
proof -
  obtain s where s: "s \<in> set ss" "logical_offset s \<le> l" "l < logical_offset s + seg_size s"
      "x = physical_offset s + (l - logical_offset s)" using phys_of_in [OF assms(2)] by blast
  obtain t where t: "t \<in> set ss" "logical_offset t \<le> l'" "l' < logical_offset t + seg_size t"
      "x = physical_offset t + (l' - logical_offset t)" using phys_of_in [OF assms(3)] by blast
  have "s = t \<or> seg_end s < physical_offset t \<or> seg_end t < physical_offset s"
    using sorted_wrt_pair [OF _ s(1) t(1)] ok by (auto simp: segments_ok_def)
  then show ?thesis using s t by (auto simp: seg_end_def)
qed

lemma run_end_not_live:
  assumes "segments_ok B ss" "s \<in> set ss"
  shows "seg_end s \<notin> (\<Union>t\<in>set ss. seg_bytes t)"
proof
  assume "seg_end s \<in> (\<Union>t\<in>set ss. seg_bytes t)"
  then obtain t where t: "t \<in> set ss" "physical_offset t \<le> seg_end s" "seg_end s < seg_end t"
    by (auto simp: seg_bytes_def)
  have "s = t \<or> seg_end s < physical_offset t \<or> seg_end t < physical_offset s"
    using sorted_wrt_pair [OF _ assms(2) t(1)] assms(1) by (auto simp: segments_ok_def)
  moreover have "0 < seg_size s" using assms by (auto simp: segments_ok_def)
  ultimately show False using t by (auto simp: seg_end_def)
qed

definition holds_range :: "PoolLiveSegment \<Rightarrow> int \<Rightarrow> int \<Rightarrow> bool" where
  "holds_range s po pend \<longleftrightarrow> physical_offset s \<le> po \<and> pend \<le> seg_end s"

lemma find_physical_spec:
  assumes "\<forall>s\<in>set ss. 0 \<le> physical_offset s \<and> 0 < seg_size s \<and> seg_end s \<le> B \<and> 0 \<le> logical_offset s \<and>
      logical_offset s + seg_size s \<le> B"
    and "2 * B \<le> INT64_MAX" "0 < n" "pend = po + n"
  shows "(\<exists>s\<in>set ss. holds_range s po pend \<and>
      find_physical ss po pend n = Inr (logical_offset s + po - physical_offset s, logical_offset s + po - physical_offset s + n)) \<or>
    (\<forall>s\<in>set ss. \<not> holds_range s po pend) \<and> (\<exists>m. find_physical ss po pend n = InvalidArgumentError m)"
  using assms(1)
proof (induction ss)
  case (Cons s ss)
  have s: "0 \<le> physical_offset s" "0 < seg_size s" "seg_end s \<le> B" "0 \<le> logical_offset s"
    "logical_offset s + seg_size s \<le> B" using Cons.prems by auto
  have e: "add64 (physical_offset s) (seg_size s) = Inr (seg_end s)"
    unfolding seg_end_def using s assms(2) by (intro add64_in_range is_int64_between) (auto simp: seg_end_def)
  show ?case
  proof (cases "holds_range s po pend")
    case True
    then have r: "physical_offset s \<le> po" "po + n \<le> physical_offset s + seg_size s"
      using assms(4) by (auto simp: holds_range_def seg_end_def)
    have "add64 (logical_offset s) po = Inr (logical_offset s + po)"
      "sub64 (logical_offset s + po) (physical_offset s) = Inr (logical_offset s + po - physical_offset s)"
      "add64 (logical_offset s + po - physical_offset s) n = Inr (logical_offset s + po - physical_offset s + n)"
      using r s assms(2,3) by (intro add64_in_range sub64_in_range is_int64_between; simp add: seg_end_def; linarith)+
    then have "find_physical (s # ss) po pend n =
        Inr (logical_offset s + po - physical_offset s, logical_offset s + po - physical_offset s + n)"
      using True e by (simp add: holds_range_def)
    then show ?thesis using True by auto
  next
    case False
    then have "find_physical (s # ss) po pend n = find_physical ss po pend n"
      using e by (auto simp: holds_range_def)
    then show ?thesis using Cons False by auto
  qed
qed simp

section \<open>The interface of the expansion\<close>

text \<open>What the reshard planner relies on: an expansion is well formed and lists the live bytes.\<close>

locale live_layout =
  fixes expand :: "'p \<Rightarrow> PoolLiveSegment list status_or" and stride :: "'p \<Rightarrow> int" and live :: "'p \<Rightarrow> int set"
  assumes expand_ok: "expand p = Inr ss \<Longrightarrow> segments_ok (stride p) ss"
    and expand_live: "expand p = Inr ss \<Longrightarrow> (\<Union>s\<in>set ss. seg_bytes s) = live p"
begin

lemma compact_bijection:
  assumes "expand p = Inr ss"
  shows "bij_betw (phys_of ss) (dom (phys_of ss)) (Some ` live p)"
proof -
  note ok = expand_ok [OF assms]
  have "inj_on (phys_of ss) (dom (phys_of ss))"
    using phys_of_inj [OF ok] by (auto simp: inj_on_def dom_def)
  moreover have "phys_of ss ` dom (phys_of ss) = Some ` live p"
    using phys_of_live(1) [OF ok] live_phys_of [OF ok] expand_live [OF assms] by (force simp: dom_def image_iff)
  ultimately show ?thesis by (simp add: bij_betw_def)
qed

lemma translated:
  assumes e: "expand sp = Inr ss" "expand dp = Inr ds"
    and t: "TranslateLiveCopy ss ds src_off dst_off n = Inr cs"
  shows "map (\<lambda>(a, b). (Some a, Some b)) (copied cs) = wanted ss ds src_off dst_off n"
    "(a, b) \<in> set (copied cs) \<Longrightarrow> a \<in> live sp \<and> b \<in> live dp"
    "distinct (map snd (copied cs))"
proof -
  have ok: "tiled_from 0 ss" "sizes_pos ss" "tiled_from 0 ds" "sizes_pos ds"
    using expand_ok [OF e(1)] expand_ok [OF e(2)] by (auto simp: segments_ok_def)
  have l: "translate_loop ss ds [] src_off dst_off n = Inr cs" "0 \<le> n"
    using t by (auto simp: TranslateLiveCopy_def split: if_splits)
  show w: "map (\<lambda>(a, b). (Some a, Some b)) (copied cs) = wanted ss ds src_off dst_off n"
    using translate_loop_sound [OF ok l] by auto
  show "a \<in> live sp \<and> b \<in> live dp" if "(a, b) \<in> set (copied cs)"
  proof -
    have "(Some a, Some b) \<in> set (wanted ss ds src_off dst_off n)" using that unfolding w [symmetric] by force
    then show ?thesis
      using phys_of_live(1) [OF expand_ok [OF e(1)]] phys_of_live(1) [OF expand_ok [OF e(2)]]
        expand_live [OF e(1)] expand_live [OF e(2)] by (auto simp: wanted_def)
  qed
  have snd: "map Some (map snd (copied cs)) = map (\<lambda>i. phys_of ds (dst_off + i)) [0..n - 1]"
    using arg_cong [OF w, of "map snd"] by (simp add: wanted_def comp_def case_prod_unfold)
  have "distinct (map (\<lambda>i. phys_of ds (dst_off + i)) [0..n - 1])"
  proof -
    have "\<exists>x. phys_of ds (dst_off + i) = Some x" if "i \<in> set [0..n - 1]" for i
    proof -
      have "phys_of ds (dst_off + i) \<in> set (map Some (map snd (copied cs)))" using that unfolding snd by simp
      then show ?thesis by auto
    qed
    then have "inj_on (\<lambda>i. phys_of ds (dst_off + i)) (set [0..n - 1])"
      using phys_of_inj [OF expand_ok [OF e(2)]] by (intro inj_onI) (metis add_left_cancel)
    then show ?thesis by (simp add: distinct_map)
  qed
  then have "distinct (map Some (map snd (copied cs)))" unfolding snd .
  then show "distinct (map snd (copied cs))" unfolding distinct_map [of Some] by blast
qed

end

definition pool_live :: "PoolSpec \<Rightarrow> int set" where
  "pool_live p = (\<Union>r\<in>set (regions p). region_live r)"

interpretation pool_segments: live_layout ExpandPoolLiveSegments block_stride_bytes pool_live
  by unfold_locales (simp_all add: Expand_Inr pool_live_def)

section \<open>Properties\<close>

text \<open>
  Property C9. A successful expansion lists non-empty, maximally coalesced runs in physical
  order inside the block stride, numbers them without gaps from zero, holds exactly the live
  bytes of the regions, and no byte is declared live twice: the runs' total is the sum of the
  regions' live sizes.
\<close>

theorem expand_exact:
  assumes "ExpandPoolLiveSegments p = Inr ss"
  shows "segments_ok (block_stride_bytes p) ss \<and> (\<Union>s\<in>set ss. seg_bytes s) = pool_live p \<and>
    total_size ss = (\<Sum>r\<leftarrow>regions p. num_units r * (unit_bytes r * units_per_stride r)) \<and>
    bij_betw (phys_of ss) (dom (phys_of ss)) (Some ` pool_live p)"
  using Expand_Inr [OF assms] pool_segments.compact_bijection [OF assms]
  by (simp add: pool_live_def packed_def)

text \<open>
  On a pool that passed validation and whose block stride is at most half the
  64-bit range, the expansion has no signed overflow: it returns runs or an
  \<open>InvalidArgument\<close> status.
\<close>

theorem expand_defined:
  assumes "PoolSpec_Validate p st = OkStatus" "2 * block_stride_bytes p \<le> INT64_MAX"
  shows "case ExpandPoolLiveSegments p of Inl e \<Rightarrow> err_code e = InvalidArgument | Inr ss \<Rightarrow> True"
  using Expand_outcome [OF assms] by (simp add: outcome_def split: sum.splits)

text \<open>
  Property C8. \<open>TranslateLiveCopy\<close> copies, in order, compact-live byte \<open>src_offset + i\<close> of the
  source to compact-live byte \<open>dst_offset + i\<close> of the destination for every \<open>i < size\<close>, touches
  only live bytes on both sides, and writes no destination byte twice.
\<close>

theorem translate_live_copy_exact:
  assumes "ExpandPoolLiveSegments sp = Inr ss" "ExpandPoolLiveSegments dp = Inr ds"
    and "TranslateLiveCopy ss ds src_offset dst_offset n = Inr cs"
  shows "map (\<lambda>(a, b). (Some a, Some b)) (copied cs) = wanted ss ds src_offset dst_offset n \<and>
    set (copied cs) \<subseteq> pool_live sp \<times> pool_live dp \<and> distinct (map snd (copied cs))"
  using pool_segments.translated [OF assms] by auto

text \<open>
  Property C35. The translation loop ends, and for offsets inside both compact-live spaces it
  succeeds whenever the two expansions together have at most \<open>kMaxLiveSegments\<close> runs: every
  chunk but the last ends at a run boundary, so there are no more chunks than runs.
\<close>

theorem translate_live_copy_total:
  assumes "ExpandPoolLiveSegments sp = Inr ss" "ExpandPoolLiveSegments dp = Inr ds"
    and "2 * block_stride_bytes sp \<le> INT64_MAX" "2 * block_stride_bytes dp \<le> INT64_MAX"
    and "0 \<le> src_offset" "src_offset + n \<le> total_size ss" "0 \<le> dst_offset" "dst_offset + n \<le> total_size ds"
    and "0 < n" "int (length ss + length ds) \<le> kMaxLiveSegments"
  shows "\<exists>cs. TranslateLiveCopy ss ds src_offset dst_offset n = Inr cs"
proof -
  let ?B = "max (block_stride_bytes sp) (block_stride_bytes dp)"
  have "segments_ok ?B ss" "segments_ok ?B ds"
    using Expand_Inr(1) [OF assms(1)] Expand_Inr(1) [OF assms(2)] by (force simp: segments_ok_def)+
  moreover have "ends_after ss src_offset \<le> length ss" "ends_after ds dst_offset \<le> length ds"
    by (simp_all add: ends_after_def)
  ultimately have "\<exists>cs. translate_loop ss ds [] src_offset dst_offset n = Inr cs"
    using assms by (intro translate_loop_total [where B = ?B]) auto
  then show ?thesis using assms by (simp add: TranslateLiveCopy_def)
qed

lemma segments_bounds:
  assumes "segments_ok B ss"
  shows "\<forall>s\<in>set ss. 0 \<le> physical_offset s \<and> 0 < seg_size s \<and> seg_end s \<le> B \<and> 0 \<le> logical_offset s \<and>
      logical_offset s + seg_size s \<le> B"
proof
  fix s assume s: "s \<in> set ss"
  have ok: "tiled_from 0 ss" "sizes_pos ss" using assms by (auto simp: segments_ok_def)
  have "ss \<noteq> []" using s by auto
  then have "total_size ss \<le> B" using segments_ok_total [OF assms] by simp
  then show "0 \<le> physical_offset s \<and> 0 < seg_size s \<and> seg_end s \<le> B \<and> 0 \<le> logical_offset s \<and>
      logical_offset s + seg_size s \<le> B"
    using tiled_lower [OF ok s] tiled_upper [OF ok s] assms s by (auto simp: segments_ok_def)
qed

lemma live_range_in_run:
  assumes ok: "segments_ok B ss" and "0 < n" "{po ..< po + n} \<subseteq> (\<Union>s\<in>set ss. seg_bytes s)"
  shows "\<exists>s\<in>set ss. holds_range s po (po + n)"
proof -
  have "po \<in> {po ..< po + n}" using assms(2) by simp
  with assms(3) have "po \<in> (\<Union>s\<in>set ss. seg_bytes s)" by (rule subsetD)
  then obtain s where s: "s \<in> set ss" "physical_offset s \<le> po" "po < seg_end s"
    by (auto simp: seg_bytes_def)
  have "\<not> seg_end s < po + n"
  proof
    assume "seg_end s < po + n"
    then have "seg_end s \<in> {po ..< po + n}" using s by simp
    then show False using run_end_not_live [OF ok s(1)] assms(3) by blast
  qed
  then show ?thesis using s by (auto simp: holds_range_def)
qed

text \<open>
  Property C36. \<open>PhysicalLiveRangeToLogical\<close> inverts the address map: it succeeds exactly when
  every byte of the physical range is live, and then byte \<open>i\<close> of the returned logical interval
  lies at byte \<open>i\<close> of the physical range; otherwise it reports \<open>InvalidArgument\<close>.
\<close>

theorem physical_range_inverse:
  assumes "ExpandPoolLiveSegments p = Inr ss" "2 * block_stride_bytes p \<le> INT64_MAX"
    and "0 \<le> po" "0 < n" "po + n \<le> INT64_MAX"
  shows "if {po ..< po + n} \<subseteq> pool_live p
    then (\<exists>l. PhysicalLiveRangeToLogical ss po n = Inr (l, l + n) \<and>
      (\<forall>i\<in>{0 ..< n}. phys_of ss (l + i) = Some (po + i)))
    else (\<exists>m. PhysicalLiveRangeToLogical ss po n = InvalidArgumentError m)"
proof -
  have ok: "segments_ok (block_stride_bytes p) ss" and live: "pool_live p = (\<Union>s\<in>set ss. seg_bytes s)"
    using Expand_Inr [OF assms(1)] by (simp_all add: pool_live_def)
  have eq: "PhysicalLiveRangeToLogical ss po n = find_physical ss po (po + n) n"
    using assms by (simp add: PhysicalLiveRangeToLogical_def add64_in_range is_int64_between)
  from find_physical_spec [OF segments_bounds [OF ok] assms(2,4) refl, of po]
  show ?thesis
  proof (elim disjE bexE conjE)
    fix s assume s: "s \<in> set ss" "holds_range s po (po + n)"
      and f: "find_physical ss po (po + n) n =
        Inr (logical_offset s + po - physical_offset s, logical_offset s + po - physical_offset s + n)"
    have "{po ..< po + n} \<subseteq> pool_live p" unfolding live using s by (auto simp: holds_range_def seg_bytes_def)
    moreover have "phys_of ss (logical_offset s + po - physical_offset s + i) = Some (po + i)" if "i \<in> {0 ..< n}" for i
      using phys_of_seg [OF _ _ s(1), of 0 "po - physical_offset s + i"] that s ok
      by (auto simp: segments_ok_def holds_range_def seg_end_def algebra_simps)
    ultimately show ?thesis using f by (auto simp: eq)
  next
    assume "\<forall>s\<in>set ss. \<not> holds_range s po (po + n)" and f: "\<exists>m. find_physical ss po (po + n) n = InvalidArgumentError m"
    then have "\<not> {po ..< po + n} \<subseteq> pool_live p" unfolding live using live_range_in_run [OF ok assms(4)] by blast
    then show ?thesis using f by (simp add: eq)
  qed
qed

subsection \<open>Witnesses\<close>

definition dense_pool :: PoolSpec where
  "dense_pool = \<lparr>pool_tag = ''kv'', storage_index = 0, base_offset_bytes = 0, block_stride_bytes = 64,
     num_blocks = 4, regions = [\<lparr>region_name = ''d'', offset_bytes = 0, stride_bytes = 12, unit_bytes = 12,
       num_units = 4, units_per_stride = 1\<rparr>], dtype_tag = ''bf16''\<rparr>"

definition example_segments :: "PoolLiveSegment list" where
  "example_segments = [\<lparr>logical_offset = 0, physical_offset = 16, seg_size = 16\<rparr>,
     \<lparr>logical_offset = 16, physical_offset = 48, seg_size = 16\<rparr>,
     \<lparr>logical_offset = 32, physical_offset = 80, seg_size = 16\<rparr>]"

definition dense_segments :: "PoolLiveSegment list" where
  "dense_segments = [\<lparr>logical_offset = 0, physical_offset = 0, seg_size = 48\<rparr>]"

lemma example_expands: "ExpandPoolLiveSegments example_pool_spec = Inr example_segments"
  by code_simp

lemma dense_expands: "ExpandPoolLiveSegments dense_pool = Inr dense_segments"
  by code_simp

theorem expand_exact_witness:
  "segments_ok 128 example_segments \<and> (\<Union>s\<in>set example_segments. seg_bytes s) = pool_live example_pool_spec"
proof -
  have "block_stride_bytes example_pool_spec = 128" by code_simp
  with expand_exact [OF example_expands] show ?thesis by simp
qed

theorem expand_defined_witness:
  "case ExpandPoolLiveSegments example_pool_spec of Inl e \<Rightarrow> err_code e = InvalidArgument | Inr ss \<Rightarrow> True"
  by (rule expand_defined [OF example_pool_valid]) code_simp

definition example_chunks :: "LiveCopyChunk list" where
  "example_chunks = [\<lparr>src_physical = 24, dst_physical = 4, chunk_size = 8\<rparr>,
     \<lparr>src_physical = 48, dst_physical = 12, chunk_size = 12\<rparr>]"

lemma example_translation: "TranslateLiveCopy example_segments dense_segments 8 4 20 = Inr example_chunks"
  by code_simp

theorem translate_live_copy_exact_witness:
  "set (copied example_chunks) \<subseteq> pool_live example_pool_spec \<times> pool_live dense_pool \<and>
   distinct (map snd (copied example_chunks))"
  using translate_live_copy_exact [OF example_expands dense_expands example_translation] by blast

theorem translate_live_copy_total_witness:
  "\<exists>cs. TranslateLiveCopy example_segments dense_segments 8 4 20 = Inr cs"
  by (rule translate_live_copy_total [OF example_expands dense_expands]; code_simp)

theorem physical_range_inverse_witness:
  "PhysicalLiveRangeToLogical example_segments 50 10 = Inr (18, 28) \<and>
   (\<exists>m. PhysicalLiveRangeToLogical example_segments 60 10 = InvalidArgumentError m)"
proof -
  have b: "2 * block_stride_bytes example_pool_spec \<le> INT64_MAX" by code_simp
  have hit: "PhysicalLiveRangeToLogical example_segments 50 10 = Inr (18, 28)" by code_simp
  have miss: "\<not> (\<exists>l. PhysicalLiveRangeToLogical example_segments 60 10 = Inr (l, l + 10))"
  proof -
    have "isl (PhysicalLiveRangeToLogical example_segments 60 10)" by code_simp
    then show ?thesis by auto
  qed
  have "(60 :: int) + 10 \<le> INT64_MAX" by code_simp
  from physical_range_inverse [OF example_expands b, of 60 10] this miss hit show ?thesis
    by (auto split: if_splits)
qed

end
