(* ===== verification/Declarations.thy ===== *)
theory Declarations
  imports PoolLayout
begin

text \<open>
  \<open>kv_cache/raiden_id.h\<close> and \<open>kv_cache/reshard/declaration_types.{h,cc}\<close>: the identity of a
  work unit with its lexicographic order (\<open>RequestBlockRegistry::RaidenIdLess\<close>), the byte-span
  declarations, and their protobuf and printed forms.
\<close>

section \<open>Work-unit identity\<close>

datatype RaidenId = RaidenId
  (job_name: string) (job_replica_id: string) (data_name: string) (data_replica_idx: int)

definition RaidenId_empty :: "RaidenId \<Rightarrow> bool" where
  "RaidenId_empty i \<longleftrightarrow> job_name i = [] \<and> job_replica_id i = [] \<and> data_name i = [] \<and> data_replica_idx i = 0"

text \<open>\<open>std::tie\<close> of the four fields.\<close>

definition tie :: "RaidenId \<Rightarrow> string \<times> string \<times> string \<times> int" where
  "tie i = (job_name i, job_replica_id i, data_name i, data_replica_idx i)"

lemma tie_inject: "tie a = tie b \<Longrightarrow> a = b"
  by (cases a; cases b) (simp add: tie_def)

instantiation RaidenId :: linorder
begin

definition less_eq_RaidenId :: "RaidenId \<Rightarrow> RaidenId \<Rightarrow> bool" where
  "less_eq_RaidenId a b \<longleftrightarrow> tie a \<le> tie b"

definition less_RaidenId :: "RaidenId \<Rightarrow> RaidenId \<Rightarrow> bool" where
  "less_RaidenId a b \<longleftrightarrow> tie a < tie b"

instance
  by intro_classes (auto simp: less_eq_RaidenId_def less_RaidenId_def intro: tie_inject)

end

record RaidenIdProto =
  job_name_pb :: string
  job_replica_id_pb :: string
  data_name_pb :: string
  data_replica_idx_pb :: int

definition RaidenIdFromProto :: "RaidenIdProto \<Rightarrow> RaidenId" where
  "RaidenIdFromProto q =
     RaidenId (job_name_pb q) (job_replica_id_pb q) (data_name_pb q) (data_replica_idx_pb q)"

definition RaidenIdToProto :: "RaidenId \<Rightarrow> RaidenIdProto" where
  "RaidenIdToProto i = \<lparr>job_name_pb = job_name i, job_replica_id_pb = job_replica_id i,
     data_name_pb = data_name i, data_replica_idx_pb = data_replica_idx i\<rparr>"

lemma RaidenId_proto_inverse [simp]: "RaidenIdFromProto (RaidenIdToProto i) = i"
  by (simp add: RaidenIdFromProto_def RaidenIdToProto_def)

definition PythonRepr :: "RaidenId \<Rightarrow> string" where
  "PythonRepr i = ''RaidenId(job_name='' @ [CHR 0x27] @ job_name i @ [CHR 0x27] @ '', job_replica_id='' @ [CHR 0x27] @
     job_replica_id i @ [CHR 0x27] @ '', data_name='' @ [CHR 0x27] @ data_name i @ [CHR 0x27] @
     '', data_replica_idx='' @ dec (data_replica_idx i) @ '')''"

definition PythonReprIntList :: "int list \<Rightarrow> string" where
  "PythonReprIntList values = ''['' @ str_join '', '' (map dec values) @ '']''"

section \<open>Declared byte spans\<close>

record PoolByteSpan =
  src_block_ordinal :: int
  src_offset_bytes :: int
  dst_block_index :: int
  dst_offset_bytes :: int
  size_bytes :: int
  src_stride_bytes :: int
  dst_stride_bytes :: int
  span_count :: int

record PoolSpanRegistration =
  span_tag :: string
  span_block_ids :: "int list"
  spans :: "PoolByteSpan list"
  declared_bytes :: int
  dst_space_version :: int

end
