(* ===== verification/WorkUnits.thy ===== *)
theory WorkUnits
  imports Declarations
begin

text \<open>
  \<open>kv_cache/reshard/work_unit_directory.{h,cc}\<close>: the insertion-ordered directory of work
  units, held in two parallel vectors. Registration replaces the whole record of a unit and
  keeps its position; the metadata message is rebuilt from the record. All calls run under
  the controller mutex, so each is one atomic step.
\<close>

record VariableMetadataProto =
  var_name :: string
  var_shape :: "int list"
  var_mesh_shape :: "int list"
  var_layout :: "int list"
  var_item_size :: int
  var_layer_idx :: int
  var_sharding_spec :: "string list"

record WorkUnitRegistration =
  reg_unit :: RaidenId
  reg_shards :: "string list"
  reg_control_plane_rpc_address :: "string option"
  reg_mesh_shape :: "int list option"
  reg_layout :: "int list option"
  reg_global_shape :: "int list option"
  reg_itemsize :: "int option"
  reg_pool_manifest :: "PoolSpecProto list option"
  reg_layout_fingerprint :: "string option"
  reg_page_tokens :: "int option"
  reg_transfer_parallelism :: "int option"
  reg_transfer_rank :: "int option"
  reg_variables :: "VariableMetadataProto list option"

record Record =
  rec_shards :: "string list"
  rec_control_plane_rpc_address :: string
  rec_mesh_shape :: "int list option"
  rec_layout :: "int list option"
  rec_global_shape :: "int list option"
  rec_itemsize :: "int option"
  rec_pools :: "PoolSpecProto list option"
  rec_layout_fingerprint :: "string option"
  rec_page_tokens :: "int option"
  rec_transfer_parallelism :: "int option"
  rec_transfer_rank :: "int option"
  rec_variables :: "VariableMetadataProto list option"

record WorkUnitDirectory =
  order :: "RaidenId list"
  records :: "Record list"

record RegisterWorkUnitRequest =
  unit_pb :: RaidenIdProto
  shards_pb :: "string list"
  control_plane_rpc_address_pb :: string
  itemsize_pb :: int
  mesh_shape_pb :: "int list"
  layout_pb :: "int list"
  global_shape_pb :: "int list"
  pools_pb :: "PoolSpecProto list"
  layout_fingerprint_pb :: string
  page_tokens_pb :: int
  transfer_parallelism_pb :: int
  transfer_rank_pb :: int
  variables_pb :: "VariableMetadataProto list"
  mesh_axes_pb :: "string list"

definition WorkUnitDirectory_init :: WorkUnitDirectory where
  "WorkUnitDirectory_init = \<lparr>order = [], records = []\<rparr>"

section \<open>Operations\<close>

fun value_or :: "'a option \<Rightarrow> 'a \<Rightarrow> 'a" where
  "value_or (Some x) d = x"
| "value_or None d = d"

definition validate_shape :: "WorkUnitRegistration \<Rightarrow> status" where
  "validate_shape reg =
     (if reg_mesh_shape reg \<noteq> None \<or> reg_layout reg \<noteq> None \<or> reg_global_shape reg \<noteq> None then
        if reg_mesh_shape reg = None \<or> reg_layout reg = None \<or> reg_global_shape reg = None then
          InvalidArgumentError (''If any of mesh_shape, layout, or global_shape is provided, '' @
            ''all of them must be provided to enable centralized slice planning.'')
        else case reg_itemsize reg of
          None \<Rightarrow> InvalidArgumentError (''itemsize must be provided and must be greater than 0 if '' @
                    ''resharding metadata is provided.'')
        | Some n \<Rightarrow> if n \<le> 0 then
              InvalidArgumentError (''itemsize must be provided and must be greater than 0 if '' @
                ''resharding metadata is provided.'')
            else OkStatus
      else OkStatus)"

definition validate_reshard :: "WorkUnitRegistration \<Rightarrow> status" where
  "validate_reshard reg =
     (if reg_pool_manifest reg \<noteq> None \<or> reg_layout_fingerprint reg \<noteq> None \<or> reg_page_tokens reg \<noteq> None \<or>
         reg_transfer_parallelism reg \<noteq> None \<or> reg_transfer_rank reg \<noteq> None then
        (case (reg_pool_manifest reg, reg_layout_fingerprint reg, reg_page_tokens reg,
               reg_transfer_parallelism reg, reg_transfer_rank reg) of
           (Some pools, Some fingerprint, Some tokens, Some par, Some rank) \<Rightarrow>
             if pools = [] then InvalidArgumentError ''pool_manifest must not be empty''
             else if fingerprint = [] then InvalidArgumentError ''layout_fingerprint must not be empty''
             else if tokens \<le> 0 then InvalidArgumentError ''page_tokens must be positive''
             else if par \<le> 0 then InvalidArgumentError ''transfer_parallelism must be positive''
             else if rank < 0 then InvalidArgumentError ''transfer_rank must be non-negative''
             else if rank \<ge> par then InvalidArgumentError ''transfer_rank must be less than transfer_parallelism''
             else OkStatus
         | _ \<Rightarrow> InvalidArgumentError (''pool_manifest, layout_fingerprint, page_tokens, '' @
                 ''transfer_parallelism, and transfer_rank must be provided together for pool resharding''))
      else OkStatus)"

definition Validate :: "WorkUnitRegistration \<Rightarrow> status" where
  "Validate reg =
     and_then (validate_shape reg) (\<lambda>_.
     and_then (validate_reshard reg) (\<lambda>_.
     if reg_shards reg = [] \<or> [] \<in> set (reg_shards reg) then
       InvalidArgumentError ''shards must contain at least one non-empty endpoint''
     else OkStatus))"

fun find_from :: "RaidenId list \<Rightarrow> nat \<Rightarrow> RaidenId \<Rightarrow> int" where
  "find_from [] i u = -1"
| "find_from (x # xs) i u = (if x = u then int i else find_from xs (Suc i) u)"

definition FindLocked :: "WorkUnitDirectory \<Rightarrow> RaidenId \<Rightarrow> int" where
  "FindLocked d u = find_from (order d) 0 u"

definition make_record :: "WorkUnitRegistration \<Rightarrow> Record" where
  "make_record reg =
     \<lparr>rec_shards = reg_shards reg,
      rec_control_plane_rpc_address = value_or (reg_control_plane_rpc_address reg) [],
      rec_mesh_shape = reg_mesh_shape reg, rec_layout = reg_layout reg,
      rec_global_shape = reg_global_shape reg, rec_itemsize = reg_itemsize reg,
      rec_pools = reg_pool_manifest reg,
      rec_layout_fingerprint = (if reg_pool_manifest reg \<noteq> None then reg_layout_fingerprint reg else None),
      rec_page_tokens = (if reg_pool_manifest reg \<noteq> None then reg_page_tokens reg else None),
      rec_transfer_parallelism = (if reg_pool_manifest reg \<noteq> None then reg_transfer_parallelism reg else None),
      rec_transfer_rank = (if reg_pool_manifest reg \<noteq> None then reg_transfer_rank reg else None),
      rec_variables = reg_variables reg\<rparr>"

definition RegisterLocked :: "WorkUnitDirectory \<Rightarrow> WorkUnitRegistration \<Rightarrow> WorkUnitDirectory" where
  "RegisterLocked d reg =
     (let idx = FindLocked d (reg_unit reg) in
      if idx < 0 then d\<lparr>order := order d @ [reg_unit reg], records := records d @ [make_record reg]\<rparr>
      else d\<lparr>records := (records d)[nat idx := make_record reg]\<rparr>)"

definition metadata_proto :: "RaidenId \<Rightarrow> Record \<Rightarrow> RegisterWorkUnitRequest" where
  "metadata_proto u r =
     \<lparr>unit_pb = RaidenIdToProto u, shards_pb = rec_shards r,
      control_plane_rpc_address_pb = rec_control_plane_rpc_address r,
      itemsize_pb = value_or (rec_itemsize r) 0,
      mesh_shape_pb = value_or (rec_mesh_shape r) [], layout_pb = value_or (rec_layout r) [],
      global_shape_pb = value_or (rec_global_shape r) [], pools_pb = value_or (rec_pools r) [],
      layout_fingerprint_pb = value_or (rec_layout_fingerprint r) [],
      page_tokens_pb = value_or (rec_page_tokens r) 0,
      transfer_parallelism_pb = value_or (rec_transfer_parallelism r) 0,
      transfer_rank_pb = value_or (rec_transfer_rank r) 0,
      variables_pb = value_or (rec_variables r) [], mesh_axes_pb = []\<rparr>"

definition MetadataProtoLocked :: "WorkUnitDirectory \<Rightarrow> RaidenId \<Rightarrow> RegisterWorkUnitRequest status_or" where
  "MetadataProtoLocked d u =
     (let idx = FindLocked d u in
      if idx < 0 then InvalidArgumentError (''Work unit is not registered: '' @ PythonRepr u)
      else Inr (metadata_proto u (records d ! nat idx)))"

definition AllMetadata :: "WorkUnitDirectory \<Rightarrow> RegisterWorkUnitRequest list" where
  "AllMetadata d = concat (map (\<lambda>u. case MetadataProtoLocked d u of Inl _ \<Rightarrow> [] | Inr q \<Rightarrow> [q]) (order d))"

definition LocalMetadata :: "WorkUnitDirectory \<Rightarrow> RaidenId list \<Rightarrow> RegisterWorkUnitRequest list status_or" where
  "LocalMetadata d units =
     (let missing = map PythonRepr (filter (\<lambda>u. FindLocked d u < 0) units) in
      if missing \<noteq> [] then
        InvalidArgumentError (''Work units are not registered: ['' @ str_join '', '' missing @ '']'')
      else foldM (\<lambda>result u. and_then (MetadataProtoLocked d u) (\<lambda>q. Inr (result @ [q]))) [] units)"

definition IsRegisteredLocked :: "WorkUnitDirectory \<Rightarrow> RaidenId \<Rightarrow> bool" where
  "IsRegisteredLocked d u \<longleftrightarrow> FindLocked d u \<ge> 0"

definition PoolManifestLocked :: "WorkUnitDirectory \<Rightarrow> RaidenId \<Rightarrow> PoolSpecProto list" where
  "PoolManifestLocked d u =
     (let idx = FindLocked d u in
      if idx < 0 then [] else value_or (rec_pools (records d ! nat idx)) [])"

section \<open>Refinement to a map\<close>

definition dir_inv :: "WorkUnitDirectory \<Rightarrow> bool" where
  "dir_inv d \<longleftrightarrow> length (order d) = length (records d) \<and> distinct (order d)"

definition dir_map :: "WorkUnitDirectory \<Rightarrow> RaidenId \<Rightarrow> Record option" where
  "dir_map d = map_of (zip (order d) (records d))"

lemma find_from_None: "u \<notin> set xs \<Longrightarrow> find_from xs i u = -1"
  by (induction xs arbitrary: i) auto

lemma find_from_nth:
  "distinct xs \<Longrightarrow> k < length xs \<Longrightarrow> find_from xs i (xs ! k) = int (i + k)"
proof (induction xs arbitrary: i k)
  case (Cons x xs)
  then show ?case by (cases k) auto
qed simp

lemma FindLocked_cases:
  assumes "dir_inv d"
  obtains (absent) "FindLocked d u = -1" "u \<notin> set (order d)" "dir_map d u = None"
  | (present) k where "FindLocked d u = int k" "k < length (order d)" "order d ! k = u"
      "dir_map d u = Some (records d ! k)"
proof (cases "u \<in> set (order d)")
  case False
  then have "dir_map d u = None" using assms by (simp add: dir_map_def dir_inv_def map_of_zip_is_None)
  then show ?thesis using absent False find_from_None [of u "order d" 0] by (simp add: FindLocked_def)
next
  case True
  then obtain k where k: "k < length (order d)" "order d ! k = u" by (auto simp: in_set_conv_nth)
  have "dir_map d u = Some (records d ! k)"
    unfolding dir_map_def k(2) [symmetric] by (rule map_of_zip_nth) (use assms k in \<open>auto simp: dir_inv_def\<close>)
  then show ?thesis
    using present [of k] k find_from_nth [of "order d" k 0] assms by (simp add: FindLocked_def dir_inv_def)
qed

lemma MetadataProtoLocked_eq:
  assumes "dir_inv d"
  shows "MetadataProtoLocked d u = (case dir_map d u of
      None \<Rightarrow> InvalidArgumentError (''Work unit is not registered: '' @ PythonRepr u)
    | Some r \<Rightarrow> Inr (metadata_proto u r))"
  by (rule FindLocked_cases [OF assms, of u]) (simp_all add: MetadataProtoLocked_def)

lemma PoolManifestLocked_eq:
  assumes "dir_inv d"
  shows "PoolManifestLocked d u = (case dir_map d u of None \<Rightarrow> [] | Some r \<Rightarrow> value_or (rec_pools r) [])"
  by (rule FindLocked_cases [OF assms, of u]) (simp_all add: PoolManifestLocked_def)

lemma IsRegisteredLocked_iff: "dir_inv d \<Longrightarrow> IsRegisteredLocked d u \<longleftrightarrow> dir_map d u \<noteq> None"
  by (rule FindLocked_cases [of d u]) (simp_all add: IsRegisteredLocked_def)

lemma map_of_zip_update:
  "distinct xs \<Longrightarrow> length xs = length ys \<Longrightarrow> k < length xs \<Longrightarrow>
   map_of (zip xs (ys[k := v])) = (map_of (zip xs ys))(xs ! k \<mapsto> v)"
proof (induction xs arbitrary: ys k)
  case (Cons x xs)
  then obtain y ys' where ys: "ys = y # ys'" by (cases ys) auto
  show ?case
  proof (cases k)
    case 0 then show ?thesis by (auto simp: ys fun_eq_iff)
  next
    case (Suc j)
    then have "xs ! j \<noteq> x" using Cons.prems nth_mem by fastforce
    then show ?thesis using Cons ys Suc by (auto simp: fun_eq_iff)
  qed
qed simp

lemma RegisterLocked_map:
  assumes "dir_inv d"
  shows "dir_inv (RegisterLocked d reg)"
    "dir_map (RegisterLocked d reg) = (dir_map d)(reg_unit reg \<mapsto> make_record reg)"
    "order (RegisterLocked d reg) = (if reg_unit reg \<in> set (order d) then order d else order d @ [reg_unit reg])"
proof -
  have "dir_inv (RegisterLocked d reg) \<and>
    dir_map (RegisterLocked d reg) = (dir_map d)(reg_unit reg \<mapsto> make_record reg) \<and>
    order (RegisterLocked d reg) = (if reg_unit reg \<in> set (order d) then order d else order d @ [reg_unit reg])"
  proof (rule FindLocked_cases [OF assms, of "reg_unit reg"])
    assume a: "FindLocked d (reg_unit reg) = -1" "reg_unit reg \<notin> set (order d)" "dir_map d (reg_unit reg) = None"
    have "map_of (zip (order d @ [reg_unit reg]) (records d @ [make_record reg])) =
        [reg_unit reg \<mapsto> make_record reg] ++ dir_map d"
      using assms by (simp add: dir_inv_def dir_map_def)
    also have "\<dots> = dir_map d ++ [reg_unit reg \<mapsto> make_record reg]"
      by (rule map_add_comm) (use a(3) in auto)
    finally have "map_of (zip (order d @ [reg_unit reg]) (records d @ [make_record reg])) =
        (dir_map d)(reg_unit reg \<mapsto> make_record reg)" by simp
    then show ?thesis using assms a by (simp add: RegisterLocked_def dir_inv_def dir_map_def)
  next
    fix k assume k: "FindLocked d (reg_unit reg) = int k" "k < length (order d)" "order d ! k = reg_unit reg"
    have "map_of (zip (order d) ((records d)[k := make_record reg])) =
        (dir_map d)(reg_unit reg \<mapsto> make_record reg)"
      unfolding dir_map_def k(3) [symmetric]
      using assms k(2) by (intro map_of_zip_update) (auto simp: dir_inv_def)
    moreover have "reg_unit reg \<in> set (order d)" using k nth_mem by metis
    ultimately show ?thesis using assms k by (simp add: RegisterLocked_def dir_inv_def dir_map_def)
  qed
  then show "dir_inv (RegisterLocked d reg)"
    "dir_map (RegisterLocked d reg) = (dir_map d)(reg_unit reg \<mapsto> make_record reg)"
    "order (RegisterLocked d reg) = (if reg_unit reg \<in> set (order d) then order d else order d @ [reg_unit reg])"
    by blast+
qed

section \<open>The directory as a replacement map\<close>

text \<open>Registration as replacement: what a client that reads the directory relies on.\<close>

locale replacement_map =
  fixes good :: "'s \<Rightarrow> bool" and add :: "'s \<Rightarrow> 'r \<Rightarrow> 's" and key :: "'r \<Rightarrow> 'k"
    and view :: "'s \<Rightarrow> 'k \<Rightarrow> 'v option" and content :: "'r \<Rightarrow> 'v"
  assumes good_add: "good s \<Longrightarrow> good (add s r)"
    and view_add: "good s \<Longrightarrow> view (add s r) = (view s)(key r \<mapsto> content r)"
begin

lemma good_run: "good s \<Longrightarrow> good (foldl add s rs)"
  by (induction rs arbitrary: s) (simp_all add: good_add)

lemma view_run:
  assumes "good s"
  shows "view (foldl add s rs) k =
    (case find (\<lambda>r. key r = k) (rev rs) of None \<Rightarrow> view s k | Some r \<Rightarrow> Some (content r))"
proof (induction rs rule: rev_induct)
  case (snoc r rs)
  then show ?case using good_run [OF assms, of rs] by (simp add: view_add)
qed simp

end

interpretation units: replacement_map dir_inv RegisterLocked reg_unit dir_map make_record
  by unfold_locales (simp_all add: RegisterLocked_map)

lemma init_dir_inv: "dir_inv WorkUnitDirectory_init"
  by (simp add: dir_inv_def WorkUnitDirectory_init_def)

lemma init_dir_map: "dir_map WorkUnitDirectory_init u = None"
  by (simp add: dir_map_def WorkUnitDirectory_init_def)

lemma order_run:
  "order (foldl RegisterLocked WorkUnitDirectory_init regs) = rev (remdups (rev (map reg_unit regs)))"
proof (induction regs rule: rev_induct)
  case Nil then show ?case by (simp add: WorkUnitDirectory_init_def)
next
  case (snoc r rs)
  have "dir_inv (foldl RegisterLocked WorkUnitDirectory_init rs)" by (rule units.good_run [OF init_dir_inv])
  from RegisterLocked_map(3) [OF this] snoc show ?case by simp
qed

text \<open>
  Property C34. After any sequence of registrations the directory answers for a unit with the
  message built from its last registration alone (nothing of an earlier one survives), refuses
  a unit that was never registered, and lists the units in the order of their first
  registration.
\<close>

theorem directory_last_registration:
  "let d = foldl RegisterLocked WorkUnitDirectory_init regs in
   MetadataProtoLocked d u =
     (case find (\<lambda>r. reg_unit r = u) (rev regs) of
        None \<Rightarrow> InvalidArgumentError (''Work unit is not registered: '' @ PythonRepr u)
      | Some r \<Rightarrow> Inr (metadata_proto u (make_record r))) \<and>
   map unit_pb (AllMetadata d) = map RaidenIdToProto (rev (remdups (rev (map reg_unit regs))))"
proof -
  let ?d = "foldl RegisterLocked WorkUnitDirectory_init regs"
  have inv: "dir_inv ?d" by (rule units.good_run [OF init_dir_inv])
  have view: "dir_map ?d u = (case find (\<lambda>r. reg_unit r = u) (rev regs) of None \<Rightarrow> None | Some r \<Rightarrow> Some (make_record r))" for u
    unfolding units.view_run [OF init_dir_inv] by (simp add: init_dir_map split: option.split)
  have "map unit_pb (AllMetadata ?d) = map RaidenIdToProto (order ?d)"
  proof -
    have "\<exists>r. MetadataProtoLocked ?d v = Inr (metadata_proto v r)" if "v \<in> set (order ?d)" for v
      using that inv by (cases rule: FindLocked_cases [OF inv, of v]) (auto simp: MetadataProtoLocked_eq [OF inv])
    then have "map unit_pb (concat (map (\<lambda>u. case MetadataProtoLocked ?d u of Inl _ \<Rightarrow> [] | Inr q \<Rightarrow> [q]) vs)) =
        map RaidenIdToProto vs" if "set vs \<subseteq> set (order ?d)" for vs
      using that by (induction vs) (force simp: metadata_proto_def)+
    then show ?thesis by (simp add: AllMetadata_def)
  qed
  then show ?thesis using view by (simp add: MetadataProtoLocked_eq [OF inv] order_run split: option.split)
qed

end
