(* ===== verification/GlobalRegistry.thy ===== *)
theory GlobalRegistry
  imports Declarations
begin

text \<open>
  \<open>kv_cache/global_registry/global_registry_server.{h,cc}\<close>: the registry service. Every RPC
  body runs under the service mutex, so each is one atomic step on the state;
  \<open>PullOwned\<close> releases the mutex between its batches and is modelled over the states and
  clock readings its critical sections see. The clock is an argument of each operation.
  \<open>reg_inv\<close> is the invariant that ties the owner index to the registry.
\<close>

section \<open>Time\<close>

text \<open>
  \<open>absl::Time\<close> and \<open>absl::Duration\<close>: ticks of a quarter nanosecond, with infinities. Addition
  saturates when the whole seconds leave the 64-bit range.
\<close>

datatype Time = InfinitePast | At int | InfiniteFuture

datatype Duration = MinusInfiniteDuration | Ticks int | InfiniteDuration

definition ticks_per_second :: int where
  "ticks_per_second = 4000000000"

definition Seconds :: "int \<Rightarrow> Duration" where
  "Seconds n = Ticks (n * ticks_per_second)"

definition at_saturated :: "int \<Rightarrow> Time" where
  "at_saturated t =
     (if t div ticks_per_second > INT64_MAX then InfiniteFuture
      else if t div ticks_per_second < INT64_MIN then InfinitePast
      else At t)"

definition time_plus :: "int \<Rightarrow> Duration \<Rightarrow> Time" where
  "time_plus now d =
     (case d of MinusInfiniteDuration \<Rightarrow> InfinitePast | Ticks t \<Rightarrow> at_saturated (now + t)
      | InfiniteDuration \<Rightarrow> InfiniteFuture)"

text \<open>\<open>expire_time <= now\<close>.\<close>

definition expired :: "Time \<Rightarrow> int \<Rightarrow> bool" where
  "expired t now = (case t of InfinitePast \<Rightarrow> True | At x \<Rightarrow> x \<le> now | InfiniteFuture \<Rightarrow> False)"

section \<open>State\<close>

record RegistryEntry =
  raiden_id :: RaidenId
  block_id :: int
  expire_time :: Time

record StoreRecord =
  store_server_address :: string
  controller_address :: string
  store_expire_time :: Time
  ttl :: Duration
  kv_pool_group :: string
  evict_tier :: int
  free_blocks :: int

record KVTransferSpec =
  block_bytes :: "int list"
  num_kv_shards :: int
  num_workers :: int

record GlobalRegistry =
  default_ttl :: Duration
  pull_owned_batch_size :: int
  registry :: "(string, RegistryEntry list) amap"
  round_robin_indices :: "(string, nat) amap"
  owner_index :: "(RaidenId, string list) amap"
  store_registry :: "(RaidenId, StoreRecord) amap"
  transfer_specs :: "(string, KVTransferSpec) amap"

definition GlobalRegistry_init :: "Duration \<Rightarrow> int \<Rightarrow> GlobalRegistry" where
  "GlobalRegistry_init d batch =
     \<lparr>default_ttl = d, pull_owned_batch_size = (if batch > 0 then batch else 4096),
      registry = [], round_robin_indices = [], owner_index = [], store_registry = [], transfer_specs = []\<rparr>"

text \<open>Messages; an absent sub-message is \<open>None\<close>.\<close>

record KVBlockMetadata =
  meta_raiden_id :: "RaidenIdProto option"
  meta_block_id :: int

record RegisterEntry =
  prefix_hash :: string
  metadata :: "KVBlockMetadata option"
  ttl_seconds :: int

record StoreInfo =
  info_raiden_id :: "RaidenIdProto option"
  info_store_server_address :: string
  info_controller_address :: string
  info_ttl_seconds :: int
  info_kv_pool_group :: string
  info_evict_tier :: int

record PullOwnedEntry =
  out_prefix_hash :: string
  out_block_id :: int
  remaining_ttl_seconds :: int

record simple_response =
  success :: bool
  error_message :: string

abbreviation ok_response :: simple_response where
  "ok_response \<equiv> \<lparr>success = True, error_message = []\<rparr>"

abbreviation failure :: "string \<Rightarrow> simple_response" where
  "failure m \<equiv> \<lparr>success = False, error_message = m\<rparr>"

section \<open>Block entries\<close>

definition EraseFromOwnerIndex :: "RaidenId \<Rightarrow> string \<Rightarrow> GlobalRegistry \<Rightarrow> GlobalRegistry" where
  "EraseFromOwnerIndex rid hash s =
     (case map_of (owner_index s) rid of
        None \<Rightarrow> s
      | Some hs \<Rightarrow>
          let hs' = filter (\<lambda>h. h \<noteq> hash) hs in
          if hs' = [] then s\<lparr>owner_index := del rid (owner_index s)\<rparr>
          else s\<lparr>owner_index := put rid hs' (owner_index s)\<rparr>)"

definition missing_owner :: "RaidenIdProto option \<Rightarrow> bool" where
  "missing_owner i = (case i of None \<Rightarrow> True | Some q \<Rightarrow> job_name_pb q = [])"

definition validate_entry :: "RegisterEntry \<Rightarrow> string option" where
  "validate_entry e =
     (if prefix_hash e = [] then Some ''prefix_hash cannot be empty''
      else if (case metadata e of None \<Rightarrow> True | Some m \<Rightarrow> missing_owner (meta_raiden_id m)) then
        Some ''metadata.raiden_id.job_name cannot be empty''
      else None)"

fun first_error :: "RegisterEntry list \<Rightarrow> string option" where
  "first_error [] = None"
| "first_error (e # es) = (case validate_entry e of Some m \<Rightarrow> Some m | None \<Rightarrow> first_error es)"

fun update_entry :: "RaidenId \<Rightarrow> int \<Rightarrow> Time \<Rightarrow> RegistryEntry list \<Rightarrow> RegistryEntry list option" where
  "update_entry rid bid t [] = None"
| "update_entry rid bid t (e # es) =
     (if raiden_id e = rid then Some (e\<lparr>block_id := bid, expire_time := t\<rparr> # es)
      else map_option (\<lambda>es'. e # es') (update_entry rid bid t es))"

definition entry_owner :: "RegisterEntry \<Rightarrow> RaidenId" where
  "entry_owner e = RaidenIdFromProto (the (meta_raiden_id (the (metadata e))))"

definition entry_block :: "RegisterEntry \<Rightarrow> int" where
  "entry_block e = meta_block_id (the (metadata e))"

definition entry_expiry :: "GlobalRegistry \<Rightarrow> int \<Rightarrow> RegisterEntry \<Rightarrow> Time" where
  "entry_expiry s now e =
     time_plus now (if ttl_seconds e > 0 then Seconds (ttl_seconds e) else default_ttl s)"

definition apply_entry :: "int \<Rightarrow> GlobalRegistry \<Rightarrow> RegisterEntry \<Rightarrow> GlobalRegistry" where
  "apply_entry now s e =
     (let hash = prefix_hash e; rid = entry_owner e; t = entry_expiry s now e;
          entries = (case map_of (registry s) hash of None \<Rightarrow> [] | Some es \<Rightarrow> es)
      in case update_entry rid (entry_block e) t entries of
           Some es \<Rightarrow> s\<lparr>registry := put hash es (registry s)\<rparr>
         | None \<Rightarrow>
             s\<lparr>registry := put hash
                  (entries @ [\<lparr>raiden_id = rid, block_id = entry_block e, expire_time = t\<rparr>]) (registry s),
               owner_index := put rid
                  (let hs = (case map_of (owner_index s) rid of None \<Rightarrow> [] | Some hs \<Rightarrow> hs)
                   in if hash \<in> set hs then hs else hs @ [hash]) (owner_index s)\<rparr>)"

definition Register :: "GlobalRegistry \<Rightarrow> int \<Rightarrow> RegisterEntry list \<Rightarrow> simple_response \<times> GlobalRegistry" where
  "Register s now entries =
     (case first_error entries of
        Some m \<Rightarrow> (failure m, s)
      | None \<Rightarrow> (ok_response, foldl (apply_entry now) s entries))"

fun Lookup :: "GlobalRegistry \<Rightarrow> int \<Rightarrow> string list \<Rightarrow> (RaidenIdProto \<times> int) list \<times> GlobalRegistry" where
  "Lookup s now [] = ([], s)"
| "Lookup s now (hash # hashes) =
     (case map_of (registry s) hash of
        None \<Rightarrow> ([], s)
      | Some entries \<Rightarrow>
          let valid = filter (\<lambda>e. \<not> expired (expire_time e) now) entries in
          if valid = [] then ([], s)
          else
            let idx = (case map_of (round_robin_indices s) hash of None \<Rightarrow> 0 | Some i \<Rightarrow> i) mod length valid;
                picked = valid ! idx;
                s' = s\<lparr>round_robin_indices := put hash (Suc idx) (round_robin_indices s)\<rparr>;
                rest = Lookup s' now hashes
            in ((RaidenIdToProto (raiden_id picked), block_id picked) # fst rest, snd rest))"

text \<open>\<open>absl::BytesToHexString\<close>.\<close>

definition hex_digit :: "nat \<Rightarrow> char" where
  "hex_digit n = (if n < 10 then char_of (48 + n) else char_of (87 + n))"

definition BytesToHexString :: "string \<Rightarrow> string" where
  "BytesToHexString bs =
     concat (map (\<lambda>c. [hex_digit (of_char c div 16), hex_digit (of_char c mod 16)]) bs)"

definition unregister_hash ::
  "RaidenId \<Rightarrow> GlobalRegistry \<times> bool \<times> string list \<Rightarrow> string \<Rightarrow> GlobalRegistry \<times> bool \<times> string list" where
  "unregister_hash rid st hash =
     (case st of (s, overall, errors) \<Rightarrow>
        if hash = [] then (s, overall, errors)
        else case map_of (registry s) hash of
          None \<Rightarrow> (s, overall, errors)
        | Some entries \<Rightarrow>
            let entries' = filter (\<lambda>e. raiden_id e \<noteq> rid) entries;
                s1 = s\<lparr>registry := put hash entries' (registry s)\<rparr>;
                same = (length entries' = length entries);
                s2 = (if same then s1 else EraseFromOwnerIndex rid hash s1);
                s3 = (if entries' = [] then
                        s2\<lparr>registry := del hash (registry s2),
                           round_robin_indices := del hash (round_robin_indices s2)\<rparr>
                      else s2)
            in (s3, overall \<and> \<not> same,
                if same then errors @ [BytesToHexString hash @ '': raiden_id mismatch or not found'']
                else errors))"

definition Unregister ::
  "GlobalRegistry \<Rightarrow> RaidenIdProto option \<Rightarrow> string list \<Rightarrow> simple_response \<times> GlobalRegistry" where
  "Unregister s owner hashes =
     (if missing_owner owner then (failure ''raiden_id cannot be empty'', s)
      else case foldl (unregister_hash (RaidenIdFromProto (the owner))) (s, True, []) hashes of
        (s', overall, errors) \<Rightarrow>
          (\<lparr>success = overall, error_message = str_join ''; '' errors\<rparr>, s'))"

section \<open>PullOwned\<close>

text \<open>Whole seconds, rounded towards zero by \<open>ToInt64Seconds\<close> and then up, at least one.\<close>

definition remaining_seconds :: "Time \<Rightarrow> int \<Rightarrow> int" where
  "remaining_seconds t now =
     (case t of
        At x \<Rightarrow>
          let remaining = x - now;
              seconds = remaining div ticks_per_second
          in max (if seconds * ticks_per_second < remaining then seconds + 1 else seconds) 1
      | _ \<Rightarrow> 0)"

definition pull_hash :: "GlobalRegistry \<Rightarrow> int \<Rightarrow> RaidenId \<Rightarrow> string \<Rightarrow> PullOwnedEntry list" where
  "pull_hash s now rid hash =
     (case map_of (registry s) hash of
        None \<Rightarrow> []
      | Some entries \<Rightarrow>
          (case find (\<lambda>e. raiden_id e = rid) entries of
             None \<Rightarrow> []
           | Some e \<Rightarrow>
               if expired (expire_time e) now then []
               else [\<lparr>out_prefix_hash = hash, out_block_id = block_id e,
                      remaining_ttl_seconds = remaining_seconds (expire_time e) now\<rparr>]))"

definition pull_batch :: "GlobalRegistry \<Rightarrow> int \<Rightarrow> RaidenId \<Rightarrow> string list \<Rightarrow> PullOwnedEntry list" where
  "pull_batch s now rid hashes = concat (map (pull_hash s now rid) hashes)"

text \<open>
  The batch loop: batch \<open>i\<close> sees the state and clock \<open>env i\<close>, and the client accepts or refuses
  write \<open>i\<close>. Result: the batches written and the final status.
\<close>

function pull_loop ::
  "nat \<Rightarrow> RaidenId \<Rightarrow> (nat \<Rightarrow> GlobalRegistry \<times> int) \<Rightarrow> (nat \<Rightarrow> bool) \<Rightarrow> nat \<Rightarrow> string list \<Rightarrow>
   PullOwnedEntry list list \<times> status" where
  "pull_loop batch rid env accepts i hashes =
     (if hashes = [] \<or> batch = 0 then ([], OkStatus)
      else
        let entries = pull_batch (fst (env i)) (snd (env i)) rid (take batch hashes) in
        if entries \<noteq> [] \<and> \<not> accepts i then
          ([], Inl (Error Cancelled ''PullOwned stream closed by client''))
        else
          let rest = pull_loop batch rid env accepts (Suc i) (drop batch hashes) in
          ((if entries = [] then [] else [entries]) @ fst rest, snd rest))"
  by pat_completeness auto
termination
  by (relation "measure (\<lambda>(batch, rid, env, accepts, i, hashes). length hashes)") auto

declare pull_loop.simps [simp del]

definition PullOwned ::
  "GlobalRegistry \<Rightarrow> RaidenIdProto option \<Rightarrow> (nat \<Rightarrow> GlobalRegistry \<times> int) \<Rightarrow> (nat \<Rightarrow> bool) \<Rightarrow>
   PullOwnedEntry list list \<times> status" where
  "PullOwned s owner env accepts =
     (if missing_owner owner then ([], InvalidArgumentError ''raiden_id cannot be empty'')
      else case map_of (owner_index s) (RaidenIdFromProto (the owner)) of
        None \<Rightarrow> ([], OkStatus)
      | Some hashes \<Rightarrow>
          pull_loop (nat (pull_owned_batch_size s)) (RaidenIdFromProto (the owner)) env accepts 0 hashes)"

section \<open>Stores\<close>

definition RegisterStore :: "GlobalRegistry \<Rightarrow> int \<Rightarrow> StoreInfo option \<Rightarrow> simple_response \<times> GlobalRegistry" where
  "RegisterStore s now store =
     (case store of
        None \<Rightarrow> (failure ''store.raiden_id.job_name cannot be empty'', s)
      | Some i \<Rightarrow>
          if missing_owner (info_raiden_id i) then
            (failure ''store.raiden_id.job_name cannot be empty'', s)
          else if info_store_server_address i = [] then
            (failure ''store.store_server_address cannot be empty'', s)
          else
            let t = (if info_ttl_seconds i > 0 then Seconds (info_ttl_seconds i) else InfiniteDuration);
                r = \<lparr>store_server_address = info_store_server_address i,
                     controller_address = info_controller_address i,
                     store_expire_time = time_plus now t, ttl = t,
                     kv_pool_group = info_kv_pool_group i, evict_tier = info_evict_tier i,
                     free_blocks = 0\<rparr>
            in (ok_response,
                s\<lparr>store_registry := put (RaidenIdFromProto (the (info_raiden_id i))) r (store_registry s)\<rparr>))"

definition live_store :: "GlobalRegistry \<Rightarrow> int \<Rightarrow> RaidenId \<Rightarrow> StoreRecord option" where
  "live_store s now rid =
     (case map_of (store_registry s) rid of
        None \<Rightarrow> None
      | Some r \<Rightarrow> if expired (store_expire_time r) now then None else Some r)"

definition store_coordinates :: "RaidenId \<Rightarrow> StoreRecord \<Rightarrow> StoreInfo" where
  "store_coordinates rid r =
     \<lparr>info_raiden_id = Some (RaidenIdToProto rid), info_store_server_address = store_server_address r,
      info_controller_address = controller_address r, info_ttl_seconds = 0,
      info_kv_pool_group = [], info_evict_tier = 0\<rparr>"

text \<open>The response: \<open>None\<close> is \<open>found = false\<close>.\<close>

definition ResolveStore :: "GlobalRegistry \<Rightarrow> int \<Rightarrow> RaidenIdProto option \<Rightarrow> StoreInfo option status_or" where
  "ResolveStore s now owner =
     (if missing_owner owner then InvalidArgumentError ''raiden_id cannot be empty''
      else
        let rid = RaidenIdFromProto (the owner) in
        Inr (map_option (store_coordinates rid) (live_store s now rid)))"

definition UnregisterStore :: "GlobalRegistry \<Rightarrow> RaidenIdProto option \<Rightarrow> simple_response \<times> GlobalRegistry" where
  "UnregisterStore s owner =
     (if missing_owner owner then (failure ''raiden_id cannot be empty'', s)
      else
        let rid = RaidenIdFromProto (the owner);
            s' = s\<lparr>store_registry := del rid (store_registry s)\<rparr>
        in if map_of (store_registry s) rid = None then
             (failure ''no store registered for that raiden_id'', s')
           else (ok_response, s'))"

text \<open>\<open>Heartbeat\<close> reads the clock twice; the result is the \<open>registered\<close> flag.\<close>

definition Heartbeat ::
  "GlobalRegistry \<Rightarrow> int \<Rightarrow> int \<Rightarrow> RaidenIdProto option \<Rightarrow> int \<Rightarrow> bool status_or \<times> GlobalRegistry" where
  "Heartbeat s now1 now2 owner free =
     (if missing_owner owner then (InvalidArgumentError ''raiden_id cannot be empty'', s)
      else
        let rid = RaidenIdFromProto (the owner) in
        case live_store s now1 rid of
          None \<Rightarrow> (Inr False, s)
        | Some r \<Rightarrow>
            let r1 = r\<lparr>free_blocks := free\<rparr>;
                r2 = (if ttl r1 \<noteq> InfiniteDuration then r1\<lparr>store_expire_time := time_plus now2 (ttl r1)\<rparr> else r1)
            in (Inr True, s\<lparr>store_registry := put rid r2 (store_registry s)\<rparr>))"

definition placement_candidates ::
  "GlobalRegistry \<Rightarrow> int \<Rightarrow> StoreRecord \<Rightarrow> (RaidenId \<times> StoreRecord) list" where
  "placement_candidates s now caller =
     filter (\<lambda>(rid, r). kv_pool_group r = kv_pool_group caller \<and> evict_tier r > evict_tier caller \<and>
               \<not> expired (store_expire_time r) now) (store_registry s)"

definition INT32_MAX :: int where
  "INT32_MAX = 2147483647"

definition target_tier :: "(RaidenId \<times> StoreRecord) list \<Rightarrow> int" where
  "target_tier cs = foldl (\<lambda>t c. min t (evict_tier (snd c))) INT32_MAX cs"

definition GetPlacementTargets ::
  "GlobalRegistry \<Rightarrow> int \<Rightarrow> RaidenIdProto option \<Rightarrow> int \<Rightarrow> StoreInfo list status_or" where
  "GetPlacementTargets s now owner max_targets =
     (if missing_owner owner then InvalidArgumentError ''raiden_id cannot be empty''
      else
        let limit = (if max_targets > 0 then max_targets else 3) in
        case live_store s now (RaidenIdFromProto (the owner)) of
          None \<Rightarrow> Inl (Error NotFound ''no live store registration for the caller; RegisterStore again'')
        | Some caller \<Rightarrow>
            if kv_pool_group caller = [] then
              FailedPreconditionError (''caller registered without a kv_pool_group, so it has no peers to '' @
                ''place onto'')
            else
              let candidates = placement_candidates s now caller;
                  nearest = filter (\<lambda>c. evict_tier (snd c) = target_tier candidates) candidates;
                  sorted = sort_key (\<lambda>c. - free_blocks (snd c)) nearest
              in Inr (map (\<lambda>(rid, r). store_coordinates rid r) (take (nat limit) sorted)))"

section \<open>Transfer specifications\<close>

fun bad_block_bytes :: "nat \<Rightarrow> int list \<Rightarrow> string" where
  "bad_block_bytes i [] = []"
| "bad_block_bytes i (b # bs) =
     (if b \<le> 0 then ''block_arrays['' @ dec (int i) @ ''].block_bytes must be positive''
      else bad_block_bytes (Suc i) bs)"

definition SpecValidationError :: "KVTransferSpec \<Rightarrow> string" where
  "SpecValidationError spec =
     (if block_bytes spec = [] then ''spec must declare at least one block array''
      else if bad_block_bytes 0 (block_bytes spec) \<noteq> [] then bad_block_bytes 0 (block_bytes spec)
      else if num_kv_shards spec \<le> 0 then ''num_kv_shards must be positive''
      else if num_workers spec \<le> 0 then ''num_workers must be positive''
      else [])"

fun block_difference :: "nat \<Rightarrow> int list \<Rightarrow> int list \<Rightarrow> string" where
  "block_difference i (r # rs) (b # bs) =
     (if b \<noteq> r then ''block_arrays['' @ dec (int i) @ ''].block_bytes is '' @ dec b @
        '', registered spec has '' @ dec r
      else block_difference (Suc i) rs bs)"
| "block_difference i _ _ = []"

definition SpecDifference :: "KVTransferSpec \<Rightarrow> KVTransferSpec \<Rightarrow> string" where
  "SpecDifference registered incoming =
     (if length (block_bytes incoming) \<noteq> length (block_bytes registered) then
        ''block_arrays has '' @ dec (int (length (block_bytes incoming))) @
        '' entries, registered spec has '' @ dec (int (length (block_bytes registered)))
      else if block_difference 0 (block_bytes registered) (block_bytes incoming) \<noteq> [] then
        block_difference 0 (block_bytes registered) (block_bytes incoming)
      else if num_kv_shards incoming \<noteq> num_kv_shards registered then
        ''num_kv_shards is '' @ dec (num_kv_shards incoming) @ '', registered spec has '' @
        dec (num_kv_shards registered)
      else if num_workers incoming \<noteq> num_workers registered then
        ''num_workers is '' @ dec (num_workers incoming) @ '', registered spec has '' @
        dec (num_workers registered)
      else [])"

text \<open>The response carries the registered specification on a mismatch.\<close>

definition RegisterKVTransferSpec ::
  "GlobalRegistry \<Rightarrow> KVTransferSpec option \<Rightarrow> string \<Rightarrow>
   (simple_response \<times> KVTransferSpec option) \<times> GlobalRegistry" where
  "RegisterKVTransferSpec s spec grp =
     (case spec of
        None \<Rightarrow> ((failure ''spec cannot be empty'', None), s)
      | Some sp \<Rightarrow>
          if grp = [] then ((failure ''kv_pool_group cannot be empty'', None), s)
          else if SpecValidationError sp \<noteq> [] then ((failure (SpecValidationError sp), None), s)
          else case map_of (transfer_specs s) grp of
            None \<Rightarrow> ((ok_response, None), s\<lparr>transfer_specs := put grp sp (transfer_specs s)\<rparr>)
          | Some registered \<Rightarrow>
              if SpecDifference registered sp = [] then ((ok_response, None), s)
              else ((failure (''KVTransferSpec mismatch in kv_pool_group '' @ [CHR 0x27] @ grp @
                       [CHR 0x27] @ '': '' @ SpecDifference registered sp), Some registered), s))"

definition GetKVTransferSpec :: "GlobalRegistry \<Rightarrow> string \<Rightarrow> KVTransferSpec option status_or" where
  "GetKVTransferSpec s grp =
     (if grp = [] then InvalidArgumentError ''kv_pool_group cannot be empty''
      else Inr (map_of (transfer_specs s) grp))"

definition GetOwnerIndexSizeForTest :: "GlobalRegistry \<Rightarrow> RaidenId \<Rightarrow> nat" where
  "GetOwnerIndexSizeForTest s rid =
     (case map_of (owner_index s) rid of None \<Rightarrow> 0 | Some hs \<Rightarrow> length hs)"

section \<open>Cleanup\<close>

definition erase_expired_owners :: "int \<Rightarrow> string \<Rightarrow> RegistryEntry list \<Rightarrow> GlobalRegistry \<Rightarrow> GlobalRegistry" where
  "erase_expired_owners now hash entries s =
     foldl (\<lambda>s e. if expired (expire_time e) now then EraseFromOwnerIndex (raiden_id e) hash s else s) s entries"

definition cleanup_hash :: "int \<Rightarrow> GlobalRegistry \<times> string list \<Rightarrow> string \<Rightarrow> GlobalRegistry \<times> string list" where
  "cleanup_hash now st hash =
     (case st of (s, keys_to_remove) \<Rightarrow>
        let entries = the (map_of (registry s) hash);
            s1 = erase_expired_owners now hash entries s;
            entries' = filter (\<lambda>e. \<not> expired (expire_time e) now) entries
        in (s1\<lparr>registry := put hash entries' (registry s1)\<rparr>,
            if entries' = [] then keys_to_remove @ [hash] else keys_to_remove))"

definition remove_key :: "GlobalRegistry \<Rightarrow> string \<Rightarrow> GlobalRegistry" where
  "remove_key s key = s\<lparr>registry := del key (registry s), round_robin_indices := del key (round_robin_indices s)\<rparr>"

definition CleanupExpiredEntries :: "GlobalRegistry \<Rightarrow> int \<Rightarrow> GlobalRegistry" where
  "CleanupExpiredEntries s now =
     (let r = foldl (cleanup_hash now) (s, []) (keys (registry s));
          s1 = foldl remove_key (fst r) (snd r);
          stores_to_remove = map fst (filter (\<lambda>(rid, r). expired (store_expire_time r) now) (store_registry s1))
      in foldl (\<lambda>s rid. s\<lparr>store_registry := del rid (store_registry s)\<rparr>) s1 stores_to_remove)"

section \<open>Invariant\<close>

declare map_of_eq_None_iff [simp del] map_of_eq_Some_iff [simp del]

definition ent :: "GlobalRegistry \<Rightarrow> string \<Rightarrow> RegistryEntry list" where
  "ent s h = (case map_of (registry s) h of None \<Rightarrow> [] | Some es \<Rightarrow> es)"

definition own :: "GlobalRegistry \<Rightarrow> RaidenId \<Rightarrow> string list" where
  "own s r = (case map_of (owner_index s) r of None \<Rightarrow> [] | Some hs \<Rightarrow> hs)"

definition maps_ok :: "GlobalRegistry \<Rightarrow> bool" where
  "maps_ok s \<longleftrightarrow> amap_ok (registry s) \<and> amap_ok (round_robin_indices s) \<and> amap_ok (owner_index s) \<and>
     amap_ok (store_registry s) \<and> amap_ok (transfer_specs s)"

text \<open>One entry per hash and owner; the owner index lists exactly the owned hashes.\<close>

definition owners_ok :: "GlobalRegistry \<Rightarrow> bool" where
  "owners_ok s \<longleftrightarrow>
     (\<forall>h. distinct (map raiden_id (ent s h))) \<and>
     (\<forall>r. distinct (own s r) \<and> map_of (owner_index s) r \<noteq> Some []) \<and>
     (\<forall>r h. h \<in> set (own s r) \<longleftrightarrow> r \<in> raiden_id ` set (ent s h))"

definition keys_live :: "GlobalRegistry \<Rightarrow> bool" where
  "keys_live s \<longleftrightarrow> (\<forall>h. map_of (registry s) h \<noteq> Some []) \<and>
     dom (map_of (round_robin_indices s)) \<subseteq> dom (map_of (registry s))"

definition reg_inv :: "GlobalRegistry \<Rightarrow> bool" where
  "reg_inv s \<longleftrightarrow> maps_ok s \<and> owners_ok s \<and> keys_live s"

lemma ent_update [simp]:
  "ent (s\<lparr>owner_index := x\<rparr>) = ent s" "ent (s\<lparr>round_robin_indices := y\<rparr>) = ent s"
  "ent (s\<lparr>store_registry := z\<rparr>) = ent s" "ent (s\<lparr>transfer_specs := w\<rparr>) = ent s"
  "ent (s\<lparr>registry := put h es (registry s)\<rparr>) = (ent s)(h := es)"
  "ent (s\<lparr>registry := del h (registry s)\<rparr>) = (ent s)(h := [])"
  by (auto simp: ent_def fun_eq_iff)

lemma own_update [simp]:
  "own (s\<lparr>registry := x\<rparr>) = own s" "own (s\<lparr>round_robin_indices := y\<rparr>) = own s"
  "own (s\<lparr>store_registry := z\<rparr>) = own s" "own (s\<lparr>transfer_specs := w\<rparr>) = own s"
  "own (s\<lparr>owner_index := put r hs (owner_index s)\<rparr>) = (own s)(r := hs)"
  "own (s\<lparr>owner_index := del r (owner_index s)\<rparr>) = (own s)(r := [])"
  by (auto simp: own_def fun_eq_iff)

lemma own_upd2 [simp]:
  "own (s\<lparr>registry := x, owner_index := put r hs (owner_index s)\<rparr>) = (own s)(r := hs)"
  by (auto simp: own_def fun_eq_iff)

lemma ent_upd2 [simp]:
  "ent (s\<lparr>registry := put h es (registry s), owner_index := x\<rparr>) = (ent s)(h := es)"
  "ent (s\<lparr>registry := put h es (registry s), round_robin_indices := y\<rparr>) = (ent s)(h := es)"
  "ent (s\<lparr>registry := del h (registry s), round_robin_indices := y\<rparr>) = (ent s)(h := [])"
  by (auto simp: ent_def fun_eq_iff)

subsection \<open>Register\<close>

definition upsert :: "RaidenId \<Rightarrow> int \<Rightarrow> Time \<Rightarrow> RegistryEntry list \<Rightarrow> RegistryEntry list" where
  "upsert rid b t es = (case update_entry rid b t es of Some es' \<Rightarrow> es'
     | None \<Rightarrow> es @ [\<lparr>raiden_id = rid, block_id = b, expire_time = t\<rparr>])"

lemma update_entry_None: "update_entry rid b t es = None \<longleftrightarrow> rid \<notin> raiden_id ` set es"
  by (induction es) auto

lemma update_entry_ids: "update_entry rid b t es = Some es' \<Longrightarrow> map raiden_id es' = map raiden_id es"
  by (induction es arbitrary: es') (auto split: if_splits)

lemma upsert_ids:
  "map raiden_id (upsert rid b t es) =
     (if rid \<in> raiden_id ` set es then map raiden_id es else map raiden_id es @ [rid])"
proof (cases "update_entry rid b t es")
  case None
  then show ?thesis using update_entry_None [of rid b t es] by (simp add: upsert_def)
next
  case (Some es')
  then have "rid \<in> raiden_id ` set es" using update_entry_None [of rid b t es] by auto
  then show ?thesis using Some update_entry_ids [OF Some] by (simp add: upsert_def)
qed

lemma upsert_owners: "raiden_id ` set (upsert rid b t es) = insert rid (raiden_id ` set es)"
  using arg_cong [OF upsert_ids, of set rid b t es] by (auto split: if_splits)

lemma upsert_nonempty: "upsert rid b t es \<noteq> []"
proof
  assume "upsert rid b t es = []"
  then show False using upsert_ids [of rid b t es] by (cases "es = []") (auto split: if_splits)
qed

lemma apply_entry_ent: "ent (apply_entry now s e) =
    (ent s)(prefix_hash e := upsert (entry_owner e) (entry_block e) (entry_expiry s now e) (ent s (prefix_hash e)))"
  unfolding apply_entry_def Let_def upsert_def ent_def [of s, symmetric]
  by (auto split: option.split)

lemma apply_entry_own:
  assumes "owners_ok s"
  shows "set (own (apply_entry now s e) r) = set (own s r) \<union> (if r = entry_owner e then {prefix_hash e} else {})"
    "distinct (own (apply_entry now s e) r)" "map_of (owner_index (apply_entry now s e)) r \<noteq> Some []"
proof -
  let ?h = "prefix_hash e" and ?r = "entry_owner e"
  let ?u = "update_entry ?r (entry_block e) (entry_expiry s now e) (ent s ?h)"
  have a: "apply_entry now s e = (case ?u of
      Some es \<Rightarrow> s\<lparr>registry := put ?h es (registry s)\<rparr>
    | None \<Rightarrow> s\<lparr>registry := put ?h (ent s ?h @ [\<lparr>raiden_id = ?r, block_id = entry_block e,
          expire_time = entry_expiry s now e\<rparr>]) (registry s),
        owner_index := put ?r (if ?h \<in> set (own s ?r) then own s ?r else own s ?r @ [?h]) (owner_index s)\<rparr>)"
    unfolding apply_entry_def Let_def ent_def own_def by (rule refl)
  have d: "distinct (own s r)" "map_of (owner_index s) r \<noteq> Some []" for r using assms by (auto simp: owners_ok_def)
  have in_own: "?u \<noteq> None \<Longrightarrow> ?h \<in> set (own s ?r)"
    using assms by (simp add: owners_ok_def update_entry_None)
  have ne: "(if ?h \<in> set (own s ?r) then own s ?r else own s ?r @ [?h]) \<noteq> []" by auto
  show "set (own (apply_entry now s e) r) = set (own s r) \<union> (if r = ?r then {?h} else {})"
    "distinct (own (apply_entry now s e) r)" "map_of (owner_index (apply_entry now s e)) r \<noteq> Some []"
    using d in_own ne unfolding a by (cases ?u; auto)+
qed

lemma apply_entry_inv:
  assumes "reg_inv s" shows "reg_inv (apply_entry now s e)"
proof -
  have o: "owners_ok s" and k: "keys_live s" and m: "maps_ok s" using assms by (auto simp: reg_inv_def)
  let ?s = "apply_entry now s e"
  have "owners_ok ?s"
    unfolding owners_ok_def
  proof (intro conjI allI)
    fix h show "distinct (map raiden_id (ent ?s h))"
      using o by (auto simp: apply_entry_ent upsert_ids owners_ok_def)
  next
    fix r h show "h \<in> set (own ?s r) \<longleftrightarrow> r \<in> raiden_id ` set (ent ?s h)"
      unfolding apply_entry_own [OF o]
      using o by (auto simp: apply_entry_ent upsert_owners owners_ok_def)
  qed (simp_all add: apply_entry_own [OF o])
  moreover have "maps_ok ?s" using m by (auto simp: apply_entry_def Let_def maps_ok_def split: option.split)
  moreover have "keys_live ?s"
  proof -
    have "registry ?s = put (prefix_hash e) (upsert (entry_owner e) (entry_block e) (entry_expiry s now e)
        (ent s (prefix_hash e))) (registry s)" "round_robin_indices ?s = round_robin_indices s"
      by (auto simp: apply_entry_def Let_def upsert_def ent_def split: option.split)
    then show ?thesis using k by (auto simp: keys_live_def upsert_nonempty)
  qed
  ultimately show ?thesis by (simp add: reg_inv_def)
qed

lemma Register_inv:
  assumes "reg_inv s" shows "reg_inv (snd (Register s now es))"
proof -
  have "reg_inv (foldl (apply_entry now) s es)"
    using assms by (induction es arbitrary: s) (simp_all add: apply_entry_inv)
  then show ?thesis using assms by (simp add: Register_def split: option.split)
qed

subsection \<open>The owner index\<close>

lemma Erase_frame [simp]:
  "registry (EraseFromOwnerIndex rid h s) = registry s"
  "round_robin_indices (EraseFromOwnerIndex rid h s) = round_robin_indices s"
  "store_registry (EraseFromOwnerIndex rid h s) = store_registry s"
  "transfer_specs (EraseFromOwnerIndex rid h s) = transfer_specs s"
  "ent (EraseFromOwnerIndex rid h s) = ent s"
  by (auto simp: EraseFromOwnerIndex_def Let_def ent_def split: option.split)

lemma Erase_own: "own (EraseFromOwnerIndex rid h s) = (own s)(rid := filter (\<lambda>x. x \<noteq> h) (own s rid))"
  by (auto simp: EraseFromOwnerIndex_def Let_def own_def fun_eq_iff split: option.split)

lemma Erase_maps:
  "maps_ok s \<Longrightarrow> maps_ok (EraseFromOwnerIndex rid h s)"
  "(\<And>r. map_of (owner_index s) r \<noteq> Some []) \<Longrightarrow> map_of (owner_index (EraseFromOwnerIndex rid h s)) r \<noteq> Some []"
  by (auto simp: EraseFromOwnerIndex_def Let_def maps_ok_def split: option.split)

text \<open>Removing from one hash the entries of a set of owners keeps index and registry in step.\<close>

lemma owners_ok_remove:
  assumes o: "owners_ok s" and e: "ent s' = (ent s)(h := filter P (ent s h))"
    and own: "\<And>r. set (own s' r) = set (own s r) - (if \<exists>e\<in>set (ent s h). \<not> P e \<and> raiden_id e = r then {h} else {})"
    and d: "\<And>r. distinct (own s' r)" "\<And>r. map_of (owner_index s') r \<noteq> Some []"
  shows "owners_ok s'"
  unfolding owners_ok_def
proof (intro conjI allI)
  have dist: "distinct (map raiden_id (ent s x))" for x using o by (simp add: owners_ok_def)
  fix x show "distinct (map raiden_id (ent s' x))" using dist by (simp add: e distinct_map_filter)
  fix r
  have uniq: "a = b" if "a \<in> set (ent s h)" "b \<in> set (ent s h)" "raiden_id a = raiden_id b" for a b
    using dist [of h] that by (auto simp: distinct_map inj_on_def)
  show "x \<in> set (own s' r) \<longleftrightarrow> r \<in> raiden_id ` set (ent s' x)"
    using o uniq unfolding own by (auto simp: e owners_ok_def image_iff)
qed (use d in auto)

lemma unregister_hash_state:
  assumes inv: "reg_inv s" and st: "unregister_hash rid (s, ov, errs) h = (s', ov', errs')"
  shows "reg_inv s'" "ent s' = (if h = [] then ent s else (ent s)(h := filter (\<lambda>e. raiden_id e \<noteq> rid) (ent s h)))"
proof -
  have o: "owners_ok s" and k: "keys_live s" and m: "maps_ok s" using inv by (auto simp: reg_inv_def)
  have "reg_inv s' \<and> ent s' = (if h = [] then ent s else (ent s)(h := filter (\<lambda>e. raiden_id e \<noteq> rid) (ent s h)))"
  proof (cases "h = [] \<or> map_of (registry s) h = None")
    case True
    then have "s' = s" using st by (auto simp: unregister_hash_def split: if_splits)
    moreover have "h = [] \<or> ent s h = []" using True by (auto simp: ent_def)
    ultimately show ?thesis using inv by auto
  next
    case False
    then obtain es where es: "map_of (registry s) h = Some es" and h: "h \<noteq> []" by auto
    then have ent: "ent s h = es" by (simp add: ent_def)
    define es' where "es' = filter (\<lambda>e. raiden_id e \<noteq> rid) es"
    define s2 where "s2 = (if length es' = length es then s\<lparr>registry := put h es' (registry s)\<rparr>
        else EraseFromOwnerIndex rid h (s\<lparr>registry := put h es' (registry s)\<rparr>))"
    have s': "s' = (if es' = [] then s2\<lparr>registry := del h (registry s2),
        round_robin_indices := del h (round_robin_indices s2)\<rparr> else s2)"
      using arg_cong [OF st, of fst]
      unfolding unregister_hash_def Let_def es'_def s2_def
      by (simp only: prod.case es h option.case if_False fst_conv)
    have e2: "ent s2 = (ent s)(h := es')" by (simp add: s2_def)
    have ent': "ent s' = (ent s)(h := es')" unfolding s' using e2 by auto
    have none: "rid \<notin> raiden_id ` set es" if "length es' = length es"
    proof -
      have "es' = es" using that filter_id_conv unfolding es'_def by (metis length_filter_less linorder_neq_iff)
      then show ?thesis unfolding es'_def by (auto simp: filter_id_conv)
    qed
    have own': "own s' = (own s)(rid := filter (\<lambda>x. x \<noteq> h) (own s rid))"
    proof (cases "length es' = length es")
      case True
      then have "h \<notin> set (own s rid)" using none o ent by (simp add: owners_ok_def)
      then have "filter (\<lambda>x. x \<noteq> h) (own s rid) = own s rid" by (auto simp: filter_id_conv)
      moreover have "s2 = s\<lparr>registry := put h es' (registry s)\<rparr>" unfolding s2_def by (rule if_P [OF True])
      ultimately show ?thesis by (simp add: s')
    next
      case False
      then have "s2 = EraseFromOwnerIndex rid h (s\<lparr>registry := put h es' (registry s)\<rparr>)"
        unfolding s2_def by (rule if_not_P)
      then show ?thesis by (simp add: s' Erase_own)
    qed
    have "owners_ok s'"
    proof (rule owners_ok_remove [OF o, where h = h and P = "\<lambda>e. raiden_id e \<noteq> rid"])
      show "ent s' = (ent s)(h := filter (\<lambda>e. raiden_id e \<noteq> rid) (ent s h))" by (simp add: ent' ent es'_def)
      fix r
      have "h \<in> set (own s rid) \<longleftrightarrow> (\<exists>e\<in>set (ent s h). raiden_id e = rid)"
        using o by (auto simp: owners_ok_def)
      then show "set (own s' r) = set (own s r) - (if \<exists>e\<in>set (ent s h). \<not> raiden_id e \<noteq> rid \<and> raiden_id e = r then {h} else {})"
        by (auto simp: own')
      show "distinct (own s' r)" using o by (simp add: own' owners_ok_def)
      have "map_of (owner_index (s\<lparr>registry := x\<rparr>)) q \<noteq> Some []" for q x using o by (simp add: owners_ok_def)
      then have "map_of (owner_index s2) r \<noteq> Some []"
        using Erase_maps(2) [of "s\<lparr>registry := put h es' (registry s)\<rparr>"] by (simp add: s2_def)
      moreover have "owner_index s' = owner_index s2" by (simp add: s')
      ultimately show "map_of (owner_index s') r \<noteq> Some []" by simp
    qed
    moreover have "maps_ok s'"
    proof -
      have "maps_ok (s\<lparr>registry := put h es' (registry s)\<rparr>)" using m by (simp add: maps_ok_def)
      then have "maps_ok s2" using Erase_maps(1) by (simp add: s2_def)
      then show ?thesis by (simp add: s' maps_ok_def)
    qed
    moreover have "keys_live s'"
      using k es by (auto simp: s' s2_def keys_live_def split: if_splits)
    ultimately show ?thesis using h by (simp add: reg_inv_def ent' es'_def ent)
  qed
  then show "reg_inv s'" "ent s' = (if h = [] then ent s else (ent s)(h := filter (\<lambda>e. raiden_id e \<noteq> rid) (ent s h)))"
    by blast+
qed

lemma unregister_fold:
  assumes "reg_inv s" "foldl (unregister_hash rid) (s, ov, errs) hs = (s', ov', errs')"
  shows "reg_inv s' \<and> ent s' = (\<lambda>h. if h \<noteq> [] \<and> h \<in> set hs then filter (\<lambda>e. raiden_id e \<noteq> rid) (ent s h) else ent s h)"
  using assms
proof (induction hs arbitrary: s ov errs)
  case (Cons h hs)
  obtain s1 ov1 errs1 where st: "unregister_hash rid (s, ov, errs) h = (s1, ov1, errs1)" by (cases "unregister_hash rid (s, ov, errs) h")
  note 1 = unregister_hash_state [OF Cons.prems(1) st]
  have "foldl (unregister_hash rid) (s1, ov1, errs1) hs = (s', ov', errs')" using Cons.prems(2) st by simp
  from Cons.IH [OF 1(1) this] show ?case by (auto simp: 1(2) fun_eq_iff)
qed auto

lemma Unregister_inv: "reg_inv s \<Longrightarrow> reg_inv (snd (Unregister s owner hs))"
  using unregister_fold [of s _ True "[]" hs] by (auto simp: Unregister_def split: prod.split)

subsection \<open>Lookup\<close>

lemma Lookup_frame:
  "registry (snd (Lookup s now hs)) = registry s \<and> owner_index (snd (Lookup s now hs)) = owner_index s \<and>
   store_registry (snd (Lookup s now hs)) = store_registry s \<and>
   transfer_specs (snd (Lookup s now hs)) = transfer_specs s"
proof (induction hs arbitrary: s)
  case (Cons h hs)
  then show ?case by (simp add: Let_def split: option.split)
qed simp

lemma Lookup_inv:
  assumes "reg_inv s" shows "reg_inv (snd (Lookup s now hs))"
proof -
  have "amap_ok (round_robin_indices (snd (Lookup s now hs))) \<and>
      dom (map_of (round_robin_indices (snd (Lookup s now hs)))) \<subseteq> dom (map_of (registry s))"
    if "amap_ok (round_robin_indices s)" "dom (map_of (round_robin_indices s)) \<subseteq> dom (map_of (registry s))"
    using that
  proof (induction hs arbitrary: s)
    case (Cons h hs)
    show ?case
    proof (cases "map_of (registry s) h")
      case (Some es)
      define valid where "valid = filter (\<lambda>e. \<not> expired (expire_time e) now) es"
      show ?thesis
      proof (cases "valid = []")
        case False
        define s1 where "s1 = s\<lparr>round_robin_indices := put h (Suc ((case map_of (round_robin_indices s) h of
            None \<Rightarrow> 0 | Some i \<Rightarrow> i) mod length valid)) (round_robin_indices s)\<rparr>"
        have "snd (Lookup s now (h # hs)) = snd (Lookup s1 now hs)"
          using False by (simp add: Some Let_def s1_def valid_def [symmetric])
        moreover have "amap_ok (round_robin_indices s1)" "registry s1 = registry s"
          "dom (map_of (round_robin_indices s1)) \<subseteq> dom (map_of (registry s1))"
          using Cons.prems Some by (auto simp: s1_def)
        ultimately show ?thesis using Cons.IH [of s1] by simp
      qed (use Cons.prems Some in \<open>simp add: valid_def\<close>)
    qed (use Cons.prems in simp)
  qed simp
  moreover have "ent (snd (Lookup s now hs)) = ent s" "own (snd (Lookup s now hs)) = own s"
    using Lookup_frame [of s now hs] by (simp_all add: ent_def own_def fun_eq_iff)
  ultimately show ?thesis using assms Lookup_frame [of s now hs]
    by (simp add: reg_inv_def maps_ok_def owners_ok_def keys_live_def)
qed

subsection \<open>Cleanup\<close>

definition live_entries :: "int \<Rightarrow> RegistryEntry list \<Rightarrow> RegistryEntry list" where
  "live_entries now es = filter (\<lambda>e. \<not> expired (expire_time e) now) es"

lemma erase_expired_frame:
  "registry (erase_expired_owners now h es s) = registry s \<and>
   round_robin_indices (erase_expired_owners now h es s) = round_robin_indices s \<and>
   store_registry (erase_expired_owners now h es s) = store_registry s \<and>
   transfer_specs (erase_expired_owners now h es s) = transfer_specs s"
  unfolding erase_expired_owners_def by (induction es arbitrary: s) auto

lemma erase_expired_own:
  assumes "maps_ok s" "\<And>r. distinct (own s r) \<and> map_of (owner_index s) r \<noteq> Some []"
  shows "maps_ok (erase_expired_owners now h es s) \<and>
    (\<forall>r. set (own (erase_expired_owners now h es s) r) =
      set (own s r) - (if \<exists>e\<in>set es. expired (expire_time e) now \<and> raiden_id e = r then {h} else {})) \<and>
    (\<forall>r. distinct (own (erase_expired_owners now h es s) r)) \<and>
    (\<forall>r. map_of (owner_index (erase_expired_owners now h es s)) r \<noteq> Some [])"
  using assms
proof (induction es arbitrary: s)
  case (Cons e es)
  let ?s = "if expired (expire_time e) now then EraseFromOwnerIndex (raiden_id e) h s else s"
  have step: "erase_expired_owners now h (e # es) s = erase_expired_owners now h es ?s"
    by (simp add: erase_expired_owners_def)
  have ok: "maps_ok ?s" "\<And>r. distinct (own ?s r) \<and> map_of (owner_index ?s) r \<noteq> Some []"
    using Cons.prems Erase_maps by (auto simp: Erase_own)
  have own: "set (own ?s r) = set (own s r) - (if expired (expire_time e) now \<and> raiden_id e = r then {h} else {})" for r
    by (auto simp: Erase_own)
  show ?case unfolding step using Cons.IH [OF ok] own by auto
qed (simp add: erase_expired_owners_def)

lemma cleanup_hash_step:
  assumes "maps_ok s" "owners_ok s" "map_of (registry s) h = Some es"
    and "cleanup_hash now (s, rm) h = (s', rm')"
  shows "maps_ok s' \<and> owners_ok s' \<and> map_of (registry s') = (map_of (registry s))(h \<mapsto> live_entries now es) \<and>
    round_robin_indices s' = round_robin_indices s \<and> store_registry s' = store_registry s \<and>
    transfer_specs s' = transfer_specs s \<and> rm' = (if live_entries now es = [] then rm @ [h] else rm)"
proof -
  define s1 where "s1 = erase_expired_owners now h es s"
  have fr: "registry s1 = registry s" "round_robin_indices s1 = round_robin_indices s"
    "store_registry s1 = store_registry s" "transfer_specs s1 = transfer_specs s"
    using erase_expired_frame by (auto simp: s1_def)
  have s': "s' = s1\<lparr>registry := put h (live_entries now es) (registry s)\<rparr>"
    and rm: "rm' = (if live_entries now es = [] then rm @ [h] else rm)"
    using assms(3,4) by (auto simp: cleanup_hash_def Let_def s1_def [symmetric] live_entries_def fr)
  have e: "ent s h = es" using assms(3) by (simp add: ent_def)
  have x: "maps_ok s1 \<and> (\<forall>r. set (own s1 r) = set (own s r) -
      (if \<exists>e\<in>set es. expired (expire_time e) now \<and> raiden_id e = r then {h} else {})) \<and>
    (\<forall>r. distinct (own s1 r)) \<and> (\<forall>r. map_of (owner_index s1) r \<noteq> Some [])"
    unfolding s1_def by (rule erase_expired_own) (use assms in \<open>auto simp: owners_ok_def\<close>)
  have "owners_ok s'"
  proof (rule owners_ok_remove [OF assms(2), where h = h and P = "\<lambda>e. \<not> expired (expire_time e) now"])
    show "ent s' = (ent s)(h := filter (\<lambda>e. \<not> expired (expire_time e) now) (ent s h))"
      using fr(1) e by (auto simp: s' ent_def live_entries_def fun_eq_iff)
    fix r
    show "set (own s' r) = set (own s r) -
        (if \<exists>e\<in>set (ent s h). \<not> \<not> expired (expire_time e) now \<and> raiden_id e = r then {h} else {})"
      using x by (simp add: s' e)
    show "distinct (own s' r)" "map_of (owner_index s') r \<noteq> Some []" using x by (simp_all add: s')
  qed
  moreover have "maps_ok s'" using x fr by (simp add: s' maps_ok_def)
  ultimately show ?thesis using fr rm by (simp add: s')
qed

lemma cleanup_hashes:
  assumes "maps_ok s" "owners_ok s" "set hs \<subseteq> dom (map_of (registry s))" "distinct hs"
    and "foldl (cleanup_hash now) (s, rm) hs = (s', rm')"
  shows "maps_ok s' \<and> owners_ok s' \<and> map_of (registry s') = (\<lambda>h. if h \<in> set hs then
      map_option (live_entries now) (map_of (registry s) h) else map_of (registry s) h) \<and>
    round_robin_indices s' = round_robin_indices s \<and> store_registry s' = store_registry s \<and>
    transfer_specs s' = transfer_specs s \<and>
    rm' = rm @ filter (\<lambda>h. live_entries now (ent s h) = []) hs"
  using assms
proof (induction hs arbitrary: s rm)
  case (Cons h hs)
  obtain s1 rm1 where st: "cleanup_hash now (s, rm) h = (s1, rm1)" by (cases "cleanup_hash now (s, rm) h")
  obtain es where es: "map_of (registry s) h = Some es" using Cons.prems(3) by auto
  note 1 = cleanup_hash_step [OF Cons.prems(1,2) es st]
  have fold: "foldl (cleanup_hash now) (s1, rm1) hs = (s', rm')" using Cons.prems(5) st by simp
  have sub: "set hs \<subseteq> dom (map_of (registry s1))" using Cons.prems(3) 1 by auto
  have e: "filter (\<lambda>h. live_entries now (ent s1 h) = []) hs = filter (\<lambda>h. live_entries now (ent s h) = []) hs"
    using 1 Cons.prems(4) by (intro filter_cong) (auto simp: ent_def)
  have IH: "maps_ok s' \<and> owners_ok s' \<and> map_of (registry s') = (\<lambda>h. if h \<in> set hs then
      map_option (live_entries now) (map_of (registry s1) h) else map_of (registry s1) h) \<and>
    round_robin_indices s' = round_robin_indices s1 \<and> store_registry s' = store_registry s1 \<and>
    transfer_specs s' = transfer_specs s1 \<and>
    rm' = rm1 @ filter (\<lambda>h. live_entries now (ent s h) = []) hs"
    using Cons.IH [OF _ _ sub _ fold] 1 Cons.prems(4) unfolding e by simp
  show ?case using IH 1 es Cons.prems(4) by (auto simp: fun_eq_iff ent_def)
qed auto

lemma remove_keys:
  assumes "maps_ok s" "owners_ok s" "\<And>k. k \<in> set ks \<Longrightarrow> ent s k = []"
  shows "maps_ok (foldl remove_key s ks) \<and> owners_ok (foldl remove_key s ks) \<and>
    map_of (registry (foldl remove_key s ks)) = (map_of (registry s)) |` (- set ks) \<and>
    map_of (round_robin_indices (foldl remove_key s ks)) = (map_of (round_robin_indices s)) |` (- set ks) \<and>
    store_registry (foldl remove_key s ks) = store_registry s \<and>
    transfer_specs (foldl remove_key s ks) = transfer_specs s"
  using assms
proof (induction ks arbitrary: s)
  case (Cons k ks)
  have e: "ent (remove_key s k) = ent s"
    using Cons.prems(3) [of k] by (auto simp: remove_key_def ent_def fun_eq_iff)
  have o: "own (remove_key s k) = own s" "owner_index (remove_key s k) = owner_index s"
    by (auto simp: remove_key_def own_def fun_eq_iff)
  have "maps_ok (remove_key s k)" "owners_ok (remove_key s k)"
    using Cons.prems(1,2) by (auto simp: maps_ok_def owners_ok_def e o) (simp_all add: remove_key_def)
  from Cons.IH [OF this] Cons.prems(3) show ?case
    by (auto simp: e) (auto simp: remove_key_def restrict_map_def fun_eq_iff)
qed auto

lemma remove_stores:
  "foldl (\<lambda>s rid. s\<lparr>store_registry := del rid (store_registry s)\<rparr>) s rs =
   s\<lparr>store_registry := foldl (\<lambda>m rid. del rid m) (store_registry s) rs\<rparr>"
  by (induction rs arbitrary: s) auto

lemma del_expired_stores:
  assumes "amap_ok m"
  shows "map_of (foldl (\<lambda>m rid. del rid m) m (map fst (filter (\<lambda>(rid, r). P r) m))) r =
    (case map_of m r of None \<Rightarrow> None | Some st \<Rightarrow> if P st then None else Some st)"
proof (cases "map_of m r")
  case (Some st)
  have "(r, st') \<in> set m \<longleftrightarrow> st' = st" for st' using Some assms by (metis map_of_eq_Some_iff option.inject)
  then have "r \<in> set (map fst (filter (\<lambda>(rid, r). P r) m)) \<longleftrightarrow> P st" by force
  then show ?thesis using Some unfolding del_many by (simp add: restrict_map_def del: set_map)
qed (simp add: del_many restrict_map_def)

lemma CleanupExpiredEntries_effect:
  assumes "reg_inv s" and eq: "s' = CleanupExpiredEntries s now"
  shows "reg_inv s'"
    and "map_of (registry s') h = (case map_of (registry s) h of None \<Rightarrow> None
      | Some es \<Rightarrow> if live_entries now es = [] then None else Some (live_entries now es))"
    and "map_of (round_robin_indices s') h =
      (if live_entries now (ent s h) = [] then None else map_of (round_robin_indices s) h)"
    and "map_of (store_registry s') r = (case map_of (store_registry s) r of None \<Rightarrow> None
      | Some st \<Rightarrow> if expired (store_expire_time st) now then None else Some st)"
    and "transfer_specs s' = transfer_specs s"
proof -
  have ok: "maps_ok s" "owners_ok s" "keys_live s" using assms(1) by (auto simp: reg_inv_def)
  let ?hs = "keys (registry s)"
  obtain s1 rm where f: "foldl (cleanup_hash now) (s, []) ?hs = (s1, rm)" by force
  have dom: "set ?hs = dom (map_of (registry s))" by (simp add: dom_map_of_conv_image_fst)
  have 1: "maps_ok s1" "owners_ok s1"
      "map_of (registry s1) = (\<lambda>h. map_option (live_entries now) (map_of (registry s) h))"
      "round_robin_indices s1 = round_robin_indices s" "store_registry s1 = store_registry s"
      "transfer_specs s1 = transfer_specs s"
    and rm: "rm = filter (\<lambda>h. live_entries now (ent s h) = []) ?hs"
    using cleanup_hashes [OF ok(1,2) _ _ f] ok(1) unfolding dom by (auto simp: maps_ok_def fun_eq_iff split: option.split) (metis option.map_disc_iff option.exhaust option.simps(8))
  have "ent s1 k = []" if "k \<in> set rm" for k
    using that by (auto simp: rm 1(3) ent_def split: option.split)
  note removed = remove_keys [OF 1(1,2), where ks = rm, OF this]
  define s2 where "s2 = foldl remove_key s1 rm"
  note 2 = removed [folded s2_def]
  define del_stores where "del_stores = foldl (\<lambda>m rid. del rid m) (store_registry s)
    (map fst (filter (\<lambda>(rid, r). expired (store_expire_time r) now) (store_registry s)))"
  have s': "s' = s2\<lparr>store_registry := del_stores\<rparr>"
    using 2 by (simp add: eq CleanupExpiredEntries_def f remove_stores s2_def [symmetric] del_stores_def 1(5))
  have mem: "h \<in> set rm \<longleftrightarrow> map_of (registry s) h \<noteq> None \<and> live_entries now (ent s h) = []" for h
    using dom by (auto simp: rm)
  show reg: "map_of (registry s') h = (case map_of (registry s) h of None \<Rightarrow> None
      | Some es \<Rightarrow> if live_entries now es = [] then None else Some (live_entries now es))" for h
    using 2 mem [of h] by (auto simp: s' 1(3) restrict_map_def ent_def split: option.split)
  have rr0: "map_of (round_robin_indices s) h = None" if "map_of (registry s) h = None" for h
    using ok(3) that by (auto simp: keys_live_def)
  show rr: "map_of (round_robin_indices s') h =
      (if live_entries now (ent s h) = [] then None else map_of (round_robin_indices s) h)" for h
    using 2 mem [of h] rr0 [of h] by (auto simp: s' 1(4) restrict_map_def)
  show "map_of (store_registry s') r = (case map_of (store_registry s) r of None \<Rightarrow> None
      | Some st \<Rightarrow> if expired (store_expire_time st) now then None else Some st)"
    using del_expired_stores [of "store_registry s" "\<lambda>r. expired (store_expire_time r) now" r] ok(1)
    by (simp add: s' del_stores_def maps_ok_def)
  show "transfer_specs s' = transfer_specs s" using 2 by (simp add: s' 1(6))
  have "keys_live s'"
    using reg rr rr0 by (auto simp: keys_live_def ent_def dom_def split: option.splits if_splits)
  moreover have "maps_ok s'" using 2 ok(1) by (auto simp: s' maps_ok_def del_stores_def del_many(2))
  moreover have "ent s' = ent s2" "own s' = own s2" by (auto simp: s' ent_def own_def fun_eq_iff)
  then have "owners_ok s'" using 2 by (simp add: owners_ok_def) (simp add: s')
  ultimately show "reg_inv s'" by (simp add: reg_inv_def)
qed

section \<open>Service runs\<close>

text \<open>The RPCs that change the state and the cleanup pass, each with the clock it reads.\<close>

datatype registry_op =
  DoRegister int "RegisterEntry list"
| DoLookup int "string list"
| DoUnregister "RaidenIdProto option" "string list"
| DoRegisterStore int "StoreInfo option"
| DoUnregisterStore "RaidenIdProto option"
| DoHeartbeat int int "RaidenIdProto option" int
| DoRegisterSpec "KVTransferSpec option" string
| DoCleanup int

fun registry_step :: "GlobalRegistry \<Rightarrow> registry_op \<Rightarrow> GlobalRegistry" where
  "registry_step s (DoRegister now es) = snd (Register s now es)"
| "registry_step s (DoLookup now hs) = snd (Lookup s now hs)"
| "registry_step s (DoUnregister owner hs) = snd (Unregister s owner hs)"
| "registry_step s (DoRegisterStore now i) = snd (RegisterStore s now i)"
| "registry_step s (DoUnregisterStore owner) = snd (UnregisterStore s owner)"
| "registry_step s (DoHeartbeat now1 now2 owner n) = snd (Heartbeat s now1 now2 owner n)"
| "registry_step s (DoRegisterSpec sp g) = snd (RegisterKVTransferSpec s sp g)"
| "registry_step s (DoCleanup now) = CleanupExpiredEntries s now"

definition registry_run :: "GlobalRegistry \<Rightarrow> registry_op list \<Rightarrow> GlobalRegistry" where
  "registry_run s ops = foldl registry_step s ops"

lemma reg_inv_frame:
  assumes "reg_inv s" "amap_ok st" "amap_ok sp"
  shows "reg_inv (s\<lparr>store_registry := st\<rparr>)" "reg_inv (s\<lparr>transfer_specs := sp\<rparr>)"
  using assms by (simp_all add: reg_inv_def maps_ok_def owners_ok_def keys_live_def)

lemma reg_inv_init: "reg_inv (GlobalRegistry_init d n)"
  by (simp add: GlobalRegistry_init_def reg_inv_def maps_ok_def owners_ok_def keys_live_def ent_def own_def)

lemma reg_inv_maps: "reg_inv s \<Longrightarrow> amap_ok (store_registry s) \<and> amap_ok (transfer_specs s)"
  by (simp add: reg_inv_def maps_ok_def)

lemma registry_step_inv:
  assumes "reg_inv s" shows "reg_inv (registry_step s op)"
proof (cases op)
  case (DoRegister now es)
  then show ?thesis using Register_inv [OF assms] by simp
next
  case (DoLookup now hs)
  then show ?thesis using Lookup_inv [OF assms] by simp
next
  case (DoUnregister owner hs)
  then show ?thesis using Unregister_inv [OF assms] by simp
next
  case (DoCleanup now)
  then show ?thesis using CleanupExpiredEntries_effect(1) [OF assms refl] by simp
qed (use assms reg_inv_maps [OF assms] in \<open>auto simp: RegisterStore_def UnregisterStore_def Heartbeat_def
  RegisterKVTransferSpec_def Let_def split: option.split intro!: reg_inv_frame\<close>)

lemma registry_run_inv: "reg_inv s \<Longrightarrow> reg_inv (registry_run s ops)"
  unfolding registry_run_def by (induction ops arbitrary: s) (auto intro: registry_step_inv)

section \<open>Properties\<close>

definition example_id :: "string \<Rightarrow> RaidenIdProto" where
  "example_id n = \<lparr>job_name_pb = n, job_replica_id_pb = ''0'', data_name_pb = ''kv'', data_replica_idx_pb = 0\<rparr>"

definition example_entry :: "string \<Rightarrow> string \<Rightarrow> int \<Rightarrow> RegisterEntry" where
  "example_entry h n b = \<lparr>prefix_hash = h,
     metadata = Some \<lparr>meta_raiden_id = Some (example_id n), meta_block_id = b\<rparr>, ttl_seconds = 10\<rparr>"

definition example_registry :: GlobalRegistry where
  "example_registry = registry_run (GlobalRegistry_init (Seconds 60) 2)
     [DoRegister 0 [example_entry ''h1'' ''a'' 1, example_entry ''h1'' ''b'' 2, example_entry ''h2'' ''a'' 3]]"

lemma example_registry_inv: "reg_inv example_registry"
  unfolding example_registry_def by (intro registry_run_inv reg_inv_init)

text \<open>
  Property C26 (the owner index mirrors the registry). After any sequence of RPCs and cleanup
  passes on a fresh registry, an owner's index holds exactly the hashes that have an entry of
  that owner, each once, so the reported index size counts them; a hash has at most one entry
  per owner; and no hash is kept without entries.
\<close>

theorem owner_index_mirrors_registry:
  "let s = registry_run (GlobalRegistry_init d n) ops in
     (h \<in> set (own s r) \<longleftrightarrow> r \<in> raiden_id ` set (ent s h)) \<and>
     distinct (map raiden_id (ent s h)) \<and>
     GetOwnerIndexSizeForTest s r = card {h. r \<in> raiden_id ` set (ent s h)} \<and>
     map_of (registry s) h \<noteq> Some []"
proof -
  define s where "s = registry_run (GlobalRegistry_init d n) ops"
  have o: "owners_ok s" and k: "keys_live s"
    using registry_run_inv [OF reg_inv_init, of d n ops] by (auto simp: s_def reg_inv_def)
  have "{h. r \<in> raiden_id ` set (ent s h)} = set (own s r)" using o by (auto simp: owners_ok_def)
  moreover have "GetOwnerIndexSizeForTest s r = length (own s r)"
    by (simp add: GetOwnerIndexSizeForTest_def own_def split: option.split)
  ultimately show ?thesis
    using o k by (simp add: Let_def s_def [symmetric] owners_ok_def keys_live_def distinct_card)
qed

definition holding :: "GlobalRegistry \<Rightarrow> string \<Rightarrow> RaidenId \<Rightarrow> (int \<times> Time) option" where
  "holding s h r = map_option (\<lambda>e. (block_id e, expire_time e)) (find (\<lambda>e. raiden_id e = r) (ent s h))"

lemma find_upsert: "map_option (\<lambda>e. (block_id e, expire_time e)) (find (\<lambda>e. raiden_id e = r) (upsert rid b t es)) =
    (if r = rid then Some (b, t) else map_option (\<lambda>e. (block_id e, expire_time e)) (find (\<lambda>e. raiden_id e = r) es))"
proof -
  have "update_entry rid b t es = Some es' \<Longrightarrow> map_option (\<lambda>e. (block_id e, expire_time e)) (find (\<lambda>e. raiden_id e = r) es') =
    (if r = rid then Some (b, t) else map_option (\<lambda>e. (block_id e, expire_time e)) (find (\<lambda>e. raiden_id e = r) es))" for es'
    by (induction es arbitrary: es') (auto split: if_splits)
  moreover have "find (\<lambda>e. raiden_id e = rid) es = None" if "update_entry rid b t es = None"
    using that by (auto simp: update_entry_None find_None_iff)
  moreover have "find P (xs @ [x]) = (case find P xs of None \<Rightarrow> if P x then Some x else None | Some y \<Rightarrow> Some y)"
    for P and xs :: "RegistryEntry list" and x by (induction xs) auto
  ultimately show ?thesis by (auto simp: upsert_def split: option.split)
qed

lemma apply_entry_ttl: "default_ttl (apply_entry now s e) = default_ttl s"
  by (simp add: apply_entry_def Let_def split: option.split)

lemma apply_entry_holding: "holding (apply_entry now s e) h r =
    (if prefix_hash e = h \<and> entry_owner e = r then Some (entry_block e, entry_expiry s now e) else holding s h r)"
  by (simp add: holding_def apply_entry_ent find_upsert)

definition last_declared :: "GlobalRegistry \<Rightarrow> int \<Rightarrow> RegisterEntry list \<Rightarrow> string \<Rightarrow> RaidenId \<Rightarrow> (int \<times> Time) option" where
  "last_declared s now es h r = map_option (\<lambda>e. (entry_block e, entry_expiry s now e))
     (find (\<lambda>e. prefix_hash e = h \<and> entry_owner e = r) (rev es))"

lemma Register_holding: "holding (foldl (apply_entry now) s es) h r =
    (case last_declared s now es h r of None \<Rightarrow> holding s h r | Some x \<Rightarrow> Some x)"
proof (induction es arbitrary: s rule: rev_induct)
  case (snoc e es)
  have "default_ttl (foldl (apply_entry now) s es) = default_ttl s"
    by (induction es arbitrary: s) (simp_all add: apply_entry_ttl)
  then have "entry_expiry (foldl (apply_entry now) s es) now e = entry_expiry s now e" by (simp add: entry_expiry_def)
  then show ?case using snoc by (simp add: apply_entry_holding last_declared_def)
qed (simp add: last_declared_def)

lemma find_filter_other:
  "find (\<lambda>e. raiden_id e = r) (filter (\<lambda>e. raiden_id e \<noteq> r') es) =
   (if r = r' then None else find (\<lambda>e. raiden_id e = r) es)"
  by (induction es) auto

text \<open>
  Property C28 (register and unregister). On a registry satisfying the invariant, a \<open>Register\<close>
  either reports the first invalid entry and changes nothing, or makes every declared (hash,
  owner) pair hold the block and expiry of its last declaration and leaves the other pairs
  alone; \<open>Unregister\<close> by an owner drops exactly that owner's pairs on the named hashes.
\<close>

theorem register_unregister_effect:
  assumes "reg_inv s" "owner = Some q" "job_name_pb q \<noteq> []"
  shows "holding (snd (Register s now es)) h r =
      (if first_error es = None then
         case last_declared s now es h r of None \<Rightarrow> holding s h r | Some x \<Rightarrow> Some x
       else holding s h r) \<and>
    success (fst (Register s now es)) = (first_error es = None) \<and>
    holding (snd (Unregister s owner hs)) h r =
      (if r = RaidenIdFromProto q \<and> h \<noteq> [] \<and> h \<in> set hs then None else holding s h r)"
proof -
  obtain s' ov errs where u: "foldl (unregister_hash (RaidenIdFromProto q)) (s, True, []) hs = (s', ov, errs)"
    by (cases "foldl (unregister_hash (RaidenIdFromProto q)) (s, True, []) hs")
  note e = conjunct2 [OF unregister_fold [OF assms(1) u]]
  have "holding (snd (Unregister s owner hs)) h r =
      (if r = RaidenIdFromProto q \<and> h \<noteq> [] \<and> h \<in> set hs then None else holding s h r)"
    using assms(2,3) by (simp add: Unregister_def missing_owner_def u holding_def e find_filter_other)
  then show ?thesis by (simp add: Register_def Register_holding split: option.split)
qed

theorem register_unregister_effect_witness:
  "holding (snd (Unregister example_registry (Some (example_id ''a'')) [''h1''])) ''h1'' (RaidenIdFromProto (example_id ''a'')) = None"
  using register_unregister_effect [OF example_registry_inv refl, of "example_id ''a''" 0 "[]" "''h1''"
    "RaidenIdFromProto (example_id ''a'')" "[''h1'']"]
  by (simp add: example_id_def)

definition entry_answer :: "RegistryEntry \<Rightarrow> RaidenIdProto \<times> int" where
  "entry_answer e = (RaidenIdToProto (raiden_id e), block_id e)"

definition round_robin :: "GlobalRegistry \<Rightarrow> string \<Rightarrow> nat" where
  "round_robin s h = (case map_of (round_robin_indices s) h of None \<Rightarrow> 0 | Some i \<Rightarrow> i)"

lemma Lookup_Cons:
  "Lookup s now (h # hs) =
     (let es = live_entries now (ent s h); i = round_robin s h mod length es;
          rest = Lookup (s\<lparr>round_robin_indices := put h (Suc i) (round_robin_indices s)\<rparr>) now hs
      in if es = [] then ([], s) else (entry_answer (es ! i) # fst rest, snd rest))"
  by (simp add: Let_def live_entries_def ent_def entry_answer_def round_robin_def split: option.split)

lemmas Lookup_unfold = Lookup.simps(1) Lookup_Cons

declare Lookup.simps [simp del]

lemma Lookup_answers:
  "list_all2 (\<lambda>h a. a \<in> entry_answer ` set (live_entries now (ent s h)))
     (takeWhile (\<lambda>h. live_entries now (ent s h) \<noteq> []) hs) (fst (Lookup s now hs))"
proof (induction hs arbitrary: s)
  case (Cons h hs)
  let ?s = "\<lambda>i. s\<lparr>round_robin_indices := put h i (round_robin_indices s)\<rparr>"
  have "live_entries now (ent s h) ! (k mod length (live_entries now (ent s h))) \<in> set (live_entries now (ent s h))"
    if "live_entries now (ent s h) \<noteq> []" for k using that by simp
  then show ?case using Cons.IH [of "?s _"] by (auto simp: Lookup_Cons Let_def)
qed (simp add: Lookup_unfold)

text \<open>
  Property C27 (lookup of a prefix). The answer has one block for each hash of the longest prefix
  of the request all of whose hashes have an unexpired entry, and each block is that of one of
  the unexpired entries of its hash.
\<close>

theorem lookup_longest_live_prefix:
  "list_all2 (\<lambda>h a. a \<in> entry_answer ` set (live_entries now (ent s h)))
     (takeWhile (\<lambda>h. live_entries now (ent s h) \<noteq> []) hs) (fst (Lookup s now hs))"
  by (rule Lookup_answers)

text \<open>Successive lookups of one hash, at the clock readings \<open>nows\<close>.\<close>

fun lookups :: "GlobalRegistry \<Rightarrow> string \<Rightarrow> int list \<Rightarrow> (RaidenIdProto \<times> int) list" where
  "lookups s h [] = []"
| "lookups s h (now # nows) = (case Lookup s now [h] of (as, s') \<Rightarrow> as @ lookups s' h nows)"

lemma lookups_round_robin:
  assumes "es \<noteq> []" "list_all (\<lambda>now. live_entries now (ent s h) = es) nows"
  shows "lookups s h nows = map (\<lambda>k. entry_answer (es ! ((round_robin s h + k) mod length es))) [0..<length nows]"
  using assms(2)
proof (induction nows arbitrary: s)
  case (Cons now nows)
  let ?i = "round_robin s h mod length es"
  let ?s = "s\<lparr>round_robin_indices := put h (Suc ?i) (round_robin_indices s)\<rparr>"
  have "round_robin ?s h = Suc ?i" by (simp add: round_robin_def)
  moreover have "lookups ?s h nows = map (\<lambda>k. entry_answer (es ! ((round_robin ?s h + k) mod length es))) [0..<length nows]"
    using Cons by simp
  moreover have "(Suc ?i + k) mod length es = (round_robin s h + Suc k) mod length es" for k
    using mod_add_left_eq [of "round_robin s h" "length es" "Suc k"] by simp
  ultimately show ?case
    using Cons.prems assms(1) by (simp add: Lookup_unfold Let_def map_upt_Suc del: upt_Suc)
qed simp

text \<open>
  Property C31 (fair round robin). While the unexpired entries of a hash stay the same, as many
  successive lookups of the hash as it has unexpired entries return each of them once: the
  answers are those entries in order, starting at the stored index.
\<close>

theorem lookup_round_robin_fair:
  assumes "es \<noteq> []" "list_all (\<lambda>now. live_entries now (ent s h) = es) nows" "length nows = length es"
  shows "lookups s h nows = map entry_answer (rotate (round_robin s h) es)"
  unfolding lookups_round_robin [OF assms(1,2)]
  by (rule nth_equalityI) (simp_all add: assms(3) nth_rotate)

theorem lookup_round_robin_fair_witness:
  "lookups example_registry ''h1'' [1, 2] = [(example_id ''a'', 1), (example_id ''b'', 2)]"
proof -
  have "live_entries 1 (ent example_registry ''h1'') = live_entries 2 (ent example_registry ''h1'')"
    "map entry_answer (live_entries 2 (ent example_registry ''h1'')) = [(example_id ''a'', 1), (example_id ''b'', 2)]"
    "round_robin example_registry ''h1'' = 0" by code_simp+
  then show ?thesis
    using lookup_round_robin_fair [of "live_entries 2 (ent example_registry ''h1'')" example_registry "''h1''" "[1, 2]"]
      map_is_Nil_conv [of entry_answer "live_entries 2 (ent example_registry ''h1'')"]
      length_map [of entry_answer "live_entries 2 (ent example_registry ''h1'')"]
    by simp
qed

text \<open>Two registries that answer alike from the time \<open>now\<close> on.\<close>

definition same_from :: "int \<Rightarrow> GlobalRegistry \<Rightarrow> GlobalRegistry \<Rightarrow> bool" where
  "same_from now s t \<longleftrightarrow>
     (\<forall>h. live_entries now (ent s h) = live_entries now (ent t h) \<and>
          (live_entries now (ent s h) \<noteq> [] \<longrightarrow> round_robin s h = round_robin t h))"

lemma live_entries_later:
  assumes "now \<le> later"
  shows "live_entries later (live_entries now es) = live_entries later es"
  using assms by (auto simp: live_entries_def expired_def filter_filter intro!: filter_cong split: Time.splits)

lemma Lookup_same_from:
  assumes "same_from now s t" "now \<le> later"
  shows "fst (Lookup s later hs) = fst (Lookup t later hs) \<and>
    same_from now (snd (Lookup s later hs)) (snd (Lookup t later hs))"
  using assms(1)
proof (induction hs arbitrary: s t)
  case (Cons h hs)
  have e: "live_entries later (ent s h) = live_entries later (ent t h)"
    using Cons.prems live_entries_later [OF assms(2)] by (metis same_from_def)
  show ?case
  proof (cases "live_entries later (ent t h) = []")
    case False
    then have "live_entries now (ent t h) \<noteq> []"
      using live_entries_later [OF assms(2), of "ent t h"] by (metis filter.simps(1) live_entries_def)
    then have r: "round_robin s h = round_robin t h" using Cons.prems by (simp add: same_from_def)
    let ?s = "\<lambda>s::GlobalRegistry. s\<lparr>round_robin_indices := put h (Suc (round_robin t h mod length (live_entries later (ent t h)))) (round_robin_indices s)\<rparr>"
    have "same_from now (?s s) (?s t)"
      using Cons.prems by (auto simp: same_from_def round_robin_def)
    from Cons.IH [OF this] show ?thesis using False by (simp add: Lookup_Cons Let_def e r)
  qed (use Cons.prems e in \<open>simp add: Lookup_Cons Let_def\<close>)
qed (simp add: Lookup_unfold)

text \<open>What an owner holds for a hash, and for how long, if it has not expired.\<close>

definition live_holding :: "GlobalRegistry \<Rightarrow> int \<Rightarrow> string \<Rightarrow> RaidenId \<Rightarrow> (int \<times> Time) option" where
  "live_holding s now h r =
     (case holding s h r of None \<Rightarrow> None | Some (b, t) \<Rightarrow> if expired t now then None else Some (b, t))"

text \<open>Two registries with the same unexpired entries and stores, whatever the order of the entries.\<close>

definition same_view :: "int \<Rightarrow> GlobalRegistry \<Rightarrow> GlobalRegistry \<Rightarrow> bool" where
  "same_view now s t \<longleftrightarrow> default_ttl s = default_ttl t \<and> live_holding s now = live_holding t now \<and>
     live_store s now = live_store t now"

fun from_time :: "int \<Rightarrow> registry_op \<Rightarrow> bool" where
  "from_time now (DoRegister t es) = (now \<le> t)"
| "from_time now (DoLookup t hs) = (now \<le> t)"
| "from_time now (DoRegisterStore t i) = (now \<le> t)"
| "from_time now (DoHeartbeat t1 t2 owner n) = (now \<le> t1 \<and> now \<le> t2)"
| "from_time now (DoCleanup t) = (now \<le> t)"
| "from_time now _ = True"

fun is_lookup :: "registry_op \<Rightarrow> bool" where
  "is_lookup (DoLookup t hs) = True"
| "is_lookup _ = False"

lemma expired_later: "now \<le> later \<Longrightarrow> expired t now \<Longrightarrow> expired t later"
  by (cases t) (simp_all add: expired_def)

lemma live_later:
  assumes "now \<le> later"
  shows "live_holding s later h r = (case live_holding s now h r of None \<Rightarrow> None
      | Some (b, t) \<Rightarrow> if expired t later then None else Some (b, t))"
    "live_store s later r = (case live_store s now r of None \<Rightarrow> None
      | Some st \<Rightarrow> if expired (store_expire_time st) later then None else Some st)"
  using expired_later [OF assms] by (auto simp: live_holding_def live_store_def split: option.split)

lemma same_view_later: "same_view now s t \<Longrightarrow> now \<le> later \<Longrightarrow> same_view later s t"
  by (simp add: same_view_def fun_eq_iff live_later)

lemma find_live_entries:
  "distinct (map raiden_id es) \<Longrightarrow> find (\<lambda>e. raiden_id e = r) (live_entries now es) =
   (case find (\<lambda>e. raiden_id e = r) es of None \<Rightarrow> None | Some e \<Rightarrow> if expired (expire_time e) now then None else Some e)"
proof (induction es)
  case (Cons e es)
  have "find (\<lambda>x. raiden_id x = raiden_id e) es = None"
    using Cons.prems by (simp add: find_None_iff image_iff) metis
  then show ?case using Cons by (auto simp: live_entries_def split: option.split)
qed (simp add: live_entries_def)

lemma cleanup_ttl: "default_ttl (CleanupExpiredEntries s now) = default_ttl s"
proof -
  have e: "default_ttl (EraseFromOwnerIndex r h s) = default_ttl s" for r h s
    by (simp add: EraseFromOwnerIndex_def Let_def split: option.split)
  have 1: "default_ttl (erase_expired_owners now h es s) = default_ttl s" for h es s
    unfolding erase_expired_owners_def by (induction es arbitrary: s) (simp_all add: e)
  have 2: "default_ttl (fst (foldl (cleanup_hash now) (s, ks) hs)) = default_ttl s" for ks hs s
    by (induction hs arbitrary: s ks) (simp_all add: cleanup_hash_def Let_def 1)
  have 3: "default_ttl (foldl remove_key s ks) = default_ttl s" for ks s
    by (induction ks arbitrary: s) (simp_all add: remove_key_def)
  show ?thesis by (simp add: CleanupExpiredEntries_def Let_def remove_stores 2 3)
qed

lemma same_view_cleanup:
  assumes "reg_inv s" "now \<le> later"
  shows "same_view later (CleanupExpiredEntries s now) s"
proof -
  note c = CleanupExpiredEntries_effect [OF assms(1) refl, of now]
  have d: "distinct (map raiden_id (ent s h))" for h using assms(1) by (simp add: reg_inv_def owners_ok_def)
  have "ent (CleanupExpiredEntries s now) h = live_entries now (ent s h)" for h
    by (simp add: ent_def c(2) live_entries_def split: option.split)
  then have "live_holding (CleanupExpiredEntries s now) later h r = live_holding s later h r" for h r
    using expired_later [OF assms(2)] by (auto simp: live_holding_def holding_def find_live_entries [OF d] split: option.split)
  moreover have "live_store (CleanupExpiredEntries s now) later r = live_store s later r" for r
    using expired_later [OF assms(2)] by (auto simp: live_store_def c(4) split: option.split)
  ultimately show ?thesis by (simp add: same_view_def fun_eq_iff cleanup_ttl)
qed

lemma entries_frame:
  "default_ttl (snd (Register s now es)) = default_ttl s" "live_store (snd (Register s now es)) = live_store s"
  "default_ttl (snd (Lookup s now hs)) = default_ttl s" "live_store (snd (Lookup s now hs)) = live_store s"
  "holding (snd (Lookup s now hs)) = holding s"
  "default_ttl (snd (Unregister s owner hs)) = default_ttl s" "live_store (snd (Unregister s owner hs)) = live_store s"
proof -
  have "default_ttl (foldl (apply_entry now) s es) = default_ttl s \<and> store_registry (foldl (apply_entry now) s es) = store_registry s"
    by (induction es arbitrary: s) (simp_all add: apply_entry_def Let_def split: option.split)
  then show "default_ttl (snd (Register s now es)) = default_ttl s" "live_store (snd (Register s now es)) = live_store s"
    by (simp_all add: Register_def live_store_def fun_eq_iff split: option.split)
  show "default_ttl (snd (Lookup s now hs)) = default_ttl s"
    by (induction hs arbitrary: s) (simp_all add: Lookup_unfold Let_def)
  show "live_store (snd (Lookup s now hs)) = live_store s" "holding (snd (Lookup s now hs)) = holding s"
    using Lookup_frame [of s now hs] by (simp_all add: live_store_def holding_def ent_def fun_eq_iff)
  have "default_ttl (fst (foldl (unregister_hash r) (s, x) hs)) = default_ttl s \<and>
      store_registry (fst (foldl (unregister_hash r) (s, x) hs)) = store_registry s" for r x
  proof (induction hs arbitrary: s x)
    case (Cons h hs)
    have "default_ttl (fst (unregister_hash r (s, x) h)) = default_ttl s \<and> store_registry (fst (unregister_hash r (s, x) h)) = store_registry s"
      by (cases x) (simp add: unregister_hash_def Let_def EraseFromOwnerIndex_def split: option.split)
    then show ?case using Cons.IH [of "fst (unregister_hash r (s, x) h)" "snd (unregister_hash r (s, x) h)"] by simp
  qed simp
  then show "default_ttl (snd (Unregister s owner hs)) = default_ttl s" "live_store (snd (Unregister s owner hs)) = live_store s"
    by (simp_all add: Unregister_def live_store_def fun_eq_iff case_prod_beta)
qed

lemma Unregister_holding:
  assumes "reg_inv s"
  shows "holding (snd (Unregister s owner hs)) h r =
    (if \<not> missing_owner owner \<and> r = RaidenIdFromProto (the owner) \<and> h \<noteq> [] \<and> h \<in> set hs then None else holding s h r)"
proof -
  obtain s' ov errs where u: "foldl (unregister_hash (RaidenIdFromProto (the owner))) (s, True, []) hs = (s', ov, errs)"
    by (cases "foldl (unregister_hash (RaidenIdFromProto (the owner))) (s, True, []) hs")
  note e = conjunct2 [OF unregister_fold [OF assms u]]
  show ?thesis by (simp add: Unregister_def u holding_def e find_filter_other)
qed

lemma cleanup_live:
  assumes "reg_inv u" "now \<le> later"
  shows "live_holding (CleanupExpiredEntries u later) now = live_holding (CleanupExpiredEntries u later) later"
    and "live_store (CleanupExpiredEntries u later) now = live_store (CleanupExpiredEntries u later) later"
proof -
  note c = CleanupExpiredEntries_effect [OF assms(1) refl, of later] and le = expired_later [OF assms(2)]
  have "\<not> expired (expire_time e) later" if "e \<in> set (ent (CleanupExpiredEntries u later) h)" for e h
    using that by (auto simp: ent_def c(2) live_entries_def split: option.splits if_splits)
  then have h: "\<not> expired x later" if "holding (CleanupExpiredEntries u later) h r = Some (b, x)" for h r b x
    using that by (auto simp: holding_def find_Some_iff in_set_conv_nth)
  have "live_holding (CleanupExpiredEntries u later) now h r = live_holding (CleanupExpiredEntries u later) later h r" for h r
    using h [of h r] le by (cases "holding (CleanupExpiredEntries u later) h r") (auto simp: live_holding_def)
  then show "live_holding (CleanupExpiredEntries u later) now = live_holding (CleanupExpiredEntries u later) later"
    by (simp add: fun_eq_iff)
  show "live_store (CleanupExpiredEntries u later) now = live_store (CleanupExpiredEntries u later) later"
    using le by (auto simp: live_store_def c(4) fun_eq_iff split: option.splits)
qed

lemma same_view_step:
  assumes "same_view now s t" "reg_inv s" "reg_inv t" "from_time now op"
  shows "same_view now (registry_step s op) (registry_step t op)"
proof -
  have v: "default_ttl s = default_ttl t" "live_holding s now h r = live_holding t now h r" "live_store s now r = live_store t now r"
    for h r using assms(1) by (simp_all add: same_view_def)
  show ?thesis
  proof (cases op)
    case (DoRegister later es)
    have "last_declared s later es = last_declared t later es"
      by (rule ext)+ (simp only: last_declared_def entry_expiry_def v(1))
    moreover have "live_holding (snd (Register u later es)) now h r = (if first_error es = None then
        case last_declared u later es h r of None \<Rightarrow> live_holding u now h r
        | Some (b, x) \<Rightarrow> if expired x now then None else Some (b, x) else live_holding u now h r)" for u h r
      by (auto simp: live_holding_def Register_def Register_holding split: option.splits)
    ultimately show ?thesis using DoRegister v by (auto simp: same_view_def entries_frame fun_eq_iff split: option.split)
  next
    case (DoLookup later hs)
    then show ?thesis using assms(1) by (simp add: same_view_def entries_frame live_holding_def fun_eq_iff)
  next
    case (DoUnregister owner hs)
    have "live_holding (snd (Unregister u owner hs)) now h r =
        (if \<not> missing_owner owner \<and> r = RaidenIdFromProto (the owner) \<and> h \<noteq> [] \<and> h \<in> set hs then None else live_holding u now h r)"
      if "reg_inv u" for u h r by (simp add: live_holding_def Unregister_holding [OF that])
    then show ?thesis using DoUnregister v assms(2,3) by (simp add: same_view_def entries_frame fun_eq_iff)
  next
    case (DoHeartbeat later later2 owner n)
    then have "live_store s later = live_store t later" using same_view_later [OF assms(1), of later] assms(4) by (simp add: same_view_def)
    then show ?thesis using DoHeartbeat assms(1)
      by (auto simp: Heartbeat_def Let_def same_view_def live_store_def live_holding_def holding_def fun_eq_iff split: option.split)
  next
    case (DoCleanup later)
    then have "now \<le> later" using assms(4) by simp
    note live = cleanup_live [OF assms(2) this] cleanup_live [OF assms(3) this]
    have "same_view later (CleanupExpiredEntries s later) (CleanupExpiredEntries t later)"
      using same_view_cleanup [OF assms(2), of later later] same_view_cleanup [OF assms(3), of later later]
        same_view_later [OF assms(1), of later] assms(4) DoCleanup by (simp add: same_view_def)
    then show ?thesis using DoCleanup live by (simp add: same_view_def)
  qed (use assms(1) in \<open>auto simp: same_view_def RegisterStore_def UnregisterStore_def RegisterKVTransferSpec_def Let_def
      live_store_def live_holding_def holding_def fun_eq_iff split: option.splits\<close>)
qed

lemma same_view_run:
  assumes "same_view now s t" "reg_inv s" "reg_inv t" "list_all (from_time now) ops"
  shows "same_view now (registry_run s ops) (registry_run t ops)"
  using assms unfolding registry_run_def
  by (induction ops arbitrary: s t) (simp_all add: same_view_step registry_step_inv)

lemma live_answers:
  assumes "reg_inv s"
  shows "entry_answer ` set (live_entries now (ent s h)) =
    {(RaidenIdToProto r, b) | r b t. live_holding s now h r = Some (b, t)}"
proof -
  have d: "distinct (map raiden_id (ent s h))" using assms by (simp add: reg_inv_def owners_ok_def)
  have f: "find (\<lambda>x. raiden_id x = r) es = Some e \<longleftrightarrow> e \<in> set es \<and> raiden_id e = r"
    if "distinct (map raiden_id es)" for es r e
    using that by (induction es) (auto simp: image_iff)
  have "live_holding s now h r = Some (b, t) \<longleftrightarrow> (\<exists>e. find (\<lambda>x. raiden_id x = r) (ent s h) = Some e \<and>
      \<not> expired (expire_time e) now \<and> block_id e = b \<and> expire_time e = t)" for r b t
    by (auto simp: live_holding_def holding_def split: option.splits if_splits)
  then have "live_holding s now h r = Some (b, t) \<longleftrightarrow>
      (\<exists>e\<in>set (live_entries now (ent s h)). raiden_id e = r \<and> block_id e = b \<and> expire_time e = t)" for r b t
    unfolding f [OF d] by (auto simp: live_entries_def)
  then show ?thesis by (auto simp: entry_answer_def image_iff)
qed

lemma same_from_run:
  assumes "same_from now s t" "list_all (from_time now) ops" "list_all is_lookup ops"
  shows "same_from now (registry_run s ops) (registry_run t ops)"
  using assms unfolding registry_run_def
proof (induction ops arbitrary: s t)
  case (Cons op ops)
  then obtain later hs where "op = DoLookup later hs" by (cases op) auto
  then show ?case using Cons Lookup_same_from [of now s t later hs] by simp
qed simp

text \<open>
  Property C29 (a cleanup pass keeps the live view). Take a run of any calls and cleanup passes with
  clock readings from \<open>now\<close> on, once as it is and once after a cleanup pass at \<open>now\<close>. At any time
  from \<open>now\<close> on a lookup then answers the same number of hashes in both, the block it answers for
  a hash is that of an unexpired entry which the other run could answer as well, and stores
  resolve alike. If the calls in between were only lookups, the answers are equal. Otherwise the
  chosen entry may differ: an owner that registers again after its expired entry was swept comes
  last in the rotation.
\<close>

theorem cleanup_keeps_live_view:
  assumes "reg_inv s" "list_all (from_time now) ops" "now \<le> t"
    and "s1 = registry_run s ops" "s2 = registry_run (CleanupExpiredEntries s now) ops"
  shows "list_all2 (\<lambda>h a. a \<in> entry_answer ` set (live_entries t (ent s1 h)) \<inter> entry_answer ` set (live_entries t (ent s2 h)))
      (take (length (fst (Lookup s1 t hs))) hs) (fst (Lookup s2 t hs)) \<and>
    length (fst (Lookup s2 t hs)) = length (fst (Lookup s1 t hs)) \<and>
    (\<forall>h. entry_answer ` set (live_entries t (ent s2 h)) = entry_answer ` set (live_entries t (ent s1 h))) \<and>
    (list_all is_lookup ops \<longrightarrow> fst (Lookup s2 t hs) = fst (Lookup s1 t hs)) \<and>
    ResolveStore s2 t owner = ResolveStore s1 t owner"
proof -
  note c = CleanupExpiredEntries_effect [OF assms(1) refl, of now]
  have i: "reg_inv s1" "reg_inv s2" using registry_run_inv assms(1,4,5) c(1) by simp_all
  have v: "same_view t s2 s1"
    using same_view_later [OF same_view_run [OF same_view_cleanup [OF assms(1) order_refl] c(1) assms(1,2)] assms(3)]
    by (simp add: assms(4,5))
  have l: "entry_answer ` set (live_entries t (ent s2 h)) = entry_answer ` set (live_entries t (ent s1 h))" for h
    using v by (simp add: live_answers i same_view_def)
  then have e: "live_entries t (ent s2 h) = [] \<longleftrightarrow> live_entries t (ent s1 h) = []" for h
    by (metis image_is_empty set_empty)
  note a1 = Lookup_answers [of t s1 hs] and a2 = Lookup_answers [of t s2 hs]
  have n: "length (fst (Lookup s1 t hs)) = length (takeWhile (\<lambda>h. live_entries t (ent s1 h) \<noteq> []) hs)"
    "length (fst (Lookup s2 t hs)) = length (takeWhile (\<lambda>h. live_entries t (ent s1 h) \<noteq> []) hs)"
    using list_all2_lengthD [OF a1] list_all2_lengthD [OF a2] by (simp_all add: e)
  have "take (length (fst (Lookup s1 t hs))) hs = takeWhile (\<lambda>h. live_entries t (ent s2 h) \<noteq> []) hs"
    unfolding n(1) e by (rule takeWhile_eq_take [symmetric])
  then have "list_all2 (\<lambda>h a. a \<in> entry_answer ` set (live_entries t (ent s1 h)) \<inter> entry_answer ` set (live_entries t (ent s2 h)))
      (take (length (fst (Lookup s1 t hs))) hs) (fst (Lookup s2 t hs))"
    using a2 by (simp add: l)
  moreover have "fst (Lookup s2 t hs) = fst (Lookup s1 t hs)" if "list_all is_lookup ops"
  proof -
    have "same_from now (CleanupExpiredEntries s now) s"
      by (auto simp: same_from_def ent_def c round_robin_def live_entries_def split: option.splits)
    from Lookup_same_from [OF same_from_run [OF this assms(2) that] assms(3)] show ?thesis by (simp add: assms(4,5))
  qed
  moreover have "ResolveStore s2 t owner = ResolveStore s1 t owner"
    using v by (simp add: ResolveStore_def same_view_def Let_def)
  ultimately show ?thesis using n l by simp
qed

text \<open>
  Here the pass at 35 seconds removes two expired entries, one of them the only one of its hash.
\<close>

definition aged_registry :: GlobalRegistry where
  "aged_registry = registry_run example_registry [DoRegister 120000000000 [example_entry ''h1'' ''b'' 2]]"

definition aged_calls :: "registry_op list" where
  "aged_calls = [DoRegister 150000000000 [example_entry ''h1'' ''a'' 7, example_entry ''h3'' ''a'' 8]]"

lemma aged_registry_inv: "reg_inv aged_registry"
  unfolding aged_registry_def by (rule registry_run_inv [OF example_registry_inv])

theorem cleanup_keeps_live_view_witness:
  "map_of (registry aged_registry) ''h2'' \<noteq> None \<and>
   map_of (registry (CleanupExpiredEntries aged_registry 140000000000)) ''h2'' = None \<and>
   length (fst (Lookup (registry_run (CleanupExpiredEntries aged_registry 140000000000) aged_calls) 155000000000
     [''h1'', ''h3'', ''h2''])) = 2"
proof -
  have "list_all (from_time 140000000000) aged_calls" by (simp add: aged_calls_def)
  moreover have "length (fst (Lookup (registry_run aged_registry aged_calls) 155000000000 [''h1'', ''h3'', ''h2''])) = 2"
    "map_of (registry aged_registry) ''h2'' \<noteq> None"
    "map_of (registry (CleanupExpiredEntries aged_registry 140000000000)) ''h2'' = None" by code_simp+
  ultimately show ?thesis
    using cleanup_keeps_live_view [OF aged_registry_inv, of 140000000000 aged_calls 155000000000 _ _ "[''h1'', ''h3'', ''h2'']"]
    by simp
qed

subsection \<open>Ownership streams\<close>

lemma pull_hash_hash: "e \<in> set (pull_hash s now rid h) \<Longrightarrow> out_prefix_hash e = h"
  by (auto simp: pull_hash_def split: option.splits if_splits)

lemma pull_hash_single: "pull_hash s now rid h = [] \<or> (\<exists>e. pull_hash s now rid h = [e] \<and> out_prefix_hash e = h)"
  by (auto simp: pull_hash_def split: option.splits)

lemma pull_batch_hashes:
  "set (map out_prefix_hash (pull_batch s now rid hs)) = {h \<in> set hs. pull_hash s now rid h \<noteq> []}"
  "distinct hs \<Longrightarrow> distinct (map out_prefix_hash (pull_batch s now rid hs))"
  "length (pull_batch s now rid hs) \<le> length hs"
proof (induction hs)
  case (Cons h hs)
  note h = pull_hash_single [of s now rid h]
  {
    case 1
    show ?case using Cons h by (auto simp: pull_batch_def)
  next
    case 2
    show ?case using Cons h 2 by (auto simp: pull_batch_def dest: pull_hash_hash)
  next
    case 3
    show ?case using Cons h by (auto simp: pull_batch_def)
  }
qed (auto simp: pull_batch_def)

lemma pull_batch_mem:
  "e \<in> set (pull_batch s now rid hs) \<longleftrightarrow> out_prefix_hash e \<in> set hs \<and> e \<in> set (pull_hash s now rid (out_prefix_hash e))"
  by (auto simp: pull_batch_def dest: pull_hash_hash)

text \<open>
  What a streamed entry says: its owner has an unexpired entry of the hash with that block, and the
  remaining seconds are the time left rounded up to a whole second, or zero for an entry that
  never expires.
\<close>

definition owns_live :: "GlobalRegistry \<Rightarrow> int \<Rightarrow> RaidenId \<Rightarrow> string \<Rightarrow> bool" where
  "owns_live s now rid h \<longleftrightarrow> (\<exists>x\<in>set (ent s h). raiden_id x = rid \<and> \<not> expired (expire_time x) now)"

definition truthful :: "GlobalRegistry \<Rightarrow> int \<Rightarrow> RaidenId \<Rightarrow> PullOwnedEntry \<Rightarrow> bool" where
  "truthful s now rid e \<longleftrightarrow> (\<exists>x\<in>set (ent s (out_prefix_hash e)). raiden_id x = rid \<and>
     \<not> expired (expire_time x) now \<and> out_block_id e = block_id x \<and>
     (case expire_time x of
        At t \<Rightarrow> (remaining_ttl_seconds e - 1) * ticks_per_second < t - now \<and>
          t - now \<le> remaining_ttl_seconds e * ticks_per_second
      | _ \<Rightarrow> remaining_ttl_seconds e = 0))"

lemma remaining_rounds_up:
  assumes "now < t"
  shows "(remaining_seconds (At t) now - 1) * ticks_per_second < t - now \<and>
    t - now \<le> remaining_seconds (At t) now * ticks_per_second"
proof -
  define q where "q = (t - now) div ticks_per_second"
  have "q * ticks_per_second \<le> t - now" "t - now < (q + 1) * ticks_per_second" "0 \<le> q"
    using assms div_mult_mod_eq [of "t - now" ticks_per_second] pos_mod_bound [of ticks_per_second "t - now"]
      pos_mod_sign [of ticks_per_second "t - now"]
    by (auto simp: q_def ticks_per_second_def pos_imp_zdiv_nonneg_iff algebra_simps)
  then show ?thesis using assms
    by (auto simp: remaining_seconds_def Let_def q_def [symmetric] ticks_per_second_def algebra_simps)
qed

lemma pull_hash_truthful:
  assumes "e \<in> set (pull_hash s now rid h)"
  shows "truthful s now rid e"
proof -
  from assms obtain es x where es: "map_of (registry s) h = Some es" "find (\<lambda>e. raiden_id e = rid) es = Some x"
    and x: "\<not> expired (expire_time x) now" and e: "e = \<lparr>out_prefix_hash = h, out_block_id = block_id x,
      remaining_ttl_seconds = remaining_seconds (expire_time x) now\<rparr>"
    by (simp add: pull_hash_def split: option.splits if_splits) metis
  have "x \<in> set (ent s h)" "raiden_id x = rid" using es by (auto simp: ent_def find_Some_iff in_set_conv_nth)
  moreover have "case expire_time x of
        At t \<Rightarrow> (remaining_ttl_seconds e - 1) * ticks_per_second < t - now \<and>
          t - now \<le> remaining_ttl_seconds e * ticks_per_second
      | _ \<Rightarrow> remaining_ttl_seconds e = 0"
    using x remaining_rounds_up [of now] by (auto simp: e expired_def remaining_seconds_def split: Time.split)
  ultimately show ?thesis using x e by (auto simp: truthful_def)
qed

lemma pull_hash_complete:
  assumes "reg_inv s" "owns_live s now rid h"
  shows "pull_hash s now rid h \<noteq> []"
proof -
  have d: "distinct (map raiden_id (ent s h))" using assms(1) by (simp add: reg_inv_def owners_ok_def)
  obtain x where x: "x \<in> set (live_entries now (ent s h))" "raiden_id x = rid"
    using assms(2) by (auto simp: owns_live_def live_entries_def)
  then have "find (\<lambda>e. raiden_id e = rid) (live_entries now (ent s h)) \<noteq> None" by (auto simp: find_None_iff)
  then show ?thesis unfolding find_live_entries [OF d]
    by (auto simp: pull_hash_def ent_def split: option.splits if_splits)
qed

text \<open>A list read in batches of \<open>n\<close>: position \<open>p\<close> belongs to batch \<open>p div n\<close>.\<close>

lemma by_batch:
  assumes "0 < (n :: nat)"
  shows "(\<forall>p<length hs. P (i + p div n) (hs ! p)) \<longleftrightarrow>
      (\<forall>h\<in>set (take n hs). P i h) \<and> (\<forall>p<length (drop n hs). P (Suc i + p div n) (drop n hs ! p))"
    and "(\<exists>p<length hs. Q (i + p div n) (hs ! p)) \<longleftrightarrow>
      (\<exists>h\<in>set (take n hs). Q i h) \<or> (\<exists>p<length (drop n hs). Q (Suc i + p div n) (drop n hs ! p))"
proof -
  show all: "(\<forall>p<length hs. P (i + p div n) (hs ! p)) \<longleftrightarrow>
      (\<forall>h\<in>set (take n hs). P i h) \<and> (\<forall>p<length (drop n hs). P (Suc i + p div n) (drop n hs ! p))" for P
  proof safe
    fix h assume a: "\<forall>p<length hs. P (i + p div n) (hs ! p)" "h \<in> set (take n hs)"
    then obtain p where "p < length hs" "p < n" "h = hs ! p" by (auto simp: in_set_conv_nth)
    then show "P i h" using a(1) by fastforce
  next
    fix p assume a: "\<forall>p<length hs. P (i + p div n) (hs ! p)" "p < length (drop n hs)"
    show "P (Suc i + p div n) (drop n hs ! p)" using a(2) assms a(1) [rule_format, of "n + p"] le_div_geq [of n "n + p"] by simp
  next
    fix p assume a: "\<forall>h\<in>set (take n hs). P i h" "\<forall>p<length (drop n hs). P (Suc i + p div n) (drop n hs ! p)" "p < length hs"
    show "P (i + p div n) (hs ! p)"
    proof (cases "p < n")
      case True
      then have "hs ! p \<in> set (take n hs)" using a(3) by (auto simp: in_set_conv_nth)
      then show ?thesis using a(1) True by simp
    next
      case False
      then show ?thesis using spec [OF a(2), of "p - n"] a(3) assms le_div_geq [of n p] by auto
    qed
  qed
  show "(\<exists>p<length hs. Q (i + p div n) (hs ! p)) \<longleftrightarrow>
      (\<exists>h\<in>set (take n hs). Q i h) \<or> (\<exists>p<length (drop n hs). Q (Suc i + p div n) (drop n hs ! p))"
    using all [of "\<lambda>j h. \<not> Q j h"] by blast
qed

text \<open>
  What the loop streams when the client accepts every write: hash \<open>p\<close> is read in batch
  \<open>p div batch\<close>.
\<close>

lemma pull_loop_stream:
  assumes "\<And>i. accepts i" "batch > 0" "distinct hs" "pull_loop batch rid env accepts i hs = (bs, st)"
  shows "st = OkStatus \<and> distinct (map out_prefix_hash (concat bs)) \<and>
    (\<forall>b\<in>set bs. b \<noteq> [] \<and> length b \<le> batch) \<and>
    (\<forall>e\<in>set (concat bs). \<exists>p<length hs. hs ! p = out_prefix_hash e \<and>
       e \<in> set (pull_hash (fst (env (i + p div batch))) (snd (env (i + p div batch))) rid (hs ! p))) \<and>
    (\<forall>p<length hs. pull_hash (fst (env (i + p div batch))) (snd (env (i + p div batch))) rid (hs ! p) \<noteq> [] \<longrightarrow>
       hs ! p \<in> out_prefix_hash ` set (concat bs))"
  using assms(3,4)
proof (induction hs arbitrary: i bs st rule: length_induct)
  case (1 hs)
  show ?case
  proof (cases "hs = []")
    case True
    then show ?thesis using 1 by (simp add: pull_loop.simps)
  next
    case False
    define es where "es = pull_batch (fst (env i)) (snd (env i)) rid (take batch hs)"
    obtain bs' st' where rest: "pull_loop batch rid env accepts (Suc i) (drop batch hs) = (bs', st')"
      by (cases "pull_loop batch rid env accepts (Suc i) (drop batch hs)")
    have "pull_loop batch rid env accepts i hs = ((if es = [] then [] else [es]) @ bs', st')"
      by (subst pull_loop.simps) (use False assms(1,2) in \<open>simp add: Let_def es_def [symmetric] rest\<close>)
    then have bs: "bs = (if es = [] then [] else [es]) @ bs'" "st = st'" using 1(3) by simp_all
    have "length (drop batch hs) < length hs" using False assms(2) by simp
    note IH = 1(1) [rule_format, OF this _ rest]
    have split: "set (take batch hs) \<inter> set (drop batch hs) = {}" "distinct (take batch hs)" "distinct (drop batch hs)"
      using 1(2) by (metis append_take_drop_id distinct_append)+
    note IH' = IH [OF split(3)]
    have c: "concat bs = es @ concat bs'" by (simp add: bs)
    have "distinct (map out_prefix_hash es)" using pull_batch_hashes(2) [OF split(2)] by (simp add: es_def)
    moreover have "out_prefix_hash ` set es \<subseteq> set (take batch hs)"
      using pull_batch_hashes(1) [of "fst (env i)" "snd (env i)" rid "take batch hs"] by (auto simp: es_def)
    moreover have "out_prefix_hash ` set (concat bs') \<subseteq> set (drop batch hs)" using IH' by (metis image_subsetI nth_mem)
    ultimately have "distinct (map out_prefix_hash (concat bs))" using IH' split(1) unfolding c by auto
    moreover have "\<forall>b\<in>set bs. b \<noteq> [] \<and> length b \<le> batch"
      using IH' pull_batch_hashes(3) [of "fst (env i)" "snd (env i)" rid "take batch hs"] by (auto simp: bs es_def)
    moreover have "\<exists>p<length hs. hs ! p = out_prefix_hash e \<and>
        e \<in> set (pull_hash (fst (env (i + p div batch))) (snd (env (i + p div batch))) rid (hs ! p))"
      if "e \<in> set (concat bs)" for e
      using that IH' unfolding c es_def set_append Un_iff pull_batch_mem
      by (subst by_batch(2) [OF assms(2), where Q = "\<lambda>j h. h = out_prefix_hash e \<and> e \<in> set (pull_hash (fst (env j)) (snd (env j)) rid h)"]) blast
    moreover have "\<forall>p<length hs. pull_hash (fst (env (i + p div batch))) (snd (env (i + p div batch))) rid (hs ! p) \<noteq> [] \<longrightarrow>
        hs ! p \<in> out_prefix_hash ` set (concat bs)"
      using IH' pull_batch_hashes(1) [of "fst (env i)" "snd (env i)" rid "take batch hs"] unfolding c set_append image_Un
      by (subst by_batch(1) [OF assms(2), where P = "\<lambda>j h. pull_hash (fst (env j)) (snd (env j)) rid h \<noteq> [] \<longrightarrow> _ h"]) (auto simp: es_def)
    ultimately show ?thesis using IH' bs(2) by blast
  qed
qed

text \<open>
  Property C30 (ownership stream). \<open>PullOwned\<close> releases the mutex between batches, so other calls
  may change the registry under it. Whatever the states its batches see, if the client accepts
  every write the stream ends with OK; its batches are non-empty and within the batch size; and no
  hash is sent twice. The hashes the owner had when the call started are read in some order,
  hash \<open>p\<close> in batch \<open>p div n\<close>: what is sent for it names the block and the rounded-up remaining
  seconds of an unexpired entry of the owner in the state that batch saw, and if the owner has an
  unexpired entry there, it is sent.
\<close>

theorem pull_owned_stream:
  assumes "reg_inv s" "owner = Some q" "job_name_pb q \<noteq> []" "pull_owned_batch_size s > 0" "\<forall>i. accepts i"
    and "PullOwned s owner env accepts = (bs, st)" "rid = RaidenIdFromProto q" "\<forall>i. reg_inv (fst (env i))"
    and "n = nat (pull_owned_batch_size s)"
  shows "st = OkStatus \<and> distinct (map out_prefix_hash (concat bs)) \<and> (\<forall>b\<in>set bs. b \<noteq> [] \<and> length b \<le> n) \<and>
    (\<exists>hs. distinct hs \<and> set hs = {h. rid \<in> raiden_id ` set (ent s h)} \<and>
       (\<forall>e\<in>set (concat bs). \<exists>p<length hs. hs ! p = out_prefix_hash e \<and>
          truthful (fst (env (p div n))) (snd (env (p div n))) rid e) \<and>
       (\<forall>p<length hs. owns_live (fst (env (p div n))) (snd (env (p div n))) rid (hs ! p) \<longrightarrow>
          hs ! p \<in> out_prefix_hash ` set (concat bs)))"
proof -
  have o: "owners_ok s" using assms(1) by (simp add: reg_inv_def)
  then have hs: "distinct (own s rid)" "set (own s rid) = {h. rid \<in> raiden_id ` set (ent s h)}" by (auto simp: owners_ok_def)
  have loop: "pull_loop n rid env accepts 0 (own s rid) = (bs, st)"
    using assms(2,3,6,7,9) by (auto simp: PullOwned_def missing_owner_def own_def pull_loop.simps split: option.splits)
  have "n > 0" using assms(4,9) by simp
  note l = pull_loop_stream [OF _ this hs(1) loop, unfolded add_0]
  have "\<forall>e\<in>set (concat bs). \<exists>p<length (own s rid). own s rid ! p = out_prefix_hash e \<and>
      truthful (fst (env (p div n))) (snd (env (p div n))) rid e"
    using l assms(5) pull_hash_truthful by metis
  moreover have "\<forall>p<length (own s rid). owns_live (fst (env (p div n))) (snd (env (p div n))) rid (own s rid ! p) \<longrightarrow>
      own s rid ! p \<in> out_prefix_hash ` set (concat bs)"
    using l assms(5,8) pull_hash_complete by metis
  ultimately show ?thesis using l assms(5) hs by blast
qed

theorem pull_owned_stream_witness:
  "fst (PullOwned example_registry (Some (example_id ''a'')) (\<lambda>i. (example_registry, 1 + int i)) (\<lambda>_. True)) =
     [[\<lparr>out_prefix_hash = ''h1'', out_block_id = 1, remaining_ttl_seconds = 10\<rparr>,
       \<lparr>out_prefix_hash = ''h2'', out_block_id = 3, remaining_ttl_seconds = 10\<rparr>]] \<and>
   snd (PullOwned example_registry (Some (example_id ''a'')) (\<lambda>i. (example_registry, 1 + int i)) (\<lambda>_. True)) = OkStatus"
proof
  show "fst (PullOwned example_registry (Some (example_id ''a'')) (\<lambda>i. (example_registry, 1 + int i)) (\<lambda>_. True)) =
     [[\<lparr>out_prefix_hash = ''h1'', out_block_id = 1, remaining_ttl_seconds = 10\<rparr>,
       \<lparr>out_prefix_hash = ''h2'', out_block_id = 3, remaining_ttl_seconds = 10\<rparr>]]" by code_simp
  have "pull_owned_batch_size example_registry > 0" by code_simp
  then show "snd (PullOwned example_registry (Some (example_id ''a''))
     (\<lambda>i. (example_registry, 1 + int i)) (\<lambda>_. True)) = OkStatus"
    using pull_owned_stream [OF example_registry_inv refl _ _ _ surjective_pairing refl _ refl, of "example_id ''a''"]
    by (simp add: example_id_def example_registry_inv)
qed

subsection \<open>Placement\<close>

lemma target_tier_props:
  assumes "cs \<noteq> []" "\<forall>c\<in>set cs. evict_tier (snd c) \<le> INT32_MAX"
  shows "\<exists>c\<in>set cs. evict_tier (snd c) = target_tier cs" "\<forall>c\<in>set cs. target_tier cs \<le> evict_tier (snd c)"
proof -
  have fold: "foldl (\<lambda>t c. min t (evict_tier (snd c))) x cs \<le> x \<and>
      (\<forall>c\<in>set cs. foldl (\<lambda>t c. min t (evict_tier (snd c))) x cs \<le> evict_tier (snd c)) \<and>
      (foldl (\<lambda>t c. min t (evict_tier (snd c))) x cs = x \<or>
       (\<exists>c\<in>set cs. evict_tier (snd c) = foldl (\<lambda>t c. min t (evict_tier (snd c))) x cs))" for x
  proof (induction cs arbitrary: x)
    case (Cons c cs)
    from Cons.IH [of "min x (evict_tier (snd c))"] show ?case by (auto simp: min_def split: if_splits)
  qed simp
  show "\<forall>c\<in>set cs. target_tier cs \<le> evict_tier (snd c)" using fold by (simp add: target_tier_def)
  show "\<exists>c\<in>set cs. evict_tier (snd c) = target_tier cs"
    using fold [of INT32_MAX] assms by (cases cs) (auto simp: target_tier_def)
qed

lemma take_sorted_rest:
  assumes "sorted (map f xs)" "c \<in> set xs - set (take n xs)" "t \<in> set (take n xs)"
  shows "f t \<le> f c"
proof -
  have "map f xs = map f (take n xs) @ map f (drop n xs)" by (metis append_take_drop_id map_append)
  moreover have "c \<in> set (drop n xs)" using assms(2) by (metis DiffE UnE append_take_drop_id set_append)
  ultimately show ?thesis using assms(1,3) by (auto simp: sorted_append)
qed

text \<open>
  Property C32 (placement targets). For a caller with a live registration in a pool group, the
  targets are distinct live stores of that group, all of one tier: the lowest tier above the
  caller's. There are as many as the limit and the number of such stores allow, in order of
  decreasing free blocks, and no store that was left out has more free blocks than one returned.
\<close>

theorem placement_targets_exact:
  assumes "amap_ok (store_registry s)" "\<forall>(rid, r)\<in>set (store_registry s). evict_tier r \<le> INT32_MAX"
    and "owner = Some q" "job_name_pb q \<noteq> []" "live_store s now (RaidenIdFromProto q) = Some caller"
    and "kv_pool_group caller \<noteq> []"
    and "peers = {(rid, r) \<in> set (store_registry s). kv_pool_group r = kv_pool_group caller \<and>
           evict_tier r > evict_tier caller \<and> \<not> expired (store_expire_time r) now}"
    and "nearest = {(rid, r) \<in> peers. \<forall>(rid', r') \<in> peers. evict_tier r \<le> evict_tier r'}"
  shows "\<exists>targets. GetPlacementTargets s now owner k = Inr (map (\<lambda>(rid, r). store_coordinates rid r) targets) \<and>
    set targets \<subseteq> nearest \<and> distinct (map fst targets) \<and>
    length targets = min (nat (if k > 0 then k else 3)) (card nearest) \<and>
    sorted (map (\<lambda>c. - free_blocks (snd c)) targets) \<and>
    (\<forall>c\<in>nearest - set targets. \<forall>t\<in>set targets. free_blocks (snd c) \<le> free_blocks (snd t))"
proof -
  define cs where "cs = placement_candidates s now caller"
  define near where "near = filter (\<lambda>c. evict_tier (snd c) = target_tier cs) cs"
  define ts where "ts = sort_key (\<lambda>c. - free_blocks (snd c)) near"
  have cs: "set cs = peers" by (auto simp: cs_def placement_candidates_def assms(7))
  have fst: "distinct (map fst near)" using assms(1)
    by (simp add: near_def cs_def placement_candidates_def distinct_map_filter)
  have near: "set near = nearest"
  proof (cases "cs = []")
    case False
    have "\<forall>c\<in>set cs. evict_tier (snd c) \<le> INT32_MAX" using assms(2) unfolding cs assms(7) by auto
    note tt = target_tier_props [OF False this, unfolded cs]
    have "nearest = {c \<in> peers. \<forall>c'\<in>peers. evict_tier (snd c) \<le> evict_tier (snd c')}"
      unfolding assms(8) by force
    also have "\<dots> = {c \<in> peers. evict_tier (snd c) = target_tier cs}"
      using tt by (metis (no_types, lifting) order.antisym)
    finally show ?thesis by (simp add: near_def cs)
  qed (use cs in \<open>auto simp: near_def assms(8)\<close>)
  define n where "n = nat (if k > 0 then k else 3)"
  have ts: "set ts = nearest" "distinct (map fst ts)" "length ts = card nearest"
      "sorted (map (\<lambda>c. - free_blocks (snd c)) ts)"
    using fst near distinct_card [of near] by (simp_all add: ts_def distinct_map)
  have "GetPlacementTargets s now owner k = Inr (map (\<lambda>(rid, r). store_coordinates rid r) (take n ts))"
    using assms(3-6) by (simp add: GetPlacementTargets_def missing_owner_def Let_def cs_def near_def ts_def n_def)
  moreover have "set (take n ts) \<subseteq> nearest" using ts(1) by (metis set_take_subset)
  moreover have "distinct (map fst (take n ts))" using ts(2) by (metis distinct_take take_map)
  moreover have "length (take n ts) = min n (card nearest)" using ts(3) by simp
  moreover have "sorted (map (\<lambda>c. - free_blocks (snd c)) (take n ts))" using ts(4) by (metis sorted_wrt_take take_map)
  moreover have "\<forall>c\<in>nearest - set (take n ts). \<forall>t\<in>set (take n ts). free_blocks (snd c) \<le> free_blocks (snd t)"
    using take_sorted_rest [OF ts(4), of _ n] by (simp add: ts(1))
  ultimately show ?thesis unfolding n_def by blast
qed

definition example_store :: "string \<Rightarrow> int \<Rightarrow> StoreInfo" where
  "example_store n tier = \<lparr>info_raiden_id = Some (example_id n), info_store_server_address = n,
     info_controller_address = n, info_ttl_seconds = 30, info_kv_pool_group = ''g'', info_evict_tier = tier\<rparr>"

definition example_stores :: GlobalRegistry where
  "example_stores = registry_run (GlobalRegistry_init (Seconds 60) 2)
     [DoRegisterStore 0 (Some (example_store ''a'' 0)), DoRegisterStore 0 (Some (example_store ''b'' 1)),
      DoRegisterStore 0 (Some (example_store ''c'' 1)), DoRegisterStore 0 (Some (example_store ''d'' 2)),
      DoHeartbeat 1 1 (Some (example_id ''c'')) 9]"

theorem placement_targets_exact_witness:
  "\<exists>targets. GetPlacementTargets example_stores 5 (Some (example_id ''a'')) 1 =
     Inr (map (\<lambda>(rid, r). store_coordinates rid r) targets) \<and> length targets \<le> 1"
proof -
  have "amap_ok (store_registry example_stores)"
    using registry_run_inv [OF reg_inv_init] reg_inv_maps unfolding example_stores_def by blast
  moreover have "\<forall>(rid, r)\<in>set (store_registry example_stores). evict_tier r \<le> INT32_MAX"
    "live_store example_stores 5 (RaidenIdFromProto (example_id ''a'')) \<noteq> None"
    "kv_pool_group (the (live_store example_stores 5 (RaidenIdFromProto (example_id ''a'')))) \<noteq> []"
    by code_simp+
  ultimately show ?thesis
    using placement_targets_exact [of example_stores, OF _ _ refl _ _ _ refl refl, of "example_id ''a''" 5
        "the (live_store example_stores 5 (RaidenIdFromProto (example_id ''a'')))" 1]
    by (force simp: example_id_def)
qed

text \<open>The most free of the two stores of the nearest tier is chosen.\<close>

lemma example_placement:
  "GetPlacementTargets example_stores 5 (Some (example_id ''a'')) 1 = Inr [(example_store ''c'' 0)\<lparr>info_ttl_seconds := 0,
     info_kv_pool_group := []\<rparr>]"
  by code_simp

subsection \<open>Transfer specifications\<close>

lemma block_difference_Nil:
  "length rs = length bs \<Longrightarrow> block_difference i rs bs = [] \<longleftrightarrow> rs = bs"
  by (induction rs bs arbitrary: i rule: list_induct2) auto

lemma SpecDifference_Nil: "SpecDifference a b = [] \<longleftrightarrow> a = b"
  using block_difference_Nil [of "block_bytes a" "block_bytes b" 0]
  by (auto simp: SpecDifference_def intro: KVTransferSpec.equality)

definition valid_specs :: "GlobalRegistry \<Rightarrow> bool" where
  "valid_specs s \<longleftrightarrow> (\<forall>g sp. map_of (transfer_specs s) g = Some sp \<longrightarrow> g \<noteq> [] \<and> SpecValidationError sp = [])"

lemma unregister_hash_specs: "transfer_specs (fst (unregister_hash rid (s, ov, errs) h)) = transfer_specs s"
  by (simp add: unregister_hash_def Let_def split: option.split)

lemma entries_keep_specs:
  "transfer_specs (snd (Register s now es)) = transfer_specs s"
  "transfer_specs (snd (Unregister s owner hs)) = transfer_specs s"
proof -
  have "transfer_specs (foldl (apply_entry now) s es) = transfer_specs s"
    by (induction es arbitrary: s) (auto simp: apply_entry_def Let_def split: option.split)
  then show "transfer_specs (snd (Register s now es)) = transfer_specs s" by (simp add: Register_def split: option.split)
  have "transfer_specs (fst (foldl (unregister_hash rid) st hs)) = transfer_specs (fst st)" for rid st
    by (induction hs arbitrary: st) (auto, metis prod_cases3 fst_conv unregister_hash_specs)
  then show "transfer_specs (snd (Unregister s owner hs)) = transfer_specs s"
    by (auto simp: Unregister_def split: prod.split) (metis fst_conv)
qed

lemma cleanup_keeps_specs: "transfer_specs (CleanupExpiredEntries s now) = transfer_specs s"
proof -
  have "transfer_specs (fst (foldl (cleanup_hash now) st hs)) = transfer_specs (fst st)" for st hs
    by (induction hs arbitrary: st) (auto simp: cleanup_hash_def Let_def erase_expired_frame split_beta)
  moreover have "transfer_specs (foldl remove_key s ks) = transfer_specs s" for s ks
    by (induction ks arbitrary: s) (auto simp: remove_key_def)
  ultimately show ?thesis by (simp add: CleanupExpiredEntries_def Let_def remove_stores)
qed

lemma registry_step_specs:
  "map_of (transfer_specs s) g = Some sp \<Longrightarrow> map_of (transfer_specs (registry_step s op)) g = Some sp"
  "valid_specs s \<Longrightarrow> valid_specs (registry_step s op)"
proof -
  have same: "transfer_specs (registry_step s op) = transfer_specs s \<or>
      (\<exists>sp' g'. transfer_specs (registry_step s op) = put g' sp' (transfer_specs s) \<and>
        map_of (transfer_specs s) g' = None \<and> g' \<noteq> [] \<and> SpecValidationError sp' = [])"
    using Lookup_frame
    by (cases op) (auto simp: entries_keep_specs cleanup_keeps_specs RegisterStore_def UnregisterStore_def
      Heartbeat_def RegisterKVTransferSpec_def Let_def split: option.split)
  then show "map_of (transfer_specs s) g = Some sp \<Longrightarrow> map_of (transfer_specs (registry_step s op)) g = Some sp"
    "valid_specs s \<Longrightarrow> valid_specs (registry_step s op)"
    unfolding valid_specs_def by (elim disjE exE conjE; auto split: if_splits; blast)+
qed

lemma registry_run_specs:
  "map_of (transfer_specs s) g = Some sp \<Longrightarrow> map_of (transfer_specs (registry_run s ops)) g = Some sp"
  "valid_specs s \<Longrightarrow> valid_specs (registry_run s ops)"
  unfolding registry_run_def by (induction ops arbitrary: s) (simp_all add: registry_step_specs)

text \<open>
  Property C33 (transfer specifications are write-once). Once a pool group has a transfer
  specification, no sequence of calls changes or drops it; a later registration for the group
  succeeds exactly when it declares the same specification, and never changes the state.
\<close>

theorem transfer_spec_write_once:
  assumes "s = registry_run (GlobalRegistry_init d n) before" "GetKVTransferSpec s g = Inr (Some sp)"
    and "s' = registry_run s later"
  shows "GetKVTransferSpec s' g = Inr (Some sp) \<and>
    (success (fst (fst (RegisterKVTransferSpec s' (Some sp') g))) \<longleftrightarrow> sp' = sp) \<and>
    snd (RegisterKVTransferSpec s' (Some sp') g) = s'"
proof -
  have g: "g \<noteq> []" "map_of (transfer_specs s) g = Some sp"
    using assms(2) by (auto simp: GetKVTransferSpec_def split: if_splits)
  have "valid_specs (GlobalRegistry_init d n)" by (simp add: valid_specs_def GlobalRegistry_init_def)
  then have "valid_specs s" unfolding assms(1) by (rule registry_run_specs(2))
  then have v: "SpecValidationError sp = []" using g(2) by (simp add: valid_specs_def)
  have "map_of (transfer_specs s') g = Some sp" using registry_run_specs(1) [OF g(2)] assms(3) by simp
  then show ?thesis using g v
    by (auto simp: GetKVTransferSpec_def RegisterKVTransferSpec_def SpecDifference_Nil)
qed

theorem transfer_spec_write_once_witness:
  "let spec = \<lparr>block_bytes = [16], num_kv_shards = 1, num_workers = 2\<rparr>;
       s = registry_run (GlobalRegistry_init (Seconds 1) 0) [DoRegisterSpec (Some spec) ''g''];
       s' = registry_run s [DoRegisterSpec (Some (spec\<lparr>num_workers := 3\<rparr>)) ''g'', DoCleanup 7]
   in GetKVTransferSpec s' ''g'' = Inr (Some spec)"
proof -
  let ?spec = "\<lparr>block_bytes = [16], num_kv_shards = 1, num_workers = 2\<rparr>"
  let ?s = "registry_run (GlobalRegistry_init (Seconds 1) 0) [DoRegisterSpec (Some ?spec) ''g'']"
  have "GetKVTransferSpec ?s ''g'' = Inr (Some ?spec)" by code_simp
  from transfer_spec_write_once [OF refl this refl] show ?thesis by (simp only: Let_def)
qed

end
