(* ===== verification/RequestBlocks.thy ===== *)
theory RequestBlocks
  imports Complex_Main WorkUnits LiveSegments
begin

text \<open>
  \<open>kv_cache/reshard/request_block_registry.{h,cc}\<close>: the block registrations of the producer
  ranks, per request and generation (\<open>uuid\<close>), and their lifecycle: claim by a planning attempt,
  completion votes, cancellation tombstones, abandonment and expiry. Each call that takes the
  controller mutex is one atomic step; \<open>Register\<close> takes it twice and sees two directory states.
  Clock readings are finite doubles; \<open>deadline\<close> is the rounded sum \<open>now + ttl_s_\<close>. A claim owner
  is an opaque pointer, of which only equality is used.
\<close>

section \<open>State\<close>

type_synonym LifecycleKey = "string \<times> int"
type_synonym BlockKey = "string \<times> RaidenId"

record RequestBlockRegistration =
  row_uuid :: int
  row_block_ids :: "int list"
  row_expires_at :: real
  row_pool_spans :: "PoolSpanRegistration list"

record Completions =
  voted_units :: "RaidenId set"
  votes_expire_at :: real

record RequestBlockRegistry =
  deadline :: "real \<Rightarrow> real"
  request_blocks :: "(BlockKey, RequestBlockRegistration) amap"
  claimed :: "(LifecycleKey, real) amap"
  claimed_units :: "(LifecycleKey, RaidenId set) amap"
  claimed_owners :: "(LifecycleKey, nat) amap"
  completed_units :: "(LifecycleKey, Completions) amap"
  cancelled :: "(LifecycleKey, real) amap"

definition RequestBlockRegistry_init :: "(real \<Rightarrow> real) \<Rightarrow> RequestBlockRegistry" where
  "RequestBlockRegistry_init dl =
     \<lparr>deadline = dl, request_blocks = [], claimed = [], claimed_units = [], claimed_owners = [],
      completed_units = [], cancelled = []\<rparr>"

section \<open>Purging and retirement\<close>

definition PurgeExpiredRequestBlocksLocked :: "RequestBlockRegistry \<Rightarrow> real \<Rightarrow> RequestBlockRegistry" where
  "PurgeExpiredRequestBlocksLocked s now =
     s\<lparr>request_blocks := filter (\<lambda>(k, r). \<not> row_expires_at r \<le> now) (request_blocks s)\<rparr>"

definition PurgeExpiredLifecycleLocked :: "RequestBlockRegistry \<Rightarrow> real \<Rightarrow> RequestBlockRegistry" where
  "PurgeExpiredLifecycleLocked s now =
     (let live_claims = filter (\<lambda>(k, t). \<not> t \<le> now) (claimed s);
          orphaned = filter (\<lambda>k. map_of live_claims k = None) (keys (claimed_units s))
      in s\<lparr>claimed := live_claims,
           cancelled := filter (\<lambda>(k, t). \<not> t \<le> now) (cancelled s),
           completed_units := filter (\<lambda>(k, c). \<not> votes_expire_at c \<le> now) (completed_units s),
           claimed_owners := filter (\<lambda>(k, o'). k \<notin> set orphaned) (claimed_owners s),
           claimed_units := filter (\<lambda>(k, us). k \<notin> set orphaned) (claimed_units s)\<rparr>)"

definition generation_rows :: "RequestBlockRegistry \<Rightarrow> LifecycleKey \<Rightarrow> BlockKey list" where
  "generation_rows s key =
     map fst (filter (\<lambda>(bk, r). fst bk = fst key \<and> row_uuid r = snd key) (request_blocks s))"

definition erase_rows :: "RequestBlockRegistry \<Rightarrow> BlockKey list \<Rightarrow> RequestBlockRegistry" where
  "erase_rows s ks = s\<lparr>request_blocks := foldl (\<lambda>m k. del k m) (request_blocks s) ks\<rparr>"

definition RetireLocked :: "RequestBlockRegistry \<Rightarrow> LifecycleKey \<Rightarrow> int \<times> RequestBlockRegistry" where
  "RetireLocked s key =
     (let rows = generation_rows s key; s1 = erase_rows s rows
      in (int (length rows),
          s1\<lparr>claimed := del key (claimed s1), claimed_units := del key (claimed_units s1),
             claimed_owners := del key (claimed_owners s1), completed_units := del key (completed_units s1),
             cancelled := del key (cancelled s1)\<rparr>))"

section \<open>Register\<close>

definition kMaxSpanCount :: int where
  "kMaxSpanCount = 1048576"

definition PoolLiveBytes :: "PoolSpecProto \<Rightarrow> int status_or" where
  "PoolLiveBytes pool_proto =
     and_then (PoolSpecFromProto pool_proto) (\<lambda>pool.
     and_then (ExpandPoolLiveSegments pool) (\<lambda>segments.
       foldM (\<lambda>total segment. add64 total (seg_size segment)) 0 segments))"

definition live_bytes_by_tag :: "RaidenId \<Rightarrow> PoolSpecProto list \<Rightarrow> (string, int) amap status_or" where
  "live_bytes_by_tag u manifest =
     foldM (\<lambda>m pool. and_then (PoolLiveBytes pool) (\<lambda>live.
       case map_of m (tag_pb pool) of
         None \<Rightarrow> Inr (put (tag_pb pool) live m)
       | Some old \<Rightarrow>
           if old \<noteq> live then
             InvalidArgumentError (''pools tagged '' @ tag_pb pool @ '' disagree on live bytes for '' @
               PythonRepr u @ ''; byte-span registration requires one geometry per tag'')
           else Inr m)) [] manifest"

definition check_span_fields :: "string \<Rightarrow> nat \<Rightarrow> PoolByteSpan \<Rightarrow> status" where
  "check_span_fields tag num_ids sp =
     (if size_bytes sp \<le> 0 then
        InvalidArgumentError (''byte span size_bytes must be positive ('' @ tag @ '')'')
      else if span_count sp \<le> 0 then
        InvalidArgumentError (''byte span count must be positive ('' @ tag @ '')'')
      else if span_count sp > kMaxSpanCount then
        InvalidArgumentError (''byte span count '' @ dec (span_count sp) @
          '' exceeds the expansion bound ('' @ tag @ '')'')
      else if src_offset_bytes sp < 0 \<or> dst_offset_bytes sp < 0 \<or> src_stride_bytes sp < 0 \<or>
          dst_stride_bytes sp < 0 \<or> dst_block_index sp < 0 then
        InvalidArgumentError (''byte span fields must be non-negative ('' @ tag @ '')'')
      else if src_block_ordinal sp < 0 \<or> src_block_ordinal sp \<ge> int num_ids then
        InvalidArgumentError (''byte span ordinal '' @ dec (src_block_ordinal sp) @
          '' is outside the registration'' @ [CHR 0x27] @ ''s '' @ dec (int num_ids) @ '' block ids ('' @ tag @ '')'')
      else OkStatus)"

text \<open>\<open>offset + (count - 1) * stride + size\<close> in signed 64-bit arithmetic.\<close>

definition span_end :: "int \<Rightarrow> int \<Rightarrow> int \<Rightarrow> int \<Rightarrow> int status_or" where
  "span_end offset count stride bytes =
     and_then (mul64 (count - 1) stride) (\<lambda>d. and_then (add64 offset d) (\<lambda>e. add64 e bytes))"

definition validate_span :: "string \<Rightarrow> nat \<Rightarrow> int \<Rightarrow> int \<Rightarrow> PoolByteSpan \<Rightarrow> int status_or" where
  "validate_span tag num_ids live span_bytes sp =
     and_then (check_span_fields tag num_ids sp) (\<lambda>_.
     and_then (span_end (src_offset_bytes sp) (span_count sp) (src_stride_bytes sp) (size_bytes sp)) (\<lambda>src_end.
       if src_end > live then
         InvalidArgumentError (''byte span exceeds its source block live bytes ('' @ tag @ ''): end='' @
           dec src_end @ '', live='' @ dec live)
       else and_then (mul64 (size_bytes sp) (span_count sp)) (\<lambda>b. add64 span_bytes b)))"

definition validate_pool_span ::
  "RaidenId \<Rightarrow> (string, int) amap \<Rightarrow> string list \<Rightarrow> PoolSpanRegistration \<Rightarrow> string list status_or" where
  "validate_pool_span u live_by_tag seen entry =
     (let tag = span_tag entry in
      if tag = [] then InvalidArgumentError ''pool span registration tag must not be empty''
      else if tag \<in> set seen then
        InvalidArgumentError (''duplicate pool span registration tag: '' @ tag)
      else case map_of live_by_tag tag of
        None \<Rightarrow> InvalidArgumentError (''pool span registration '' @ tag @
          '' does not match any registered pool for '' @ PythonRepr u)
      | Some live \<Rightarrow>
          if list_ex (\<lambda>b. b < 0) (span_block_ids entry) then
            InvalidArgumentError (''pool span registration '' @ tag @ '' block_ids must be non-negative'')
          else if \<not> distinct (span_block_ids entry) then
            InvalidArgumentError (''pool span registration '' @ tag @ '' block_ids must not contain duplicates'')
          else and_then (foldM (validate_span tag (length (span_block_ids entry)) live) 0 (spans entry)) (\<lambda>span_bytes.
            if declared_bytes entry \<noteq> span_bytes then
              InvalidArgumentError (''pool span registration '' @ tag @ '' declared_bytes '' @
                dec (declared_bytes entry) @ '' disagrees with the span sum '' @ dec span_bytes)
            else Inr (tag # seen)))"

definition check_request :: "string \<Rightarrow> int \<Rightarrow> status" where
  "check_request req_id uuid =
     (if req_id = [] then InvalidArgumentError ''req_id must not be empty''
      else if uuid \<le> 0 then InvalidArgumentError ''uuid must be positive''
      else OkStatus)"

text \<open>
  The checks before the second critical section; \<open>d\<close> is the directory the first one sees. Every
  accepted entry is normalised to itself, since its declared bytes equal the span sum.
\<close>

definition validate_registration ::
  "WorkUnitDirectory \<Rightarrow> string \<Rightarrow> int \<Rightarrow> RaidenId \<Rightarrow> int list \<Rightarrow> PoolSpanRegistration list \<Rightarrow> status" where
  "validate_registration d req_id uuid u block_ids pool_spans =
     and_then (check_request req_id uuid) (\<lambda>_.
       if list_ex (\<lambda>b. b < 0) block_ids then InvalidArgumentError ''block_ids must be non-negative''
       else if \<not> distinct block_ids then InvalidArgumentError ''block_ids must not contain duplicates''
       else if pool_spans = [] then OkStatus
       else and_then (live_bytes_by_tag u (PoolManifestLocked d u)) (\<lambda>live.
         and_then (foldM (validate_pool_span u live) [] pool_spans) (\<lambda>_. OkStatus)))"

definition purge_all :: "RequestBlockRegistry \<Rightarrow> real \<Rightarrow> RequestBlockRegistry" where
  "purge_all s now = PurgeExpiredLifecycleLocked (PurgeExpiredRequestBlocksLocked s now) now"

definition cancelled_error :: "string \<Rightarrow> int \<Rightarrow> 'a status_or" where
  "cancelled_error req_id uuid =
     InvalidArgumentError (''Request block registration was cancelled for req_id='' @ req_id @ '', uuid='' @ dec uuid)"

definition register_locked ::
  "WorkUnitDirectory \<Rightarrow> RequestBlockRegistry \<Rightarrow> real \<Rightarrow> string \<Rightarrow> int \<Rightarrow> RaidenId \<Rightarrow> int list \<Rightarrow>
   PoolSpanRegistration list \<Rightarrow> status \<times> RequestBlockRegistry" where
  "register_locked d s now req_id uuid u block_ids pool_spans =
     (let s1 = purge_all s now;
          row = \<lparr>row_uuid = uuid, row_block_ids = block_ids, row_expires_at = deadline s now,
                 row_pool_spans = pool_spans\<rparr>;
          stored = s1\<lparr>request_blocks := put (req_id, u) row (request_blocks s1)\<rparr>
      in if \<not> IsRegisteredLocked d u then
           (InvalidArgumentError (''Work unit is not registered: '' @ PythonRepr u), s1)
         else if map_of (cancelled s1) (req_id, uuid) \<noteq> None then (cancelled_error req_id uuid, s1)
         else if map_of (claimed s1) (req_id, uuid) \<noteq> None then
           (InvalidArgumentError (''Request block registration is already claimed for req_id='' @ req_id @
             '', uuid='' @ dec uuid), s1)
         else case map_of (request_blocks s1) (req_id, u) of
           None \<Rightarrow> (OkStatus, stored)
         | Some current \<Rightarrow>
             if row_uuid current \<noteq> uuid \<or> row_block_ids current \<noteq> block_ids \<or>
                row_pool_spans current \<noteq> pool_spans then
               (InvalidArgumentError (''Conflicting request block registration for req_id='' @ req_id @
                  '', unit='' @ PythonRepr u), s1)
             else (OkStatus, stored))"

definition Register ::
  "WorkUnitDirectory \<Rightarrow> WorkUnitDirectory \<Rightarrow> RequestBlockRegistry \<Rightarrow> real \<Rightarrow> string \<Rightarrow> int \<Rightarrow> RaidenId \<Rightarrow>
   int list \<Rightarrow> PoolSpanRegistration list \<Rightarrow> status \<times> RequestBlockRegistry" where
  "Register d1 d2 s now req_id uuid u block_ids pool_spans =
     (case validate_registration d1 req_id uuid u block_ids pool_spans of
        Inl e \<Rightarrow> (Inl e, s)
      | Inr _ \<Rightarrow> register_locked d2 s now req_id uuid u block_ids pool_spans)"

section \<open>Lifecycle\<close>

definition Release ::
  "RequestBlockRegistry \<Rightarrow> real \<Rightarrow> string \<Rightarrow> int \<Rightarrow> int status_or \<times> RequestBlockRegistry" where
  "Release s now req_id uuid =
     (case check_request req_id uuid of
        Inl e \<Rightarrow> (Inl e, s)
      | Inr _ \<Rightarrow> (case RetireLocked (purge_all s now) (req_id, uuid) of (n, s') \<Rightarrow> (Inr n, s')))"

definition Complete ::
  "RequestBlockRegistry \<Rightarrow> real \<Rightarrow> string \<Rightarrow> int \<Rightarrow> RaidenId \<Rightarrow> int status_or \<times> RequestBlockRegistry" where
  "Complete s now req_id uuid u =
     (case check_request req_id uuid of
        Inl e \<Rightarrow> (Inl e, s)
      | Inr _ \<Rightarrow>
          let s1 = purge_all s now;
              key = (req_id, uuid);
              expected = map_of (claimed_units s1) key;
              row = map_of (request_blocks s1) (req_id, u);
              matches = (case row of None \<Rightarrow> False | Some r \<Rightarrow> row_uuid r = uuid)
          in if expected = None \<and> matches \<and> row_block_ids (the row) \<noteq> [] then
               (InvalidArgumentError (''Only an empty producer registration may complete before the '' @
                  ''request block snapshot is claimed''), s1)
             else if \<not> matches \<and> (case expected of None \<Rightarrow> True | Some us \<Rightarrow> u \<notin> us) then (Inr 0, s1)
             else
               let votes = insert u (case map_of (completed_units s1) key of None \<Rightarrow> {} | Some c \<Rightarrow> voted_units c);
                   s2 = s1\<lparr>completed_units := put key \<lparr>voted_units = votes, votes_expire_at = deadline s1 now\<rparr>
                            (completed_units s1)\<rparr>
               in case expected of
                    None \<Rightarrow> (Inr 0, s2)
                  | Some us \<Rightarrow>
                      if us \<subseteq> votes then (case RetireLocked s2 key of (n, s3) \<Rightarrow> (Inr n, s3))
                      else (Inr 0, s2))"

definition CancelIfUnclaimed ::
  "RequestBlockRegistry \<Rightarrow> real \<Rightarrow> string \<Rightarrow> int \<Rightarrow> bool status_or \<times> RequestBlockRegistry" where
  "CancelIfUnclaimed s now req_id uuid =
     (case check_request req_id uuid of
        Inl e \<Rightarrow> (Inl e, s)
      | Inr _ \<Rightarrow>
          let s1 = PurgeExpiredLifecycleLocked s now; key = (req_id, uuid) in
          if map_of (cancelled s1) key \<noteq> None then (Inr True, s1)
          else if map_of (claimed s1) key \<noteq> None then (Inr False, s1)
          else
            let s2 = s1\<lparr>cancelled := put key (deadline s1 now) (cancelled s1),
                        completed_units := del key (completed_units s1),
                        claimed_units := del key (claimed_units s1),
                        claimed_owners := del key (claimed_owners s1)\<rparr>
            in (Inr True, erase_rows s2 (generation_rows s2 key)))"

text \<open>The snapshot loop of \<open>LookupAndClaim\<close>; \<open>emplace\<close> keeps the first of equal keys.\<close>

definition snapshot_rows ::
  "RequestBlockRegistry \<Rightarrow> string \<Rightarrow> int \<Rightarrow> RaidenId list \<Rightarrow> (RaidenId, RequestBlockRegistration) amap status_or" where
  "snapshot_rows s req_id uuid units =
     foldM (\<lambda>result u.
       case map_of (request_blocks s) (req_id, u) of
         Some r \<Rightarrow>
           if row_uuid r = uuid then Inr (if map_of result u = None then put u r result else result)
           else InvalidArgumentError (''Missing producer block registration for req_id='' @ req_id @ '', uuid='' @
             dec uuid @ '', unit='' @ PythonRepr u)
       | None \<Rightarrow> InvalidArgumentError (''Missing producer block registration for req_id='' @ req_id @ '', uuid='' @
             dec uuid @ '', unit='' @ PythonRepr u)) [] units"

definition check_claim ::
  "RequestBlockRegistry \<Rightarrow> LifecycleKey \<Rightarrow> RaidenId set \<Rightarrow> nat \<Rightarrow> status" where
  "check_claim s key us claim_owner =
     (case map_of (claimed_units s) key of
        None \<Rightarrow> OkStatus
      | Some existing \<Rightarrow>
          if (case map_of (claimed_owners s) key of None \<Rightarrow> 0 | Some o' \<Rightarrow> o') \<noteq> claim_owner then
            InvalidArgumentError (''Request block snapshot is already claimed by another planning '' @ ''attempt'')
          else if existing \<noteq> us then
            InvalidArgumentError (''Request block snapshot was already claimed for a different '' @ ''source unit set'')
          else OkStatus)"

definition commit_claim ::
  "RequestBlockRegistry \<Rightarrow> real \<Rightarrow> LifecycleKey \<Rightarrow> RaidenId set \<Rightarrow> nat \<Rightarrow> RequestBlockRegistry" where
  "commit_claim s now key us claim_owner =
     (let s1 = s\<lparr>claimed := put key (deadline s now) (claimed s), claimed_units := put key us (claimed_units s),
                 claimed_owners := put key claim_owner (claimed_owners s)\<rparr>
      in case map_of (completed_units s1) key of
           None \<Rightarrow> s1
         | Some c \<Rightarrow>
             let s2 = s1\<lparr>completed_units := put key (c\<lparr>votes_expire_at := deadline s now\<rparr>) (completed_units s1)\<rparr>
             in if us \<subseteq> voted_units c then snd (RetireLocked s2 key) else s2)"

definition LookupAndClaim ::
  "RequestBlockRegistry \<Rightarrow> real \<Rightarrow> string \<Rightarrow> int \<Rightarrow> RaidenId list \<Rightarrow> nat \<Rightarrow>
   (RaidenId, RequestBlockRegistration) amap status_or \<times> RequestBlockRegistry" where
  "LookupAndClaim s now req_id uuid units claim_owner =
     (let s1 = purge_all s now; key = (req_id, uuid) in
      if map_of (cancelled s1) key \<noteq> None then (cancelled_error req_id uuid, s1)
      else case check_claim s1 key (set units) claim_owner of
        Inl e \<Rightarrow> (Inl e, s1)
      | Inr _ \<Rightarrow>
          (case snapshot_rows s1 req_id uuid units of
             Inl e \<Rightarrow> (Inl e, s1)
           | Inr result \<Rightarrow> (Inr result, commit_claim s1 now key (set units) claim_owner)))"

definition AbandonClaim ::
  "RequestBlockRegistry \<Rightarrow> string \<Rightarrow> int \<Rightarrow> nat \<Rightarrow> bool \<times> RequestBlockRegistry" where
  "AbandonClaim s req_id uuid claim_owner =
     (let key = (req_id, uuid);
          existing = (case map_of (claimed_owners s) key of None \<Rightarrow> 0 | Some o' \<Rightarrow> o')
      in if map_of (claimed s) key = None \<or> existing \<noteq> claim_owner then (False, s)
         else (True, s\<lparr>claimed := del key (claimed s), claimed_units := del key (claimed_units s),
                       claimed_owners := del key (claimed_owners s)\<rparr>))"

definition InvalidateUnitLocked :: "RequestBlockRegistry \<Rightarrow> RaidenId \<Rightarrow> RequestBlockRegistry" where
  "InvalidateUnitLocked s u =
     s\<lparr>request_blocks := filter (\<lambda>(k, r). snd k \<noteq> u) (request_blocks s)\<rparr>"

section \<open>Invariant\<close>

declare map_of_eq_None_iff [simp del] map_of_eq_Some_iff [simp del]

definition maps_ok :: "RequestBlockRegistry \<Rightarrow> bool" where
  "maps_ok s \<longleftrightarrow> amap_ok (request_blocks s) \<and> amap_ok (claimed s) \<and> amap_ok (claimed_units s) \<and>
     amap_ok (claimed_owners s) \<and> amap_ok (completed_units s) \<and> amap_ok (cancelled s)"

text \<open>
  A claim has its unit set and its owner; a generation is not both claimed and cancelled; a
  cancelled generation has no rows.
\<close>

definition lifecycle_ok :: "RequestBlockRegistry \<Rightarrow> bool" where
  "lifecycle_ok s \<longleftrightarrow>
     dom (map_of (claimed_units s)) = dom (map_of (claimed s)) \<and>
     dom (map_of (claimed_owners s)) = dom (map_of (claimed s)) \<and>
     dom (map_of (cancelled s)) \<inter> dom (map_of (claimed s)) = {} \<and>
     (\<forall>bk r. map_of (request_blocks s) bk = Some r \<longrightarrow> map_of (cancelled s) (fst bk, row_uuid r) = None)"

definition rb_inv :: "RequestBlockRegistry \<Rightarrow> bool" where
  "rb_inv s \<longleftrightarrow> maps_ok s \<and> lifecycle_ok s"

text \<open>The part of a map whose time stamps are later than \<open>now\<close>.\<close>

definition unexpired :: "('v \<Rightarrow> real) \<Rightarrow> real \<Rightarrow> ('k \<Rightarrow> 'v option) \<Rightarrow> 'k \<Rightarrow> 'v option" where
  "unexpired stamp now m k = (case m k of None \<Rightarrow> None | Some v \<Rightarrow> if stamp v \<le> now then None else Some v)"

lemma unexpired_Some: "unexpired f now m k = Some v \<longleftrightarrow> m k = Some v \<and> now < f v"
  by (auto simp: unexpired_def split: option.split)

lemma unexpired_None: "unexpired f now m k = None \<longleftrightarrow> (\<forall>v. m k = Some v \<longrightarrow> f v \<le> now)"
  by (auto simp: unexpired_def split: option.split)

lemma filter_unexpired:
  assumes "amap_ok m"
  shows "map_of (filter (\<lambda>(k, v). \<not> f v \<le> now) m) = unexpired f now (map_of m)"
  using map_of_filter_ok [OF assms, of "\<lambda>(k, v). \<not> f v \<le> now"]
  by (auto simp: unexpired_def fun_eq_iff split: option.split)

lemma purge_rows [simp]:
  "maps_ok s \<Longrightarrow> map_of (request_blocks (PurgeExpiredRequestBlocksLocked s now)) =
     unexpired row_expires_at now (map_of (request_blocks s))"
  "claimed (PurgeExpiredRequestBlocksLocked s now) = claimed s"
  "claimed_units (PurgeExpiredRequestBlocksLocked s now) = claimed_units s"
  "claimed_owners (PurgeExpiredRequestBlocksLocked s now) = claimed_owners s"
  "completed_units (PurgeExpiredRequestBlocksLocked s now) = completed_units s"
  "cancelled (PurgeExpiredRequestBlocksLocked s now) = cancelled s"
  "deadline (PurgeExpiredRequestBlocksLocked s now) = deadline s"
  "maps_ok s \<Longrightarrow> maps_ok (PurgeExpiredRequestBlocksLocked s now)"
  by (simp_all add: PurgeExpiredRequestBlocksLocked_def maps_ok_def filter_unexpired)

lemma orphan_filter:
  assumes "amap_ok m" "amap_ok us" "dom (map_of m) = dom (map_of us)"
  shows "map_of (filter (\<lambda>(k, v). k \<notin> set (filter (\<lambda>k. c k = None) (keys us))) m) k =
    (if c k = None then None else map_of m k)"
proof -
  have "k \<in> set (keys us) \<longleftrightarrow> map_of m k \<noteq> None" using assms(3) by (auto simp: dom_map_of_conv_image_fst [symmetric])
  then show ?thesis using map_of_filter_ok [OF assms(1), of "\<lambda>(k, v). k \<notin> set (filter (\<lambda>k. c k = None) (keys us))" k]
    by (auto split: option.splits)
qed

lemma purge_lifecycle:
  assumes "maps_ok s" "dom (map_of (claimed_units s)) = dom (map_of (claimed s))"
    "dom (map_of (claimed_owners s)) = dom (map_of (claimed s))" and eq: "s' = PurgeExpiredLifecycleLocked s now"
  shows "request_blocks s' = request_blocks s" "deadline s' = deadline s" "maps_ok s'"
    "map_of (claimed s') = unexpired id now (map_of (claimed s))"
    "map_of (cancelled s') = unexpired id now (map_of (cancelled s))"
    "map_of (completed_units s') = unexpired votes_expire_at now (map_of (completed_units s))"
    "map_of (claimed_units s') k = (if map_of (claimed s') k = None then None else map_of (claimed_units s) k)"
    "map_of (claimed_owners s') k = (if map_of (claimed s') k = None then None else map_of (claimed_owners s) k)"
proof -
  have m: "amap_ok (claimed s)" "amap_ok (cancelled s)" "amap_ok (completed_units s)" "amap_ok (claimed_units s)"
    "amap_ok (claimed_owners s)" using assms(1) by (auto simp: maps_ok_def)
  show "request_blocks s' = request_blocks s" "deadline s' = deadline s"
    by (simp_all add: eq PurgeExpiredLifecycleLocked_def Let_def)
  show "maps_ok s'" using assms(1) by (simp add: eq PurgeExpiredLifecycleLocked_def Let_def maps_ok_def)
  show "map_of (claimed s') = unexpired id now (map_of (claimed s))"
    "map_of (cancelled s') = unexpired id now (map_of (cancelled s))"
    "map_of (completed_units s') = unexpired votes_expire_at now (map_of (completed_units s))"
    using filter_unexpired [OF m(1), of id] filter_unexpired [OF m(2), of id] filter_unexpired [OF m(3), of votes_expire_at]
    by (simp_all add: eq PurgeExpiredLifecycleLocked_def Let_def)
  show "map_of (claimed_units s') k = (if map_of (claimed s') k = None then None else map_of (claimed_units s) k)"
    "map_of (claimed_owners s') k = (if map_of (claimed s') k = None then None else map_of (claimed_owners s) k)"
    using orphan_filter [OF m(4,4) refl, of "map_of (claimed s')" k]
      orphan_filter [OF m(5,4), of "map_of (claimed s')" k] assms(2,3)
    by (simp_all add: eq PurgeExpiredLifecycleLocked_def Let_def)
qed

lemma purge_lifecycle_inv:
  assumes "rb_inv s" shows "rb_inv (PurgeExpiredLifecycleLocked s now)"
proof -
  define s' where "s' = PurgeExpiredLifecycleLocked s now"
  have l: "lifecycle_ok s" "maps_ok s" using assms by (auto simp: rb_inv_def)
  have d: "dom (map_of (claimed_units s)) = dom (map_of (claimed s))"
    "dom (map_of (claimed_owners s)) = dom (map_of (claimed s))" using l(1) by (auto simp: lifecycle_ok_def)
  note p = purge_lifecycle [OF l(2) d s'_def]
  have c: "map_of (claimed s) k \<noteq> None" if "map_of (claimed s') k \<noteq> None" for k
    using that by (auto simp: p unexpired_Some)
  have du: "map_of (claimed_units s) k = None \<longleftrightarrow> map_of (claimed s) k = None"
    "map_of (claimed_owners s) k = None \<longleftrightarrow> map_of (claimed s) k = None" for k using d by (metis domIff)+
  have "map_of (claimed_units s') k = None \<longleftrightarrow> map_of (claimed s') k = None"
    "map_of (claimed_owners s') k = None \<longleftrightarrow> map_of (claimed s') k = None" for k
    unfolding p(7,8) using c [of k] du [of k] by (cases "map_of (claimed s') k"; simp)+
  then have "dom (map_of (claimed_units s')) = dom (map_of (claimed s'))"
    "dom (map_of (claimed_owners s')) = dom (map_of (claimed s'))" by (auto simp: dom_def)
  moreover have "dom (map_of (cancelled s')) \<inter> dom (map_of (claimed s')) = {}"
    using l(1) unfolding lifecycle_ok_def p by (auto simp: dom_def unexpired_Some)
  moreover have "map_of (cancelled s') (fst bk, row_uuid r) = None" if "map_of (request_blocks s') bk = Some r" for bk r
    using l(1) that unfolding lifecycle_ok_def p unexpired_None by (cases bk) auto
  ultimately show ?thesis using p(3) by (simp add: rb_inv_def lifecycle_ok_def s'_def)
qed

lemma rb_inv_fewer_rows:
  assumes "rb_inv s" "amap_ok rows" "\<And>bk r. map_of rows bk = Some r \<Longrightarrow> map_of (request_blocks s) bk = Some r"
  shows "rb_inv (s\<lparr>request_blocks := rows\<rparr>)"
  using assms unfolding rb_inv_def maps_ok_def lifecycle_ok_def by simp blast

lemma purge_rows_inv: "rb_inv s \<Longrightarrow> rb_inv (PurgeExpiredRequestBlocksLocked s now)"
  unfolding PurgeExpiredRequestBlocksLocked_def
  by (rule rb_inv_fewer_rows) (auto simp: rb_inv_def maps_ok_def filter_unexpired unexpired_Some)

lemma purge_all_facts:
  assumes "rb_inv s" "s' = purge_all s now"
  shows "rb_inv s'" "deadline s' = deadline s"
    "map_of (request_blocks s') = unexpired row_expires_at now (map_of (request_blocks s))"
    "map_of (claimed s') = unexpired id now (map_of (claimed s))"
    "map_of (cancelled s') = unexpired id now (map_of (cancelled s))"
    "map_of (completed_units s') = unexpired votes_expire_at now (map_of (completed_units s))"
    "map_of (claimed_units s') k = (if map_of (claimed s') k = None then None else map_of (claimed_units s) k)"
    "map_of (claimed_owners s') k = (if map_of (claimed s') k = None then None else map_of (claimed_owners s) k)"
proof -
  define s1 where "s1 = PurgeExpiredRequestBlocksLocked s now"
  have m: "maps_ok s" and m1: "maps_ok s1" and i: "rb_inv s1"
    using assms(1) purge_rows_inv by (simp_all add: rb_inv_def s1_def)
  have d: "dom (map_of (claimed_units s1)) = dom (map_of (claimed s1))"
    "dom (map_of (claimed_owners s1)) = dom (map_of (claimed s1))" using i by (auto simp: rb_inv_def lifecycle_ok_def)
  have eq: "s' = PurgeExpiredLifecycleLocked s1 now" by (simp add: assms(2) purge_all_def s1_def)
  show "rb_inv s'" unfolding eq by (rule purge_lifecycle_inv [OF i])
  note p = purge_lifecycle [OF m1 d eq]
  show "deadline s' = deadline s"
    "map_of (request_blocks s') = unexpired row_expires_at now (map_of (request_blocks s))"
    "map_of (claimed s') = unexpired id now (map_of (claimed s))"
    "map_of (cancelled s') = unexpired id now (map_of (cancelled s))"
    "map_of (completed_units s') = unexpired votes_expire_at now (map_of (completed_units s))"
    using p m by (simp_all add: s1_def)
  show "map_of (claimed_units s') k = (if map_of (claimed s') k = None then None else map_of (claimed_units s) k)"
    "map_of (claimed_owners s') k = (if map_of (claimed s') k = None then None else map_of (claimed_owners s) k)"
    using p(7,8) [of k] by (simp_all add: s1_def)
qed

lemma erase_rows_frame [simp]:
  "claimed (erase_rows s ks) = claimed s" "claimed_units (erase_rows s ks) = claimed_units s"
  "claimed_owners (erase_rows s ks) = claimed_owners s" "completed_units (erase_rows s ks) = completed_units s"
  "cancelled (erase_rows s ks) = cancelled s" "deadline (erase_rows s ks) = deadline s"
  by (simp_all add: erase_rows_def)

lemma erase_generation:
  assumes "maps_ok s" "s' = erase_rows s (generation_rows s key)"
  shows "amap_ok (request_blocks s')"
    "map_of (request_blocks s') bk = (case map_of (request_blocks s) bk of None \<Rightarrow> None
       | Some r \<Rightarrow> if (fst bk, row_uuid r) = key then None else Some r)"
proof -
  have ok: "amap_ok (request_blocks s)" using assms(1) by (simp add: maps_ok_def)
  show "amap_ok (request_blocks s')" using ok by (simp add: assms(2) erase_rows_def del_many)
  have "bk \<in> set (generation_rows s key) \<longleftrightarrow> (\<exists>r. map_of (request_blocks s) bk = Some r \<and> (fst bk, row_uuid r) = key)"
    using ok unfolding generation_rows_def by (cases key) (force simp: map_of_eq_Some_iff)
  then show "map_of (request_blocks s') bk = (case map_of (request_blocks s) bk of None \<Rightarrow> None
       | Some r \<Rightarrow> if (fst bk, row_uuid r) = key then None else Some r)"
    by (auto simp: assms(2) erase_rows_def del_many restrict_map_def split: option.split)
qed

lemma generation_rows_Nil:
  assumes "maps_ok s"
  shows "generation_rows s (r, u) = [] \<longleftrightarrow> (\<forall>b x. map_of (request_blocks s) (r, b) = Some x \<longrightarrow> row_uuid x \<noteq> u)"
proof -
  have "((r, b), x) \<in> set (request_blocks s) \<longleftrightarrow> map_of (request_blocks s) (r, b) = Some x" for b x
    using assms by (metis maps_ok_def mem_amap_iff)
  then show ?thesis by (fastforce simp: generation_rows_def filter_empty_conv)
qed

lemma RetireLocked_facts:
  assumes "rb_inv s" "RetireLocked s key = (n, s')"
  shows "rb_inv s'" "n = int (length (generation_rows s key))"
    "map_of (request_blocks s') bk = (case map_of (request_blocks s) bk of None \<Rightarrow> None
       | Some r \<Rightarrow> if (fst bk, row_uuid r) = key then None else Some r)"
    "map_of (claimed s') = (map_of (claimed s))(key := None)"
    "map_of (claimed_units s') = (map_of (claimed_units s))(key := None)"
    "map_of (claimed_owners s') = (map_of (claimed_owners s))(key := None)"
    "map_of (completed_units s') = (map_of (completed_units s))(key := None)"
    "map_of (cancelled s') = (map_of (cancelled s))(key := None)"
    "deadline s' = deadline s"
proof -
  have m: "maps_ok s" and l: "lifecycle_ok s" using assms(1) by (auto simp: rb_inv_def)
  define s1 where "s1 = erase_rows s (generation_rows s key)"
  note e = erase_generation [OF m s1_def]
  have f: "claimed s1 = claimed s" "claimed_units s1 = claimed_units s" "claimed_owners s1 = claimed_owners s"
    "completed_units s1 = completed_units s" "cancelled s1 = cancelled s" "deadline s1 = deadline s"
    by (simp_all add: s1_def)
  have eq: "n = int (length (generation_rows s key))" and s': "s' = s1\<lparr>claimed := del key (claimed s1),
      claimed_units := del key (claimed_units s1), claimed_owners := del key (claimed_owners s1),
      completed_units := del key (completed_units s1), cancelled := del key (cancelled s1)\<rparr>"
    using assms(2) by (auto simp: RetireLocked_def Let_def s1_def)
  show "n = int (length (generation_rows s key))" by (rule eq)
  show "map_of (request_blocks s') bk = (case map_of (request_blocks s) bk of None \<Rightarrow> None
       | Some r \<Rightarrow> if (fst bk, row_uuid r) = key then None else Some r)"
    "map_of (claimed s') = (map_of (claimed s))(key := None)"
    "map_of (claimed_units s') = (map_of (claimed_units s))(key := None)"
    "map_of (claimed_owners s') = (map_of (claimed_owners s))(key := None)"
    "map_of (completed_units s') = (map_of (completed_units s))(key := None)"
    "map_of (cancelled s') = (map_of (cancelled s))(key := None)" "deadline s' = deadline s" for bk
    using e(2) by (simp_all add: s' f)
  have "maps_ok s'" using m e(1) by (simp add: s' maps_ok_def f)
  moreover have "lifecycle_ok s'" using l unfolding lifecycle_ok_def
    by (auto simp: s' f e(2) split: option.splits if_splits)
  ultimately show "rb_inv s'" by (simp add: rb_inv_def)
qed

section \<open>Operation sequences\<close>

datatype lifecycle_op =
  DoRegister WorkUnitDirectory WorkUnitDirectory real string int RaidenId "int list" "PoolSpanRegistration list"
| DoRelease real string int
| DoComplete real string int RaidenId
| DoCancel real string int
| DoClaim real string int "RaidenId list" nat
| DoAbandon string int nat
| DoInvalidate RaidenId

fun lifecycle_step :: "RequestBlockRegistry \<Rightarrow> lifecycle_op \<Rightarrow> RequestBlockRegistry" where
  "lifecycle_step s (DoRegister d1 d2 now r u unit' ids sps) = snd (Register d1 d2 s now r u unit' ids sps)"
| "lifecycle_step s (DoRelease now r u) = snd (Release s now r u)"
| "lifecycle_step s (DoComplete now r u unit') = snd (Complete s now r u unit')"
| "lifecycle_step s (DoCancel now r u) = snd (CancelIfUnclaimed s now r u)"
| "lifecycle_step s (DoClaim now r u us o') = snd (LookupAndClaim s now r u us o')"
| "lifecycle_step s (DoAbandon r u o') = snd (AbandonClaim s r u o')"
| "lifecycle_step s (DoInvalidate unit') = InvalidateUnitLocked s unit'"

definition lifecycle_run :: "RequestBlockRegistry \<Rightarrow> lifecycle_op list \<Rightarrow> RequestBlockRegistry" where
  "lifecycle_run s ops = foldl lifecycle_step s ops"

lemma rb_inv_init: "rb_inv (RequestBlockRegistry_init dl)"
  by (simp add: RequestBlockRegistry_init_def rb_inv_def maps_ok_def lifecycle_ok_def)

lemma rb_inv_completed: "rb_inv s \<Longrightarrow> rb_inv (s\<lparr>completed_units := put k c (completed_units s)\<rparr>)"
  by (simp add: rb_inv_def maps_ok_def lifecycle_ok_def)

text \<open>What the two outcomes of \<open>Register\<close> do to the state.\<close>

lemma Register_cases:
  obtains e where "Register d1 d2 s now r u w ids sps = (Inl e, s)"
  | e where "Register d1 d2 s now r u w ids sps = (Inl e, purge_all s now)"
  | "Register d1 d2 s now r u w ids sps = (OkStatus, (purge_all s now)\<lparr>request_blocks :=
        put (r, w) \<lparr>row_uuid = u, row_block_ids = ids, row_expires_at = deadline s now, row_pool_spans = sps\<rparr>
          (request_blocks (purge_all s now))\<rparr>)"
    "map_of (cancelled (purge_all s now)) (r, u) = None" "map_of (claimed (purge_all s now)) (r, u) = None"
    "validate_registration d1 r u w ids sps = OkStatus" "IsRegisteredLocked d2 w"
proof -
  let ?row = "\<lparr>row_uuid = u, row_block_ids = ids, row_expires_at = deadline s now, row_pool_spans = sps\<rparr>"
  have "(\<exists>e. register_locked d2 s now r u w ids sps = (Inl e, purge_all s now)) \<or>
    (register_locked d2 s now r u w ids sps = (OkStatus, (purge_all s now)\<lparr>request_blocks :=
        put (r, w) ?row (request_blocks (purge_all s now))\<rparr>) \<and>
     map_of (cancelled (purge_all s now)) (r, u) = None \<and> map_of (claimed (purge_all s now)) (r, u) = None \<and>
     IsRegisteredLocked d2 w)"
    by (auto simp: register_locked_def Let_def cancelled_error_def split: option.split)
  then show ?thesis using that by (cases "validate_registration d1 r u w ids sps") (auto simp: Register_def)
qed

lemma Register_rb_inv:
  assumes "rb_inv s" shows "rb_inv (snd (Register d1 d2 s now r u w ids sps))"
proof (rule Register_cases [of d1 d2 s now r u w ids sps])
  note p = purge_all_facts(1) [OF assms refl, of now]
  fix e assume "Register d1 d2 s now r u w ids sps = (Inl e, purge_all s now)"
  then show ?thesis using p by simp
next
  note p = purge_all_facts(1) [OF assms refl, of now]
  assume "map_of (cancelled (purge_all s now)) (r, u) = None"
    and "Register d1 d2 s now r u w ids sps = (OkStatus, (purge_all s now)\<lparr>request_blocks :=
        put (r, w) \<lparr>row_uuid = u, row_block_ids = ids, row_expires_at = deadline s now, row_pool_spans = sps\<rparr>
          (request_blocks (purge_all s now))\<rparr>)"
  then show ?thesis using p by (simp add: rb_inv_def maps_ok_def lifecycle_ok_def)
qed (simp add: assms)

lemma Release_rb_inv: "rb_inv s \<Longrightarrow> rb_inv (snd (Release s now r u))"
  using RetireLocked_facts(1) [OF purge_all_facts(1) [OF _ refl], of s now "(r, u)"]
  by (auto simp: Release_def split: sum.split prod.split)

lemma Complete_rb_inv:
  assumes "rb_inv s" shows "rb_inv (snd (Complete s now r u w))"
proof -
  note p = purge_all_facts(1) [OF assms refl, of now]
  have "rb_inv s3" if "RetireLocked ((purge_all s now)\<lparr>completed_units := put k c (completed_units (purge_all s now))\<rparr>) k' = (n, s3)"
    for k c k' n s3 by (rule RetireLocked_facts(1) [OF rb_inv_completed [OF p] that])
  then show ?thesis using assms p rb_inv_completed [OF p]
    by (auto simp: Complete_def Let_def split: sum.split prod.split option.split)
qed

lemma Cancel_rb_inv:
  assumes "rb_inv s" shows "rb_inv (snd (CancelIfUnclaimed s now r u))"
proof -
  define s1 where "s1 = PurgeExpiredLifecycleLocked s now"
  have i: "rb_inv s1" using purge_lifecycle_inv [OF assms] by (simp add: s1_def)
  have "rb_inv (erase_rows s2 (generation_rows s2 (r, u)))" if n: "map_of (claimed s1) (r, u) = None"
    and s2: "s2 = s1\<lparr>cancelled := put (r, u) (deadline s1 now) (cancelled s1),
      completed_units := del (r, u) (completed_units s1), claimed_units := del (r, u) (claimed_units s1),
      claimed_owners := del (r, u) (claimed_owners s1)\<rparr>" for s2
  proof -
    have m: "maps_ok s2" using i by (simp add: s2 rb_inv_def maps_ok_def)
    note e = erase_generation [OF m refl, of "(r, u)"]
    have "map_of (claimed_units s1) (r, u) = None" "map_of (claimed_owners s1) (r, u) = None"
      using i n by (metis rb_inv_def lifecycle_ok_def domIff)+
    then have "lifecycle_ok (erase_rows s2 (generation_rows s2 (r, u)))"
      using i n unfolding rb_inv_def lifecycle_ok_def e(2) by (auto simp: s2 split: option.splits if_splits)
    then show ?thesis using m e(1) by (simp add: rb_inv_def maps_ok_def)
  qed
  then show ?thesis using i assms
    by (auto simp: CancelIfUnclaimed_def Let_def s1_def [symmetric] split: sum.split)
qed

lemma LookupAndClaim_cases:
  obtains (refused) e where "LookupAndClaim s now r u us w = (Inl e, purge_all s now)"
  | (granted) rows where "LookupAndClaim s now r u us w = (Inr rows, commit_claim (purge_all s now) now (r, u) (set us) w)"
      "map_of (cancelled (purge_all s now)) (r, u) = None"
      "check_claim (purge_all s now) (r, u) (set us) w = OkStatus"
      "snapshot_rows (purge_all s now) r u us = Inr rows"
proof -
  have "(\<exists>e. LookupAndClaim s now r u us w = (Inl e, purge_all s now)) \<or>
    (\<exists>rows. LookupAndClaim s now r u us w = (Inr rows, commit_claim (purge_all s now) now (r, u) (set us) w) \<and>
      map_of (cancelled (purge_all s now)) (r, u) = None \<and>
      check_claim (purge_all s now) (r, u) (set us) w = OkStatus \<and>
      snapshot_rows (purge_all s now) r u us = Inr rows)"
    by (auto simp: LookupAndClaim_def Let_def cancelled_error_def split: sum.split)
  then show ?thesis using that by blast
qed

lemma commit_claim_inv:
  assumes "rb_inv s" "map_of (cancelled s) k = None"
  shows "rb_inv (commit_claim s now k us w)"
proof -
  define s1 where "s1 = s\<lparr>claimed := put k (deadline s now) (claimed s), claimed_units := put k us (claimed_units s),
                 claimed_owners := put k w (claimed_owners s)\<rparr>"
  have 1: "rb_inv s1" using assms by (auto simp: s1_def rb_inv_def maps_ok_def lifecycle_ok_def)
  have "rb_inv (snd (RetireLocked (s1\<lparr>completed_units := put k c (completed_units s1)\<rparr>) k))" for c
    by (metis RetireLocked_facts(1) rb_inv_completed [OF 1] prod.collapse)
  then show ?thesis using 1 rb_inv_completed [OF 1]
    by (auto simp: commit_claim_def s1_def [symmetric] Let_def split: option.split)
qed

lemma Claim_rb_inv:
  assumes "rb_inv s" shows "rb_inv (snd (LookupAndClaim s now r u us w))"
  by (rule LookupAndClaim_cases [of s now r u us w])
    (use purge_all_facts(1) [OF assms refl, of now] commit_claim_inv in auto)

lemma Abandon_rb_inv: "rb_inv s \<Longrightarrow> rb_inv (snd (AbandonClaim s r u w))"
  by (auto simp: AbandonClaim_def Let_def rb_inv_def maps_ok_def lifecycle_ok_def split: if_splits)

lemma Invalidate_rows:
  "maps_ok s \<Longrightarrow> map_of (request_blocks (InvalidateUnitLocked s w)) bk =
     (if snd bk = w then None else map_of (request_blocks s) bk)"
  using map_of_filter_ok [of "request_blocks s" "\<lambda>(k, r). snd k \<noteq> w" bk]
  by (auto simp: InvalidateUnitLocked_def maps_ok_def split: option.split)

lemma Invalidate_rb_inv: "rb_inv s \<Longrightarrow> rb_inv (InvalidateUnitLocked s w)"
  using Invalidate_rows [of s w] unfolding InvalidateUnitLocked_def
  by (intro rb_inv_fewer_rows) (auto simp: rb_inv_def maps_ok_def split: if_splits)

lemmas operations_rb_inv = Register_rb_inv Release_rb_inv Complete_rb_inv Cancel_rb_inv Claim_rb_inv
  Abandon_rb_inv Invalidate_rb_inv

lemma lifecycle_step_inv: "rb_inv s \<Longrightarrow> rb_inv (lifecycle_step s op)"
  by (cases op) (simp_all add: operations_rb_inv)

lemma lifecycle_run_inv: "rb_inv s \<Longrightarrow> rb_inv (lifecycle_run s ops)"
  unfolding lifecycle_run_def by (induction ops arbitrary: s) (auto intro: lifecycle_step_inv)

section \<open>Tombstones and claims persist\<close>

fun op_clock :: "lifecycle_op \<Rightarrow> real option" where
  "op_clock (DoRegister d1 d2 now r u w ids sps) = Some now"
| "op_clock (DoRelease now r u) = Some now"
| "op_clock (DoComplete now r u w) = Some now"
| "op_clock (DoCancel now r u) = Some now"
| "op_clock (DoClaim now r u us w) = Some now"
| "op_clock (DoAbandon r u w) = None"
| "op_clock (DoInvalidate w) = None"

definition before :: "real \<Rightarrow> lifecycle_op \<Rightarrow> bool" where
  "before t op = (case op_clock op of None \<Rightarrow> True | Some now \<Rightarrow> now < t)"

fun releases :: "LifecycleKey \<Rightarrow> lifecycle_op \<Rightarrow> bool" where
  "releases k (DoRelease now r u) = ((r, u) = k)"
| "releases k _ = False"

text \<open>The lifecycle entries of a generation.\<close>

definition gen :: "RequestBlockRegistry \<Rightarrow> LifecycleKey \<Rightarrow>
    real option \<times> RaidenId set option \<times> nat option \<times> real option" where
  "gen s k = (map_of (claimed s) k, map_of (claimed_units s) k, map_of (claimed_owners s) k, map_of (cancelled s) k)"

lemma gen_frame [simp]:
  "gen (s\<lparr>request_blocks := x\<rparr>) k = gen s k" "gen (s\<lparr>completed_units := y\<rparr>) k = gen s k"
  "gen (PurgeExpiredRequestBlocksLocked s now) k = gen s k" "gen (InvalidateUnitLocked s w) k = gen s k"
  "gen (erase_rows s ks) k = gen s k"
  by (simp_all add: gen_def InvalidateUnitLocked_def)

lemma gen_other [simp]:
  "k \<noteq> k0 \<Longrightarrow> gen (snd (RetireLocked s k0)) k = gen s k"
  "k \<noteq> k0 \<Longrightarrow> gen (commit_claim s now k0 us w) k = gen s k"
  by (simp_all add: gen_def RetireLocked_def commit_claim_def Let_def split: option.split)

definition held :: "RequestBlockRegistry \<Rightarrow> LifecycleKey \<Rightarrow> real \<Rightarrow> bool" where
  "held s k t \<longleftrightarrow> map_of (claimed s) k = Some t \<or> map_of (cancelled s) k = Some t"

lemma claim_parts:
  assumes "rb_inv s"
  shows "map_of (claimed_units s) k = None \<longleftrightarrow> map_of (claimed s) k = None"
    "map_of (claimed_owners s) k = None \<longleftrightarrow> map_of (claimed s) k = None"
    "map_of (cancelled s) k \<noteq> None \<Longrightarrow> map_of (claimed s) k = None"
  using assms unfolding rb_inv_def lifecycle_ok_def by (metis domIff, metis domIff, blast)

lemma gen_purge:
  assumes "rb_inv s" "held s k t" "now < t"
  shows "gen (PurgeExpiredLifecycleLocked s now) k = gen s k" "gen (purge_all s now) k = gen s k"
proof -
  have 1: "gen (PurgeExpiredLifecycleLocked s now) k = gen s k" if "rb_inv s" "held s k t" for s
  proof -
    have m: "maps_ok s" "dom (map_of (claimed_units s)) = dom (map_of (claimed s))"
      "dom (map_of (claimed_owners s)) = dom (map_of (claimed s))"
      using that(1) by (auto simp: rb_inv_def lifecycle_ok_def)
    show ?thesis using purge_lifecycle [OF m refl, of now] claim_parts [OF that(1), of k] that(2) assms(3)
      by (auto simp: gen_def held_def unexpired_def split: option.split)
  qed
  then show "gen (PurgeExpiredLifecycleLocked s now) k = gen s k" using assms by blast
  have "held (PurgeExpiredRequestBlocksLocked s now) k t" using assms(2) by (simp add: held_def)
  from 1 [OF purge_rows_inv [OF assms(1)] this] show "gen (purge_all s now) k = gen s k" by (simp add: purge_all_def)
qed

lemma held_gen: "gen s' k = gen s k \<Longrightarrow> held s' k t = held s k t"
  by (simp add: gen_def held_def)

text \<open>What an operation does to a generation other than its own, and to its own while it is held.\<close>

lemma gen_Register:
  assumes "rb_inv s" "held s k t" "now < t"
  shows "gen (snd (Register d1 d2 s now r u w ids sps)) k = gen s k"
  by (rule Register_cases [of d1 d2 s now r u w ids sps]) (simp_all add: gen_purge [OF assms])

lemma gen_Release:
  assumes "rb_inv s" "held s k t" "now < t" "k \<noteq> (r, u)"
  shows "gen (snd (Release s now r u)) k = gen s k"
  using gen_other(1) [OF assms(4), of "purge_all s now"] gen_purge(2) [OF assms(1-3)]
  by (auto simp: Release_def split: sum.split prod.split)

definition votes_of :: "RequestBlockRegistry \<Rightarrow> LifecycleKey \<Rightarrow> RaidenId set" where
  "votes_of s k = (case map_of (completed_units s) k of None \<Rightarrow> {} | Some c \<Rightarrow> voted_units c)"

definition cast_vote :: "RequestBlockRegistry \<Rightarrow> real \<Rightarrow> LifecycleKey \<Rightarrow> RaidenId \<Rightarrow> RequestBlockRegistry" where
  "cast_vote s now k w =
     s\<lparr>completed_units := put k \<lparr>voted_units = insert w (votes_of s k), votes_expire_at = deadline s now\<rparr> (completed_units s)\<rparr>"

lemma cast_vote_facts [simp]:
  "gen (cast_vote s now k0 w) k = gen s k" "deadline (cast_vote s now k0 w) = deadline s"
  "votes_of (cast_vote s now k0 w) k = (if k = k0 then insert w (votes_of s k) else votes_of s k)"
  by (simp_all add: cast_vote_def, simp add: votes_of_def)

lemma Complete_cases:
  obtains (error) e where "Complete s now r u w = (Inl e, s)"
  | (early) e where "Complete s now r u w = (Inl e, purge_all s now)"
  | (ignored) "Complete s now r u w = (Inr 0, purge_all s now)"
  | (voted) "Complete s now r u w = (Inr 0, cast_vote (purge_all s now) now (r, u) w)"
  | (retired) n s' us where "Complete s now r u w = (Inr n, s')"
      "RetireLocked (cast_vote (purge_all s now) now (r, u) w) (r, u) = (n, s')"
      "map_of (claimed_units (purge_all s now)) (r, u) = Some us"
      "us \<subseteq> insert w (votes_of (purge_all s now) (r, u))"
proof -
  let ?s1 = "purge_all s now"
  let ?row = "map_of (request_blocks ?s1) (r, w)" and ?x = "map_of (claimed_units ?s1) (r, u)"
  let ?matches = "case ?row of None \<Rightarrow> False | Some r \<Rightarrow> row_uuid r = u"
  define a where "a \<longleftrightarrow> ?x = None \<and> ?matches \<and> row_block_ids (the ?row) \<noteq> []"
  define b where "b \<longleftrightarrow> \<not> ?matches \<and> (case ?x of None \<Rightarrow> True | Some us \<Rightarrow> w \<notin> us)"
  define votes where "votes = insert w (votes_of ?s1 (r, u))"
  define s2 where "s2 = cast_vote ?s1 now (r, u) w"
  have eq: "Complete s now r u w = (case check_request r u of Inl e \<Rightarrow> (Inl e, s) | Inr _ \<Rightarrow>
      if a then (InvalidArgumentError (''Only an empty producer registration may complete before the '' @
        ''request block snapshot is claimed''), ?s1)
      else if b then (Inr 0, ?s1)
      else case ?x of None \<Rightarrow> (Inr 0, s2) | Some us \<Rightarrow>
        if us \<subseteq> votes then (Inr (fst (RetireLocked s2 (r, u))), snd (RetireLocked s2 (r, u))) else (Inr 0, s2))"
    by (simp only: a_def b_def Complete_def Let_def s2_def votes_def votes_of_def cast_vote_def split_beta)
  show ?thesis
  proof (cases "check_request r u")
    case Inr: (Inr _)
    consider a | "\<not> a" b | "\<not> a" "\<not> b" "?x = None" | us where "\<not> a" "\<not> b" "?x = Some us" "us \<subseteq> votes"
      | us where "\<not> a" "\<not> b" "?x = Some us" "\<not> us \<subseteq> votes" by fastforce
    then show ?thesis
    proof cases
      case 1
      show ?thesis by (rule early) (use 1 Inr eq in simp)
    next
      case 2
      show ?thesis by (rule ignored) (use 2 Inr eq in simp)
    next
      case 3
      show ?thesis by (rule voted) (use 3 Inr eq s2_def in simp)
    next
      case (4 us)
      show ?thesis by (rule retired [of "fst (RetireLocked s2 (r, u))" "snd (RetireLocked s2 (r, u))"])
        (use 4 Inr eq s2_def votes_def in simp_all)
    next
      case (5 us)
      show ?thesis by (rule voted) (use 5 Inr eq s2_def in simp)
    qed
  qed (use error eq in simp)
qed

lemma gen_Complete:
  assumes "rb_inv s" "held s k t" "now < t" "k \<noteq> (r, u) \<or> map_of (claimed s) k = None"
  shows "gen (snd (Complete s now r u w)) k = gen s k"
  using Complete_cases [of s now r u w]
proof cases
  case (retired n s' us)
  note g = gen_purge(2) [OF assms(1-3)]
  have "k \<noteq> (r, u)"
    using assms(4) retired(3) g claim_parts(1) [OF assms(1), of "(r, u)"] by (auto simp: gen_def)
  from gen_other(1) [OF this, of "cast_vote (purge_all s now) now (r, u) w"]
  show ?thesis using retired g by simp
qed (simp_all add: gen_purge(2) [OF assms(1-3)])

lemma gen_Cancel:
  assumes "rb_inv s" "held s k t" "now < t"
  shows "gen (snd (CancelIfUnclaimed s now r u)) k = gen s k"
proof -
  note g = gen_purge(1) [OF assms]
  have "k \<noteq> (r, u)" if "map_of (cancelled (PurgeExpiredLifecycleLocked s now)) (r, u) = None"
    "map_of (claimed (PurgeExpiredLifecycleLocked s now)) (r, u) = None"
    using that g assms(2) by (auto simp: gen_def held_def)
  then show ?thesis using g
    by (auto simp: CancelIfUnclaimed_def Let_def split: sum.split) (auto simp: gen_def)
qed

lemma gen_Claim:
  assumes "rb_inv s" "held s k t" "now < t" "k = (r, u) \<Longrightarrow> map_of (claimed_owners s) k \<noteq> Some w"
  shows "gen (snd (LookupAndClaim s now r u us w)) k = gen s k"
  using LookupAndClaim_cases [of s now r u us w]
proof cases
  case (granted rows)
  note g = gen_purge(2) [OF assms(1-3)]
  have "k \<noteq> (r, u)"
    using granted(2,3) g assms(2,4) claim_parts [OF assms(1), of k]
    by (auto simp: gen_def held_def check_claim_def split: option.splits if_splits)
  then show ?thesis using granted(1) g by simp
qed (simp add: gen_purge(2) [OF assms(1-3)])

lemma gen_Abandon:
  assumes "k = (r, u) \<Longrightarrow> map_of (claimed s) k = None \<or> map_of (claimed_owners s) k \<noteq> Some w" "rb_inv s"
  shows "gen (snd (AbandonClaim s r u w)) k = gen s k"
  using assms claim_parts(2) [OF assms(2), of k]
  by (auto simp: AbandonClaim_def Let_def gen_def split: option.splits)

lemmas gen_operations = gen_Register gen_Release gen_Complete gen_Cancel gen_Claim gen_Abandon

lemma lifecycle_step_tombstone:
  assumes "rb_inv s" "held s k t" "before t op" "map_of (claimed s) k = None" "\<not> releases k op"
  shows "gen (lifecycle_step s op) k = gen s k"
proof (cases op)
  case (DoRelease now r u)
  then show ?thesis using assms gen_Release [OF assms(1,2), of now r u] by (auto simp: before_def)
next
  case (DoClaim now r u us w)
  have "map_of (claimed_owners s) k \<noteq> Some w" using assms(4) claim_parts(2) [OF assms(1), of k] by auto
  then show ?thesis using DoClaim assms(3) gen_Claim [OF assms(1,2), of now r u w us] by (auto simp: before_def)
next
  case (DoAbandon r u w)
  then show ?thesis using gen_Abandon [OF _ assms(1), of k r u w] assms(4) by auto
qed (use assms gen_Register [OF assms(1,2)] gen_Cancel [OF assms(1,2)] gen_Complete [OF assms(1,2)] in
    \<open>simp_all add: before_def\<close>)

lemma lifecycle_run_tombstone:
  assumes "rb_inv s" "held s k t" "list_all (before t) ops" "map_of (claimed s) k = None"
    "list_all (\<lambda>op. \<not> releases k op) ops"
  shows "gen (lifecycle_run s ops) k = gen s k"
  using assms unfolding lifecycle_run_def
proof (induction ops arbitrary: s)
  case (Cons op ops)
  have g: "gen (lifecycle_step s op) k = gen s k"
    by (rule lifecycle_step_tombstone [OF Cons.prems(1,2)]) (use Cons.prems in auto)
  have "gen (foldl lifecycle_step (lifecycle_step s op) ops) k = gen (lifecycle_step s op) k"
    by (rule Cons.IH [OF lifecycle_step_inv [OF Cons.prems(1)]])
      (use Cons.prems g held_gen [OF g] in \<open>auto simp: gen_def\<close>)
  then show ?case using g by simp
qed simp

text \<open>
  A claim of the units by the owner that holds until the time at least, with no more votes than
  the given ones. A vote, a cancellation, and a claim by anyone, the owner included, keep it as
  long as some claimed unit has not voted.
\<close>

definition claim_kept ::
  "RequestBlockRegistry \<Rightarrow> LifecycleKey \<Rightarrow> real \<Rightarrow> RaidenId set \<Rightarrow> nat \<Rightarrow> RaidenId set \<Rightarrow> bool" where
  "claim_kept s k t us w V \<longleftrightarrow> (\<exists>t'\<ge>t. \<exists>x. gen s k = (Some t', Some us, Some w, x)) \<and> votes_of s k \<subseteq> V"

definition in_period :: "real \<Rightarrow> real \<Rightarrow> lifecycle_op \<Rightarrow> bool" where
  "in_period t0 t op = (case op_clock op of None \<Rightarrow> True | Some now \<Rightarrow> t0 \<le> now \<and> now < t)"

lemma claim_kept_uncancelled: "rb_inv s \<Longrightarrow> claim_kept s k t us w V \<Longrightarrow> map_of (cancelled s) k = None"
  by (rule ccontr, drule (1) claim_parts(3)) (auto simp: claim_kept_def gen_def)

lemma votes_frame [simp]:
  "votes_of (s\<lparr>request_blocks := x\<rparr>) k = votes_of s k" "votes_of (erase_rows s ks) k = votes_of s k"
  "votes_of (InvalidateUnitLocked s v) k = votes_of s k"
  "k \<noteq> k0 \<Longrightarrow> votes_of (snd (RetireLocked s k0)) k = votes_of s k"
  "k \<noteq> k0 \<Longrightarrow> votes_of (commit_claim s now k0 us w) k = votes_of s k"
  "votes_of (snd (AbandonClaim s r u w)) k = votes_of s k"
  by (simp_all add: votes_of_def InvalidateUnitLocked_def RetireLocked_def commit_claim_def AbandonClaim_def Let_def
    split: option.split)

lemma votes_purge:
  assumes "rb_inv s"
  shows "votes_of (purge_all s now) k \<subseteq> votes_of s k" "votes_of (PurgeExpiredLifecycleLocked s now) k \<subseteq> votes_of s k"
proof -
  have m: "maps_ok s" "dom (map_of (claimed_units s)) = dom (map_of (claimed s))"
    "dom (map_of (claimed_owners s)) = dom (map_of (claimed s))"
    using assms by (auto simp: rb_inv_def lifecycle_ok_def)
  show "votes_of (purge_all s now) k \<subseteq> votes_of s k" "votes_of (PurgeExpiredLifecycleLocked s now) k \<subseteq> votes_of s k"
    using purge_all_facts(6) [OF assms refl, of now] purge_lifecycle(6) [OF m refl, of now]
    by (auto simp: votes_of_def unexpired_def split: option.splits if_splits)
qed

lemma claim_kept_purge:
  assumes "rb_inv s" "claim_kept s k t us w V" "now < t"
  shows "claim_kept (purge_all s now) k t us w V" "claim_kept (PurgeExpiredLifecycleLocked s now) k t us w V"
proof -
  obtain t' where "t \<le> t'" "held s k t'" using assms(2) by (auto simp: claim_kept_def gen_def held_def)
  then have "held s k t'" "now < t'" using assms(3) by simp_all
  from gen_purge [OF assms(1) this] votes_purge [OF assms(1), of now k] assms(2)
  show "claim_kept (purge_all s now) k t us w V" "claim_kept (PurgeExpiredLifecycleLocked s now) k t us w V"
    by (auto simp: claim_kept_def)
qed

lemma claim_kept_Complete:
  assumes "rb_inv s" "claim_kept s k t us w V" "now < t" "\<not> us \<subseteq> V" "k = (r, u) \<Longrightarrow> v \<in> V"
  shows "claim_kept (snd (Complete s now r u v)) k t us w V"
  using Complete_cases [of s now r u v]
proof cases
  case voted
  then show ?thesis using claim_kept_purge(1) [OF assms(1-3)] assms(5) by (auto simp: claim_kept_def)
next
  case (retired n s' us')
  note c = claim_kept_purge(1) [OF assms(1-3)]
  have "k \<noteq> (r, u)" using c assms(4,5) retired(3,4) by (auto simp: claim_kept_def gen_def)
  then show ?thesis using c retired(1) by (simp add: claim_kept_def flip: retired(2))
      (metis cast_vote_facts(1,3) gen_other(1) retired(2) snd_conv votes_frame(4))
qed (use assms claim_kept_purge(1) [OF assms(1-3)] in simp_all)

lemma claim_kept_Claim:
  assumes "rb_inv s" "claim_kept s k t us w V" "now < t" "\<not> us \<subseteq> V" "t \<le> deadline s now"
  shows "claim_kept (snd (LookupAndClaim s now r u us' w')) k t us w V"
  using LookupAndClaim_cases [of s now r u us' w']
proof cases
  case (granted rows)
  define p where "p = purge_all s now"
  note c = claim_kept_purge(1) [OF assms(1-3), folded p_def] and d = purge_all_facts(2) [OF assms(1) p_def]
  show ?thesis
  proof (cases "k = (r, u)")
    case True
    then have "set us' = us" "w' = w"
      using granted(3) c by (auto simp: p_def [symmetric] claim_kept_def gen_def check_claim_def split: if_splits)
    moreover have "claim_kept (commit_claim p now k us w) k t us w V"
      using c d assms(4,5) unfolding claim_kept_def
      by (auto simp: commit_claim_def Let_def gen_def votes_of_def split: option.splits)
    ultimately show ?thesis using granted(1) True by (simp add: p_def)
  next
    case False
    then show ?thesis using c granted(1) by (simp add: p_def claim_kept_def)
  qed
qed (use claim_kept_purge(1) [OF assms(1-3)] in simp)

lemma claim_kept_step:
  assumes "rb_inv s" "claim_kept s k t us w V" "in_period t0 t op" "\<not> us \<subseteq> V" "mono (deadline s)" "t \<le> deadline s t0"
    and "\<not> releases k op" "op \<noteq> DoAbandon (fst k) (snd k) w" "\<And>n v. op = DoComplete n (fst k) (snd k) v \<Longrightarrow> v \<in> V"
  shows "claim_kept (lifecycle_step s op) k t us w V"
proof (cases op)
  case (DoRegister d1 d2 now r u v ids sps)
  then have c: "claim_kept (purge_all s now) k t us w V" using claim_kept_purge [OF assms(1,2)] assms(3) by (simp add: in_period_def)
  show ?thesis using DoRegister assms(2) c
    by (cases rule: Register_cases [of d1 d2 s now r u v ids sps]) (simp_all add: claim_kept_def)
next
  case (DoRelease now r u)
  then have c: "claim_kept (purge_all s now) k t us w V" using claim_kept_purge [OF assms(1,2)] assms(3) by (simp add: in_period_def)
  then show ?thesis using DoRelease assms(2,7)
    by (auto simp: Release_def claim_kept_def split_beta split: sum.split)
next
  case (DoComplete now r u v)
  then show ?thesis using claim_kept_Complete [OF assms(1,2) _ assms(4), of now r u v] assms(3,9) by (auto simp: in_period_def)
next
  case (DoCancel now r u)
  then have c: "claim_kept (PurgeExpiredLifecycleLocked s now) k t us w V"
    using claim_kept_purge [OF assms(1,2)] assms(3) by (simp add: in_period_def)
  then have "k \<noteq> (r, u)" if "map_of (claimed (PurgeExpiredLifecycleLocked s now)) (r, u) = None"
    using that by (auto simp: claim_kept_def gen_def)
  then show ?thesis using DoCancel assms(2) c
    by (auto simp: CancelIfUnclaimed_def Let_def split: sum.split) (auto simp: claim_kept_def gen_def votes_of_def)
next
  case (DoClaim now r u us' w')
  then have "t \<le> deadline s now" "now < t" using assms(3,5,6) by (auto simp: in_period_def mono_def intro: order_trans)
  then show ?thesis using claim_kept_Claim [OF assms(1,2) _ assms(4)] DoClaim by simp
next
  case (DoAbandon r u w')
  have "gen (snd (AbandonClaim s r u w')) k = gen s k"
    by (rule gen_Abandon [OF _ assms(1)]) (use assms(2,8) DoAbandon in \<open>auto simp: claim_kept_def gen_def\<close>)
  then show ?thesis using DoAbandon assms(2) by (simp add: claim_kept_def)
next
  case (DoInvalidate v)
  then show ?thesis using assms(2) by (simp add: claim_kept_def)
qed

lemma deadline_frame [simp]:
  "deadline (purge_all s now) = deadline s" "deadline (PurgeExpiredLifecycleLocked s now) = deadline s"
  "deadline (snd (RetireLocked s k)) = deadline s" "deadline (commit_claim s now k us w) = deadline s"
  by (simp_all add: purge_all_def PurgeExpiredLifecycleLocked_def PurgeExpiredRequestBlocksLocked_def RetireLocked_def
    commit_claim_def Let_def split: option.split)

lemma lifecycle_step_deadline: "deadline (lifecycle_step s op) = deadline s"
proof (cases op)
  case (DoRegister d1 d2 now r u v ids sps)
  then show ?thesis by (cases rule: Register_cases [of d1 d2 s now r u v ids sps]) simp_all
next
  case (DoComplete now r u v)
  show ?thesis unfolding DoComplete using Complete_cases [of s now r u v]
  proof cases
    case (retired n s' us)
    then show "deadline (lifecycle_step s (DoComplete now r u v)) = deadline s"
      using deadline_frame(3) [of "cast_vote (purge_all s now) now (r, u) v" "(r, u)"] by simp
  qed simp_all
next
  case (DoClaim now r u us w)
  show ?thesis unfolding DoClaim by (cases rule: LookupAndClaim_cases [of s now r u us w]) simp_all
qed (simp_all add: Release_def CancelIfUnclaimed_def AbandonClaim_def InvalidateUnitLocked_def Let_def split_beta split: sum.split)

lemma claim_kept_run:
  assumes "rb_inv s" "claim_kept s k t us w V" "list_all (in_period t0 t) ops" "\<not> us \<subseteq> V" "mono (deadline s)" "t \<le> deadline s t0"
    and "list_all (\<lambda>op. \<not> releases k op) ops" "DoAbandon (fst k) (snd k) w \<notin> set ops"
    and "\<And>n v. DoComplete n (fst k) (snd k) v \<in> set ops \<Longrightarrow> v \<in> V"
  shows "claim_kept (lifecycle_run s ops) k t us w V"
  using assms unfolding lifecycle_run_def
proof (induction ops arbitrary: s)
  case (Cons op ops)
  have "claim_kept (lifecycle_step s op) k t us w V"
    by (rule claim_kept_step [OF Cons.prems(1,2) _ Cons.prems(4-6)]) (use Cons.prems(3,7,8,9) in auto)
  from Cons.IH [OF lifecycle_step_inv [OF Cons.prems(1)] this] show ?case
    using Cons.prems by (auto simp: lifecycle_step_deadline)
qed simp

section \<open>Properties\<close>

text \<open>
  Property C7 (a cancelled generation stays cancelled until it is released). Once
  \<open>CancelIfUnclaimed\<close> has answered true, then until the tombstone expires, whatever other calls are
  made, as long as none of them is a \<open>Release\<close> of the generation, no planning attempt can claim the
  generation, no producer can register blocks for it, and it has no registered rows. A \<open>Release\<close>
  of the generation, by anyone and at any time, succeeds and lifts the tombstone.
\<close>

theorem cancelled_generation_stays:
  assumes "rb_inv s" "CancelIfUnclaimed s now r u = (Inr True, s0)" "map_of (cancelled s0) (r, u) = Some t"
    and "list_all (before t) ops" "s1 = lifecycle_run s0 ops" "later < t"
  shows "(list_all (\<lambda>op. \<not> releases (r, u) op) ops \<longrightarrow>
      fst (LookupAndClaim s1 later r u us w) = cancelled_error r u \<and>
      fst (Register d1 d2 s1 later r u v ids sps) \<noteq> OkStatus \<and> generation_rows s1 (r, u) = []) \<and>
    (\<exists>n. fst (Release s1 forced r u) = Inr n) \<and> gen (snd (Release s1 forced r u)) (r, u) = (None, None, None, None)"
proof (intro conjI impI)
  have i0: "rb_inv s0" using Cancel_rb_inv [OF assms(1), of now r u] assms(2) by simp
  then have i1: "rb_inv s1" using lifecycle_run_inv assms(5) by simp
  have "check_request r u = OkStatus" using assms(2) by (cases "check_request r u") (auto simp: CancelIfUnclaimed_def)
  then show "\<exists>n. fst (Release s1 forced r u) = Inr n" "gen (snd (Release s1 forced r u)) (r, u) = (None, None, None, None)"
    using RetireLocked_facts(4-6,8) [OF purge_all_facts(1) [OF i1 refl] surjective_pairing, of forced "(r, u)"]
    by (auto simp: Release_def gen_def split_beta)
  have h: "held s0 (r, u) t" using assms(3) by (simp add: held_def)
  assume "list_all (\<lambda>op. \<not> releases (r, u) op) ops"
  moreover have "map_of (claimed s0) (r, u) = None" using claim_parts(3) [OF i0] assms(3) by simp
  ultimately have g: "gen s1 (r, u) = gen s0 (r, u)"
    using lifecycle_run_tombstone [OF i0 h] assms(4,5) by simp
  have h1: "held s1 (r, u) t" using held_gen [OF g] h by simp
  have c: "map_of (cancelled (purge_all s1 later)) (r, u) = Some t"
    using gen_purge(2) [OF i1 h1 assms(6)] g assms(3) by (simp add: gen_def)
  then show "fst (LookupAndClaim s1 later r u us w) = cancelled_error r u" by (simp add: LookupAndClaim_def Let_def)
  show "fst (Register d1 d2 s1 later r u v ids sps) \<noteq> OkStatus"
    by (rule Register_cases [of d1 d2 s1 later r u v ids sps]) (use c in auto)
  have "map_of (cancelled s1) (r, u) = Some t" using g assms(3) by (simp add: gen_def)
  then have "row_uuid x \<noteq> u" if "map_of (request_blocks s1) (r, b) = Some x" for b x
    using i1 that unfolding rb_inv_def lifecycle_ok_def by fastforce
  then show "generation_rows s1 (r, u) = []" using i1 by (simp add: generation_rows_Nil rb_inv_def)
qed

lemma snapshot_rows_Inr:
  assumes "snapshot_rows s r u us = Inr rows"
  shows "\<forall>x\<in>set us. \<exists>row. map_of rows x = Some row \<and> map_of (request_blocks s) (r, x) = Some row \<and> row_uuid row = u"
proof -
  let ?f = "\<lambda>result u'. case map_of (request_blocks s) (r, u') of
         Some x \<Rightarrow>
           if row_uuid x = u then Inr (if map_of result u' = None then put u' x result else result)
           else InvalidArgumentError (''Missing producer block registration for req_id='' @ r @ '', uuid='' @
             dec u @ '', unit='' @ PythonRepr u')
       | None \<Rightarrow> InvalidArgumentError (''Missing producer block registration for req_id='' @ r @ '', uuid='' @
             dec u @ '', unit='' @ PythonRepr u')"
  let ?P = "\<lambda>m. \<forall>x row. map_of m x = Some row \<longrightarrow> map_of (request_blocks s) (r, x) = Some row \<and> row_uuid row = u"
  have "?P rows \<and> set us \<union> dom (map_of acc) \<subseteq> dom (map_of rows)" if "foldM ?f acc us = Inr rows" "?P acc" for acc
    using that
  proof (induction us arbitrary: acc)
    case (Cons x us)
    from Cons.prems(1) obtain acc' where a: "?f acc x = Inr acc'" "foldM ?f acc' us = Inr rows"
      by (auto simp: and_then_Inr_iff)
    have "?P acc'" and dom: "insert x (dom (map_of acc)) \<subseteq> dom (map_of acc')"
      using a(1) Cons.prems(2) by (auto split: option.splits if_splits)
    from Cons.IH [OF a(2) this(1)] show ?case using dom by (simp only: list.set) blast
  qed simp
  from this [of "[]"] assms show ?thesis by (fastforce simp: snapshot_rows_def)
qed

text \<open>
  Property C6 (a claim is exclusive). A granted \<open>LookupAndClaim\<close> returns one unexpired row of the
  generation for each requested unit. From then until the claim's deadline, whatever calls are
  made, cancellation answers false, no other planning attempt can claim, and no producer can
  change the rows by registering. This ends only by a \<open>Release\<close> of the generation, whoever asks for
  it, by an \<open>AbandonClaim\<close> of the claim's own owner, or when every claimed unit has voted, the
  votes that were already there at the claim included. Votes of some units, claims by the owner
  itself and any other call keep it. The clock does not run backwards, and the deadline
  (\<open>now + ttl_s_\<close>, rounded) is monotone in \<open>now\<close>.
\<close>

theorem claim_exclusive:
  assumes "rb_inv s" "LookupAndClaim s now r u us w = (Inr rows, s0)" "mono (deadline s)"
    and "list_all (in_period now (deadline s now)) ops" "s1 = lifecycle_run s0 ops" "later < deadline s now"
    and "list_all (\<lambda>op. \<not> releases (r, u) op) ops" "DoAbandon r u w \<notin> set ops"
    and "\<not> set us \<subseteq> votes_of (purge_all s now) (r, u) \<union> {x. \<exists>n. DoComplete n r u x \<in> set ops}"
    and "r \<noteq> []" "u > 0" "w' \<noteq> w"
  shows "(\<forall>x\<in>set us. \<exists>row. map_of rows x = Some row \<and> map_of (request_blocks s) (r, x) = Some row \<and>
      row_uuid row = u \<and> now < row_expires_at row) \<and>
    fst (CancelIfUnclaimed s1 later r u) = Inr False \<and>
    (\<exists>e. fst (LookupAndClaim s1 later r u us' w') = Inl e) \<and>
    fst (Register d1 d2 s1 later r u v ids sps) \<noteq> OkStatus"
proof -
  define p where "p = purge_all s now"
  define V where "V = votes_of p (r, u) \<union> {x. \<exists>n. DoComplete n r u x \<in> set ops}"
  note pf = purge_all_facts [OF assms(1) p_def]
  have granted: "s0 = commit_claim p now (r, u) (set us) w" "snapshot_rows p r u us = Inr rows"
    by (rule LookupAndClaim_cases [of s now r u us w]; use assms(2) in \<open>simp add: p_def\<close>)+
  have 1: "\<forall>x\<in>set us. \<exists>row. map_of rows x = Some row \<and> map_of (request_blocks s) (r, x) = Some row \<and>
      row_uuid row = u \<and> now < row_expires_at row"
    using snapshot_rows_Inr [OF granted(2)] by (force simp: pf(3) unexpired_Some)
  have nV: "\<not> set us \<subseteq> V" using assms(9) by (simp add: V_def p_def)
  have "claim_kept s0 (r, u) (deadline s now) (set us) w V"
    using nV pf(2) unfolding granted(1) claim_kept_def V_def
    by (auto simp: commit_claim_def Let_def gen_def votes_of_def split: option.splits)
  moreover have i0: "rb_inv s0" using Claim_rb_inv [OF assms(1), of now r u us w] assms(2) by simp
  moreover have d: "deadline s0 = deadline s" by (simp add: granted(1) p_def)
  ultimately have k1: "claim_kept s1 (r, u) (deadline s now) (set us) w V"
    unfolding assms(5) using assms(3,4,7,8) nV by (intro claim_kept_run) (auto simp: V_def)
  have i1: "rb_inv s1" using lifecycle_run_inv [OF i0] assms(5) by simp
  note q = claim_kept_purge [OF i1 k1 assms(6)]
  have i2: "rb_inv (purge_all s1 later)" "rb_inv (PurgeExpiredLifecycleLocked s1 later)"
    using purge_all_facts(1) [OF i1 refl] purge_lifecycle_inv [OF i1] by simp_all
  have n: "map_of (cancelled (purge_all s1 later)) (r, u) = None" "map_of (cancelled (PurgeExpiredLifecycleLocked s1 later)) (r, u) = None"
    using claim_kept_uncancelled [OF i2(1) q(1)] claim_kept_uncancelled [OF i2(2) q(2)] .
  have "fst (CancelIfUnclaimed s1 later r u) = Inr False"
    using q(2) n assms(10,11) by (auto simp: CancelIfUnclaimed_def check_request_def Let_def claim_kept_def gen_def)
  moreover have "\<exists>e. fst (LookupAndClaim s1 later r u us' w') = Inl e"
    using q(1) n assms(12) by (auto simp: LookupAndClaim_def Let_def claim_kept_def gen_def check_claim_def)
  moreover have "fst (Register d1 d2 s1 later r u v ids sps) \<noteq> OkStatus"
    by (rule Register_cases [of d1 d2 s1 later r u v ids sps]) (use q(1) in \<open>auto simp: claim_kept_def gen_def\<close>)
  ultimately show ?thesis using 1 by blast
qed

text \<open>
  Property C15 (completion votes). A vote of a claimed unit for a live claim is counted once. The
  vote that completes the claimed set retires the generation: it returns the number of rows,
  and leaves no row, claim, vote or tombstone of the generation. Any other vote returns zero,
  keeps the claim and only adds the unit to the votes.
\<close>

theorem complete_retires_when_all_voted:
  assumes "rb_inv s" "r \<noteq> []" "u > 0" "map_of (claimed s) (r, u) = Some t" "now < t"
    and "map_of (claimed_units s) (r, u) = Some us" "v \<in> us" "Complete s now r u v = (res, s')"
    and "votes = insert v (case unexpired votes_expire_at now (map_of (completed_units s)) (r, u) of
           None \<Rightarrow> {} | Some c \<Rightarrow> voted_units c)"
  shows "if us \<subseteq> votes then
      res = Inr (int (length (generation_rows (purge_all s now) (r, u)))) \<and> generation_rows s' (r, u) = [] \<and>
      gen s' (r, u) = (None, None, None, None) \<and> map_of (completed_units s') (r, u) = None
    else res = Inr 0 \<and> gen s' (r, u) = gen s (r, u) \<and>
      map_of (completed_units s') (r, u) = Some \<lparr>voted_units = votes, votes_expire_at = deadline s now\<rparr> \<and>
      request_blocks s' = request_blocks (purge_all s now)"
proof -
  define p where "p = purge_all s now"
  note pf = purge_all_facts [OF assms(1) p_def]
  have h: "held s (r, u) t" using assms(4) by (simp add: held_def)
  have g: "gen p (r, u) = gen s (r, u)" using gen_purge(2) [OF assms(1) h assms(5)] by (simp add: p_def)
  have us: "map_of (claimed_units p) (r, u) = Some us" using g assms(6) by (simp add: gen_def)
  have votes: "insert v (case map_of (completed_units p) (r, u) of None \<Rightarrow> {} | Some c \<Rightarrow> voted_units c) = votes"
    by (simp add: assms(9) pf(6))
  define s2 where "s2 = p\<lparr>completed_units := put (r, u) \<lparr>voted_units = votes, votes_expire_at = deadline s now\<rparr>
    (completed_units p)\<rparr>"
  have eq: "Complete s now r u v = (if us \<subseteq> votes then (Inr (fst (RetireLocked s2 (r, u))), snd (RetireLocked s2 (r, u)))
      else (Inr 0, s2))"
    using assms(2,3,7) by (simp add: Complete_def check_request_def Let_def p_def [symmetric] us votes s2_def pf(2) split_beta)
  have i2: "rb_inv s2" unfolding s2_def by (rule rb_inv_completed [OF pf(1)])
  show ?thesis
  proof (cases "us \<subseteq> votes")
    case True
    have s': "RetireLocked s2 (r, u) = (fst (RetireLocked s2 (r, u)), s')" and res: "res = Inr (fst (RetireLocked s2 (r, u)))"
      using eq assms(8) True by (auto simp: prod_eq_iff)
    note rf = RetireLocked_facts [OF i2 s']
    have "generation_rows s' (r, u) = []"
      using rf(1) by (subst generation_rows_Nil) (auto simp: rb_inv_def rf(3) split: option.splits if_splits)
    moreover have "generation_rows s2 (r, u) = generation_rows p (r, u)" by (simp add: s2_def generation_rows_def)
    ultimately show ?thesis using True res rf(2,4-8) by (simp add: gen_def p_def)
  next
    case False
    then have "res = Inr 0" "s' = s2" using eq assms(8) by auto
    then show ?thesis using False g by (simp add: s2_def p_def)
  qed
qed

section \<open>Witnesses\<close>

definition example_unit :: "string \<Rightarrow> RaidenId" where
  "example_unit n = RaidenId n ''0'' ''kv'' 0"

definition example_directory :: WorkUnitDirectory where
  "example_directory = \<lparr>order = [example_unit ''a'', example_unit ''b''], records = []\<rparr>"

definition example_requests :: RequestBlockRegistry where
  "example_requests = lifecycle_run (RequestBlockRegistry_init (\<lambda>t. t + 600))
     [DoRegister example_directory example_directory 0 ''q'' 5 (example_unit ''a'') [1, 2] [],
      DoRegister example_directory example_directory 0 ''q'' 5 (example_unit ''b'') [3] []]"

lemma example_requests_inv: "rb_inv example_requests"
  unfolding example_requests_def by (intro lifecycle_run_inv rb_inv_init)

lemma example_registered: "IsRegisteredLocked example_directory (example_unit ''a'')"
  "IsRegisteredLocked example_directory (example_unit ''b'')"
  by code_simp+

lemma example_requests_eq:
  "example_requests = \<lparr>deadline = (\<lambda>t. t + 600),
     request_blocks = [((''q'', example_unit ''a''), \<lparr>row_uuid = 5, row_block_ids = [1, 2], row_expires_at = 600, row_pool_spans = []\<rparr>),
       ((''q'', example_unit ''b''), \<lparr>row_uuid = 5, row_block_ids = [3], row_expires_at = 600, row_pool_spans = []\<rparr>)],
     claimed = [], claimed_units = [], claimed_owners = [], completed_units = [], cancelled = []\<rparr>"
  by (simp add: example_requests_def lifecycle_run_def Register_def validate_registration_def check_request_def
    register_locked_def Let_def example_registered RequestBlockRegistry_init_def purge_all_def
    PurgeExpiredLifecycleLocked_def PurgeExpiredRequestBlocksLocked_def) (simp add: example_unit_def)

lemmas example_evaluation = example_requests_eq purge_all_def PurgeExpiredLifecycleLocked_def
  PurgeExpiredRequestBlocksLocked_def check_request_def Let_def

definition example_cancelled :: RequestBlockRegistry where
  "example_cancelled = snd (CancelIfUnclaimed example_requests 1 ''q'' 5)"

theorem cancelled_generation_stays_witness:
  "fst (LookupAndClaim (lifecycle_run example_cancelled [DoInvalidate (example_unit ''b''), DoComplete 2 ''q'' 5 (example_unit ''a'')])
     3 ''q'' 5 [example_unit ''a''] 7) = cancelled_error ''q'' 5 \<and>
   gen (snd (Release example_cancelled 3 ''q'' 5)) (''q'', 5) = (None, None, None, None)"
proof -
  have c: "CancelIfUnclaimed example_requests 1 ''q'' 5 = (Inr True, example_cancelled)"
    "map_of (cancelled example_cancelled) (''q'', 5) = Some 601"
    by (simp_all add: example_cancelled_def CancelIfUnclaimed_def example_evaluation)
  show ?thesis
    using cancelled_generation_stays [OF example_requests_inv c, of "[DoInvalidate (example_unit ''b''),
      DoComplete 2 ''q'' 5 (example_unit ''a'')]" _ 3] cancelled_generation_stays [OF example_requests_inv c, of "[]" _ 3]
    by (simp add: before_def lifecycle_run_def)
qed

definition example_claimed :: RequestBlockRegistry where
  "example_claimed = snd (LookupAndClaim example_requests 1 ''q'' 5 [example_unit ''a'', example_unit ''b''] 7)"

lemma example_claim:
  "\<exists>rows. LookupAndClaim example_requests 1 ''q'' 5 [example_unit ''a'', example_unit ''b''] 7 = (Inr rows, example_claimed)"
  "claimed example_claimed = [((''q'', 5), 601)]"
  "claimed_units example_claimed = [((''q'', 5), {example_unit ''a'', example_unit ''b''})]"
  "completed_units example_claimed = []" "deadline example_claimed = (\<lambda>t. t + 600)"
  by (simp_all add: example_claimed_def LookupAndClaim_def example_evaluation check_claim_def snapshot_rows_def
    commit_claim_def example_unit_def)

theorem claim_exclusive_witness:
  "fst (CancelIfUnclaimed (lifecycle_run example_claimed [DoCancel 2 ''q'' 5, DoAbandon ''q'' 5 8,
     DoComplete 2 ''q'' 5 (example_unit ''a''), DoClaim 3 ''q'' 5 [example_unit ''a'', example_unit ''b''] 7]) 4 ''q'' 5) = Inr False"
proof -
  obtain rows where c: "LookupAndClaim example_requests 1 ''q'' 5 [example_unit ''a'', example_unit ''b''] 7 = (Inr rows, example_claimed)"
    using example_claim(1) by blast
  have "mono (\<lambda>t :: real. t + 600)" by (simp add: mono_def)
  then show ?thesis
    using claim_exclusive [OF example_requests_inv c _ _ refl, of "[DoCancel 2 ''q'' 5, DoAbandon ''q'' 5 8,
     DoComplete 2 ''q'' 5 (example_unit ''a''), DoClaim 3 ''q'' 5 [example_unit ''a'', example_unit ''b''] 7]" 4 8]
    by (simp add: in_period_def example_evaluation votes_of_def) (simp add: example_unit_def)
qed

theorem complete_retires_when_all_voted_witness:
  "fst (Complete example_claimed 2 ''q'' 5 (example_unit ''a'')) = Inr 0"
proof -
  have "rb_inv example_claimed"
    using Claim_rb_inv [OF example_requests_inv] by (simp add: example_claimed_def)
  from complete_retires_when_all_voted [OF this _ _ _ _ _ _ surjective_pairing refl, of "''q''" 5 601 2
      "{example_unit ''a'', example_unit ''b''}" "example_unit ''a''"]
  show ?thesis by (simp add: example_claim unexpired_def) (simp add: example_unit_def)
qed

section \<open>Registered spans\<close>

lemma span_end_Inr: "span_end o' c st b = Inr e \<Longrightarrow> e = o' + (c - 1) * st + b"
  by (auto simp: span_end_def status_simps)

definition span_fits :: "nat \<Rightarrow> int \<Rightarrow> PoolByteSpan \<Rightarrow> bool" where
  "span_fits num_ids live sp \<longleftrightarrow> 0 < size_bytes sp \<and> 0 < span_count sp \<and> span_count sp \<le> kMaxSpanCount \<and>
     0 \<le> src_offset_bytes sp \<and> 0 \<le> dst_offset_bytes sp \<and> 0 \<le> src_stride_bytes sp \<and> 0 \<le> dst_stride_bytes sp \<and>
     0 \<le> dst_block_index sp \<and> 0 \<le> src_block_ordinal sp \<and> src_block_ordinal sp < int num_ids \<and>
     (\<forall>i\<in>{0..<span_count sp}. src_offset_bytes sp + i * src_stride_bytes sp + size_bytes sp \<le> live)"

lemma repeats_bounded:
  assumes "0 \<le> (st::int)" "o' + (c - 1) * st + b \<le> live" "i \<in> {0..<c}"
  shows "o' + i * st + b \<le> live"
proof -
  have "i * st \<le> (c - 1) * st" using assms(1,3) by (intro mult_right_mono) auto
  then show ?thesis using assms(2) by simp
qed

lemma validate_span_Inr:
  assumes "validate_span tag n live acc sp = Inr acc'"
  shows "span_fits n live sp \<and> acc' = acc + size_bytes sp * span_count sp"
proof -
  have c: "check_span_fields tag n sp = OkStatus" using assms by (auto simp: validate_span_def and_then_Inr_iff)
  obtain e where e: "span_end (src_offset_bytes sp) (span_count sp) (src_stride_bytes sp) (size_bytes sp) = Inr e"
      "\<not> e > live" "acc' = acc + size_bytes sp * span_count sp"
    using assms by (auto simp: validate_span_def and_then_Inr_iff mul64_Inr add64_Inr split: if_splits)
  have "0 \<le> src_stride_bytes sp" using c by (auto simp: check_span_fields_def split: if_splits)
  moreover have "src_offset_bytes sp + (span_count sp - 1) * src_stride_bytes sp + size_bytes sp \<le> live"
    using e(2) span_end_Inr [OF e(1)] by simp
  ultimately have "\<forall>i\<in>{0..<span_count sp}. src_offset_bytes sp + i * src_stride_bytes sp + size_bytes sp \<le> live"
    using repeats_bounded by blast
  then show ?thesis using c e(3) by (auto simp: span_fits_def check_span_fields_def split: if_splits)
qed

definition entry_fits :: "(string, int) amap \<Rightarrow> PoolSpanRegistration \<Rightarrow> bool" where
  "entry_fits live_by_tag entry \<longleftrightarrow> (\<exists>live. map_of live_by_tag (span_tag entry) = Some live \<and>
     distinct (span_block_ids entry) \<and> (\<forall>b\<in>set (span_block_ids entry). 0 \<le> b) \<and>
     (\<forall>sp\<in>set (spans entry). span_fits (length (span_block_ids entry)) live sp) \<and>
     declared_bytes entry = (\<Sum>sp\<leftarrow>spans entry. size_bytes sp * span_count sp))"

lemma validate_spans_Inr:
  assumes "foldM (validate_span tag n live) acc sps = Inr acc'"
  shows "(\<forall>sp\<in>set sps. span_fits n live sp) \<and> acc' = acc + (\<Sum>sp\<leftarrow>sps. size_bytes sp * span_count sp)"
  using assms
proof (induction sps arbitrary: acc)
  case (Cons sp sps)
  from Cons.prems obtain a where a: "validate_span tag n live acc sp = Inr a" "foldM (validate_span tag n live) a sps = Inr acc'"
    by (auto simp: and_then_Inr_iff)
  show ?case using validate_span_Inr [OF a(1)] Cons.IH [OF a(2)] by simp
qed simp

lemma validate_pool_span_Inr:
  assumes "validate_pool_span w live seen entry = Inr seen'"
  shows "entry_fits live entry \<and> span_tag entry \<notin> set seen \<and> seen' = span_tag entry # seen"
  using assms
  by (auto simp: validate_pool_span_def Let_def entry_fits_def and_then_Inr_iff list_ex_iff
    dest!: validate_spans_Inr split: if_splits option.splits)

lemma validate_pool_spans_Inr:
  assumes "foldM (validate_pool_span w live) seen entries = Inr seen'"
  shows "(\<forall>entry\<in>set entries. entry_fits live entry) \<and> distinct (map span_tag entries)"
proof -
  have "(\<forall>entry\<in>set entries. entry_fits live entry) \<and> distinct (map span_tag entries) \<and>
    set seen \<inter> span_tag ` set entries = {}"
    using assms
  proof (induction entries arbitrary: seen)
    case (Cons entry entries)
    from Cons.prems obtain a where a: "validate_pool_span w live seen entry = Inr a"
      "foldM (validate_pool_span w live) a entries = Inr seen'" by (auto simp: and_then_Inr_iff)
    show ?case using validate_pool_span_Inr [OF a(1)] Cons.IH [OF a(2)] by auto
  qed simp
  then show ?thesis by blast
qed

lemma sum_sizes_Inr:
  "foldM (\<lambda>total segment. add64 total (seg_size segment)) a ss = Inr b \<Longrightarrow> b = a + total_size ss"
proof (induction ss arbitrary: a)
  case (Cons s ss)
  then have "foldM (\<lambda>total segment. add64 total (seg_size segment)) (a + seg_size s) ss = Inr b"
    by (auto simp: and_then_Inr_iff add64_Inr)
  from Cons.IH [OF this] show ?case by (simp add: total_size_def)
qed (simp add: total_size_def)

lemma PoolLiveBytes_Inr:
  assumes "PoolLiveBytes q = Inr live"
  shows "\<exists>p ss. PoolSpecFromProto q = Inr p \<and> ExpandPoolLiveSegments p = Inr ss \<and> live = total_size ss"
  using assms by (auto simp: PoolLiveBytes_def and_then_Inr_iff dest: sum_sizes_Inr)

text \<open>Every pool of the manifest has the live bytes recorded for its tag.\<close>

lemma live_bytes_by_tag_Inr:
  assumes "live_bytes_by_tag w manifest = Inr live"
  shows "(\<forall>q\<in>set manifest. \<exists>l. PoolLiveBytes q = Inr l \<and> map_of live (tag_pb q) = Some l) \<and>
    (\<forall>t l. map_of live t = Some l \<longrightarrow> (\<exists>q\<in>set manifest. tag_pb q = t \<and> PoolLiveBytes q = Inr l))"
proof -
  let ?f = "\<lambda>m pool. and_then (PoolLiveBytes pool) (\<lambda>live.
       case map_of m (tag_pb pool) of
         None \<Rightarrow> Inr (put (tag_pb pool) live m)
       | Some old \<Rightarrow>
           if old \<noteq> live then
             InvalidArgumentError (''pools tagged '' @ tag_pb pool @ '' disagree on live bytes for '' @
               PythonRepr w @ ''; byte-span registration requires one geometry per tag'')
           else Inr m)"
  have "(\<forall>q\<in>set manifest. \<exists>l. PoolLiveBytes q = Inr l \<and> map_of live (tag_pb q) = Some l) \<and>
    (\<forall>t l. map_of acc t = Some l \<longrightarrow> map_of live t = Some l) \<and>
    (\<forall>t l. map_of live t = Some l \<longrightarrow> map_of acc t = Some l \<or> (\<exists>q\<in>set manifest. tag_pb q = t \<and> PoolLiveBytes q = Inr l))"
    if "foldM ?f acc manifest = Inr live" for acc
    using that
  proof (induction manifest arbitrary: acc)
    case (Cons q qs)
    obtain l a where l: "PoolLiveBytes q = Inr l" and f: "?f acc q = Inr a" and rest: "foldM ?f a qs = Inr live"
      using Cons.prems by (auto simp: and_then_Inr_iff)
    have a: "map_of a = (map_of acc)(tag_pb q \<mapsto> l)" "map_of acc (tag_pb q) = None \<or> map_of acc (tag_pb q) = Some l"
      using f l by (auto split: option.splits if_splits)
    note IH = Cons.IH [OF rest]
    have "map_of live (tag_pb q) = Some l" using IH a(1) by simp
    moreover have "map_of live t = Some k" if "map_of acc t = Some k" for t k
      using IH a that by (cases "t = tag_pb q") auto
    moreover have "map_of acc t = Some k \<or> (\<exists>q\<in>set (q # qs). tag_pb q = t \<and> PoolLiveBytes q = Inr k)"
      if "map_of live t = Some k" for t k
    proof -
      from IH that have "map_of a t = Some k \<or> (\<exists>q\<in>set qs. tag_pb q = t \<and> PoolLiveBytes q = Inr k)" by blast
      then show ?thesis using l by (auto simp: a(1) split: if_splits)
    qed
    ultimately show ?case using IH l by simp
  qed simp
  from this [of "[]"] assms show ?thesis by (simp add: live_bytes_by_tag_def)
qed

text \<open>
  Property C14 (registered spans stay inside live bytes). If \<open>Register\<close> accepts a request, each
  declared entry has a tag of its own that some pool of the unit's manifest carries, and for
  every pool of that tag each repeat of each span lies within the pool's live bytes and names one
  of the entry's block ids; the declared bytes are the sum of the spans.
\<close>

theorem registered_spans_in_bounds:
  assumes "fst (Register d1 d2 s now r u w ids sps) = OkStatus"
  shows "distinct (map span_tag sps) \<and>
    (\<forall>entry\<in>set sps.
       declared_bytes entry = (\<Sum>sp\<leftarrow>spans entry. size_bytes sp * span_count sp) \<and>
       (\<exists>q\<in>set (PoolManifestLocked d1 w). tag_pb q = span_tag entry) \<and>
       (\<forall>q\<in>set (PoolManifestLocked d1 w). tag_pb q = span_tag entry \<longrightarrow>
          (\<exists>p ss. PoolSpecFromProto q = Inr p \<and> ExpandPoolLiveSegments p = Inr ss \<and>
             (\<forall>sp\<in>set (spans entry). span_fits (length (span_block_ids entry)) (total_size ss) sp))))"
proof (cases "sps = []")
  case False
  have "validate_registration d1 r u w ids sps = OkStatus"
    using assms by (auto simp: Register_def split: sum.splits)
  then obtain live seen where l: "live_bytes_by_tag w (PoolManifestLocked d1 w) = Inr live"
    and v: "foldM (validate_pool_span w live) [] sps = Inr seen"
    using False by (auto simp: validate_registration_def and_then_Inr_iff split: if_splits)
  note m = live_bytes_by_tag_Inr [OF l] and f = validate_pool_spans_Inr [OF v]
  show ?thesis
  proof (intro conjI ballI impI)
    fix entry assume "entry \<in> set sps"
    then obtain lv where lv: "map_of live (span_tag entry) = Some lv"
        "\<forall>sp\<in>set (spans entry). span_fits (length (span_block_ids entry)) lv sp"
        "declared_bytes entry = (\<Sum>sp\<leftarrow>spans entry. size_bytes sp * span_count sp)"
      using f by (auto simp: entry_fits_def)
    show "declared_bytes entry = (\<Sum>sp\<leftarrow>spans entry. size_bytes sp * span_count sp)" by (rule lv(3))
    show "\<exists>q\<in>set (PoolManifestLocked d1 w). tag_pb q = span_tag entry" using m lv(1) by blast
    fix q assume q: "q \<in> set (PoolManifestLocked d1 w)" "tag_pb q = span_tag entry"
    then have "PoolLiveBytes q = Inr lv" using m lv(1) by fastforce
    from PoolLiveBytes_Inr [OF this] lv(2)
    show "\<exists>p ss. PoolSpecFromProto q = Inr p \<and> ExpandPoolLiveSegments p = Inr ss \<and>
        (\<forall>sp\<in>set (spans entry). span_fits (length (span_block_ids entry)) (total_size ss) sp)" by blast
  qed (use f in blast)
qed simp

definition pooled_directory :: WorkUnitDirectory where
  "pooled_directory = \<lparr>order = [example_unit ''a''],
     records = [\<lparr>rec_shards = [''s''], rec_control_plane_rpc_address = ''c'', rec_mesh_shape = None, rec_layout = None,
       rec_global_shape = None, rec_itemsize = None, rec_pools = Some [PoolSpec_ToProto dense_pool],
       rec_layout_fingerprint = None, rec_page_tokens = None, rec_transfer_parallelism = None,
       rec_transfer_rank = None, rec_variables = None\<rparr>]\<rparr>"

definition example_declaration :: "PoolSpanRegistration list" where
  "example_declaration = [\<lparr>span_tag = pool_tag dense_pool, span_block_ids = [4], spans =
     [\<lparr>src_block_ordinal = 0, src_offset_bytes = 0, dst_block_index = 0, dst_offset_bytes = 0, size_bytes = 2,
       src_stride_bytes = 4, dst_stride_bytes = 2, span_count = 2\<rparr>], declared_bytes = 4, dst_space_version = 0\<rparr>]"

theorem registered_spans_in_bounds_witness:
  "fst (Register pooled_directory pooled_directory (RequestBlockRegistry_init id) 0 ''q'' 5 (example_unit ''a'') [4]
     example_declaration) = OkStatus \<and>
   list_all (\<lambda>entry. declared_bytes entry = (\<Sum>sp\<leftarrow>spans entry. size_bytes sp * span_count sp)) example_declaration"
proof -
  have "validate_registration pooled_directory ''q'' 5 (example_unit ''a'') [4] example_declaration = OkStatus"
    "IsRegisteredLocked pooled_directory (example_unit ''a'')" by code_simp+
  then have "fst (Register pooled_directory pooled_directory (RequestBlockRegistry_init id) 0 ''q'' 5 (example_unit ''a'') [4]
     example_declaration) = OkStatus"
    by (simp add: Register_def register_locked_def Let_def RequestBlockRegistry_init_def purge_all_def
      PurgeExpiredLifecycleLocked_def PurgeExpiredRequestBlocksLocked_def)
  with registered_spans_in_bounds [OF this] show ?thesis by (simp add: list_all_iff)
qed

end
