(* ===== verification/Planner.thy ===== *)
theory Planner
  imports RequestBlocks "HOL-Library.Signed_Division"
begin

text \<open>
  \<open>kv_cache/reshard/pool_reshard_planner.{h,cc}\<close>: \<open>BuildPoolReshardPlan\<close>, cut into the stages of
  its body. The stages before the claim validate the request and the metadata and resolve the
  pools, destination blocks and parallelism of each tag; the claim takes the snapshot of the
  registered spans; the stages per tag convert page-agnostic spans, check that the spans cover
  every destination block as a prefix exactly once, and emit the schedule entries. An index
  outside a vector and a signed overflow are the outcome \<open>Undefined\<close>.
\<close>

section \<open>Data\<close>

record ScheduleEntry =
  entry_dst_peer :: string
  entry_dst_shard_idx :: int
  entry_dst_offset :: int
  entry_src_offset :: int
  entry_size :: int
  entry_src_block :: int
  entry_dst_block :: int
  entry_src_stride :: int
  entry_dst_stride :: int
  entry_count :: int
  entry_layer_idx :: int
  entry_pool_group :: int

record PlanPoolGroup =
  group_pool_indices :: "nat list"
  group_dst_block_ids :: "int list"
  group_expected_pushes :: int
  group_extents :: "int list"
  group_order_rank :: int

record PoolReshardPlan =
  plan_src_units :: "RaidenId list"
  plan_dst_unit :: RaidenId
  plan_schedules :: "(RaidenId, ScheduleEntry list) amap"
  plan_rpc_addresses :: "(RaidenId, string) amap"
  plan_dst_peer :: string
  plan_uuid :: int
  plan_req_id :: string
  plan_expected_block_count :: int
  plan_expected_pushes_per_pool :: int
  plan_pool_indices :: "nat list"
  plan_dtype_tags :: "string list"
  plan_dst_block_ids :: "int list"
  plan_schedule_keys :: "(RaidenId, int) amap"
  plan_parallelism :: int
  plan_num_tokens :: int
  plan_skipped_pool_counts :: "(string, int) amap"
  plan_extents :: "int list"
  plan_pool_groups :: "PlanPoolGroup list"
  plan_skip_d2h :: bool

record PlanRequest =
  src_units :: "RaidenId list"
  dst_units :: "RaidenId list"
  src_metadata :: "RegisterWorkUnitRequest list"
  dst_metadata :: "RegisterWorkUnitRequest list"
  req_id :: string
  uuid :: int
  dst_device_block_ids :: "int list"
  num_tokens :: int
  transfer_pool_tags :: "string list"
  parallelism :: "int option"
  dst_block_counts :: "int list"
  dst_skip_bytes :: "int list"

record TagPrecheck =
  selected :: "nat list"
  src_live :: int
  dst_live :: int
  src_segments :: "PoolLiveSegment list"
  dst_segments :: "PoolLiveSegment list"

text \<open>\<open>static_cast<int32_t>\<close>.\<close>

definition int32 :: "int \<Rightarrow> int" where
  "int32 x = (x + 2147483648) mod 4294967296 - 2147483648"

section \<open>Rendering\<close>

definition PyStrRepr :: "string \<Rightarrow> string" where
  "PyStrRepr s = [CHR 0x27] @ s @ [CHR 0x27]"

definition PyStrListRepr :: "string list \<Rightarrow> string" where
  "PyStrListRepr values = ''['' @ str_join '', '' (map PyStrRepr values) @ '']''"

definition PySortedIntSetRepr :: "int list \<Rightarrow> string" where
  "PySortedIntSetRepr values = ''['' @ str_join '', '' (map dec (sort (remdups values))) @ '']''"

definition unit_separator :: string where
  "unit_separator = [CHR 0x1F]"

definition GeometrySignature :: "PoolSpecProto \<Rightarrow> string" where
  "GeometrySignature pool =
     tag_pb pool @ unit_separator @ dec (storage_index_pb pool) @ unit_separator @
     dec (base_offset_bytes_pb pool) @ unit_separator @ dec (block_stride_bytes_pb pool) @ unit_separator @
     dec (num_blocks_pb pool) @ unit_separator @ dtype_tag_pb pool @
     concat (map (\<lambda>region. [CHR 0x1E] @ name_pb region @ unit_separator @ dec (offset_bytes_pb region) @
       unit_separator @ dec (stride_bytes_pb region) @ unit_separator @ dec (unit_bytes_pb region) @
       unit_separator @ dec (num_units_pb region) @ unit_separator @ dec (units_per_stride_pb region))
       (regions_pb pool))"

definition LiveSegments_of :: "PoolSpecProto \<Rightarrow> PoolLiveSegment list status_or" where
  "LiveSegments_of pool_proto = and_then (PoolSpecFromProto pool_proto) ExpandPoolLiveSegments"

section \<open>Arguments and metadata\<close>

definition MetadataByUnit ::
  "RegisterWorkUnitRequest list \<Rightarrow> RaidenId list \<Rightarrow> (RaidenId, RegisterWorkUnitRequest) amap status_or" where
  "MetadataByUnit metadata units =
     and_then (foldM (\<lambda>result item.
         let u = RaidenIdFromProto (unit_pb item) in
         if u \<notin> set units then Inr result
         else if map_of result u \<noteq> None then
           InvalidArgumentError (''Duplicate registration metadata for '' @ PythonRepr u)
         else Inr (put u item result)) [] metadata) (\<lambda>result.
       let missing = map PythonRepr (filter (\<lambda>u. map_of result u = None) units) in
       if missing \<noteq> [] then
         InvalidArgumentError (''Missing registration metadata for ['' @ str_join '', '' missing @ '']'')
       else Inr result)"

definition check_arguments :: "PlanRequest \<Rightarrow> status" where
  "check_arguments request =
     (if req_id request = [] then InvalidArgumentError ''req_id must not be empty for pool resharding''
      else if uuid request \<le> 0 then InvalidArgumentError ''uuid must be positive for pool resharding''
      else if length (dst_units request) \<noteq> 1 then
        InvalidArgumentError ''Pool resharding requires exactly one destination unit''
      else if \<not> distinct (src_units request) then InvalidArgumentError ''src_units must not contain duplicates''
      else if \<not> distinct (dst_units request) then InvalidArgumentError ''dst_units must not contain duplicates''
      else if dst_device_block_ids request = [] then
        InvalidArgumentError ''dst_device_block_ids must not be empty''
      else if list_ex (\<lambda>b. b < 0) (dst_device_block_ids request) then
        InvalidArgumentError ''dst_device_block_ids must be non-negative''
      else OkStatus)"

definition check_metadata :: "RegisterWorkUnitRequest \<Rightarrow> status" where
  "check_metadata meta =
     (let u = RaidenIdFromProto (unit_pb meta) in
      if layout_fingerprint_pb meta = [] then
        InvalidArgumentError (''Missing layout fingerprint for '' @ PythonRepr u)
      else if pools_pb meta = [] then
        InvalidArgumentError (''Missing explicit pool manifest for '' @ PythonRepr u)
      else if shards_pb meta = [] then
        InvalidArgumentError (''Missing data-plane endpoint for '' @ PythonRepr u)
      else if length (shards_pb meta) \<noteq> 1 then
        InvalidArgumentError (''Pool reshard planning requires one data-plane endpoint per work '' @ ''unit; '' @
          PythonRepr u @ '' registered '' @ dec (int (length (shards_pb meta))))
      else if control_plane_rpc_address_pb meta = [] then
        InvalidArgumentError (''Missing control-plane endpoint for '' @ PythonRepr u)
      else OkStatus)"

definition identity_of :: "RegisterWorkUnitRequest \<Rightarrow> (string \<times> string) list" where
  "identity_of meta = map (\<lambda>pool. (tag_pb pool, dtype_tag_pb pool)) (pools_pb meta)"

definition check_identity ::
  "PlanRequest \<Rightarrow> (RaidenId, RegisterWorkUnitRequest) amap \<Rightarrow> RegisterWorkUnitRequest \<Rightarrow> status" where
  "check_identity request src_by_unit dst_meta =
     (if identity_of dst_meta = [] then InvalidArgumentError ''Destination pool manifest must not be empty''
      else check_each (\<lambda>u.
        if identity_of (the (map_of src_by_unit u)) \<noteq> identity_of dst_meta then
          InvalidArgumentError (''Canonical pool manifest mismatch between source and destination '' @ ''for '' @
            PythonRepr u)
        else OkStatus) (src_units request))"

definition check_geometry :: "PlanRequest \<Rightarrow> (RaidenId, RegisterWorkUnitRequest) amap \<Rightarrow> status" where
  "check_geometry request src_by_unit =
     (case src_units request of
        [] \<Rightarrow> UndefinedBehaviour ''src_units[0] of an empty vector''
      | first # rest \<Rightarrow>
          let geometry = (\<lambda>u. map GeometrySignature (pools_pb (the (map_of src_by_unit u)))) in
          check_each (\<lambda>u.
            if geometry u \<noteq> geometry first then
              InvalidArgumentError (''Source pool geometry differs across ranks at '' @ PythonRepr u)
            else OkStatus) rest)"

text \<open>The metadata of the sources by unit and of the destination, once all checks passed.\<close>

definition resolve_metadata ::
  "PlanRequest \<Rightarrow> ((RaidenId, RegisterWorkUnitRequest) amap \<times> RegisterWorkUnitRequest) status_or" where
  "resolve_metadata request =
     and_then (MetadataByUnit (src_metadata request) (src_units request)) (\<lambda>src_by_unit.
     and_then (MetadataByUnit (dst_metadata request) (dst_units request)) (\<lambda>dst_by_unit.
       let dst_meta = the (map_of dst_by_unit (hd (dst_units request)));
           all_metadata = map (\<lambda>u. the (map_of src_by_unit u)) (src_units request) @ [dst_meta]
       in and_then (check_each check_metadata all_metadata) (\<lambda>_.
          if length (remdups (map layout_fingerprint_pb all_metadata)) \<noteq> 1 then
            InvalidArgumentError ''Layout fingerprint mismatch between source and destination''
          else and_then (check_identity request src_by_unit dst_meta) (\<lambda>_.
            and_then (check_geometry request src_by_unit) (\<lambda>_. Inr (src_by_unit, dst_meta))))))"

section \<open>Tags, destination blocks and parallelism\<close>

definition resolve_counts :: "PlanRequest \<Rightarrow> int list status_or" where
  "resolve_counts request =
     (let tags = transfer_pool_tags request; counts = dst_block_counts request;
          blocks = int (length (dst_device_block_ids request))
      in if tags = [] then InvalidArgumentError ''transfer_pool_tags must name at least one pool tag''
         else if \<not> distinct tags then
           InvalidArgumentError (''transfer_pool_tags must not repeat tags; got '' @ PyStrListRepr tags)
         else if counts \<noteq> [] then
           if length counts \<noteq> length tags then
             InvalidArgumentError (''dst_block_counts must align 1:1 with transfer_pool_tags: '' @
               dec (int (length counts)) @ '' counts for '' @ dec (int (length tags)) @ '' tags'')
           else and_then (foldM add64 0 counts) (\<lambda>total.
             if list_ex (\<lambda>c. c \<le> 0) counts \<or> total \<noteq> blocks then
               InvalidArgumentError (''dst_block_counts must be positive and sum to the destination '' @
                 ''block count: counts='' @ PythonReprIntList counts @ '', blocks='' @ dec blocks)
             else Inr counts)
         else if length tags = 1 then Inr [blocks]
         else InvalidArgumentError (''Multi-tag transfers must split dst_device_block_ids with '' @
           ''dst_block_counts''))"

fun split_ids :: "int list \<Rightarrow> int list \<Rightarrow> int list list" where
  "split_ids ids [] = []"
| "split_ids ids (c # cs) = take (nat c) ids # split_ids (drop (nat c) ids) cs"

definition resolve_skips :: "PlanRequest \<Rightarrow> int list status_or" where
  "resolve_skips request =
     (let tags = transfer_pool_tags request; skips = dst_skip_bytes request in
      if skips = [] then Inr (replicate (length tags) 0)
      else if length skips \<noteq> length tags then
        InvalidArgumentError (''dst_skip_bytes must align 1:1 with transfer_pool_tags: '' @
          dec (int (length skips)) @ '' skips for '' @ dec (int (length tags)) @ '' tags'')
      else and_then (check_each (\<lambda>(tag, skip).
          if skip < 0 then
            InvalidArgumentError (''dst_skip_bytes must be non-negative; tag '' @ PyStrRepr tag @ '' requested '' @
              dec skip)
          else OkStatus) (zip tags skips)) (\<lambda>_. Inr skips))"

definition check_tags :: "PlanRequest \<Rightarrow> RegisterWorkUnitRequest \<Rightarrow> status" where
  "check_tags request dst_meta =
     check_each (\<lambda>tag.
       if tag \<notin> set (map tag_pb (pools_pb dst_meta)) then
         InvalidArgumentError (''transfer_pool_tags do not match any registered pool: ['' @ PyStrRepr tag @ '']'')
       else OkStatus) (transfer_pool_tags request)"

text \<open>The units by rank, in rank order, and the parallelism.\<close>

definition resolve_parallelism ::
  "PlanRequest \<Rightarrow> (RaidenId, RegisterWorkUnitRequest) amap \<Rightarrow> ((int, RaidenId) amap \<times> int) status_or" where
  "resolve_parallelism request src_by_unit =
     (let meta = (\<lambda>u. the (map_of src_by_unit u));
          admitted = remdups (map (\<lambda>u. transfer_parallelism_pb (meta u)) (src_units request));
          ranks = sort_key fst (foldl (\<lambda>m u. put (transfer_rank_pb (meta u)) u m) [] (src_units request));
          topology = hd admitted;
          requested = (case parallelism request of Some p \<Rightarrow> p | None \<Rightarrow> topology)
      in if length admitted \<noteq> 1 \<or> 0 \<in> set admitted then
           InvalidArgumentError (''All source ranks must declare one consistent positive '' @ ''transfer_parallelism'')
         else if length ranks \<noteq> length (src_units request) then
           InvalidArgumentError ''Source transfer_rank values must be unique''
         else if keys ranks \<noteq> map int [0..<length ranks] then
           InvalidArgumentError ''Source transfer_rank values must be contiguous from zero''
         else if requested \<le> 0 then InvalidArgumentError ''parallelism must be positive''
         else if requested > topology then
           InvalidArgumentError (''parallelism exceeds source admission: requested='' @ dec requested @
             '', admitted='' @ dec topology)
         else Inr (ranks, requested))"

section \<open>Pools of a tag\<close>

definition sum_sizes :: "PoolLiveSegment list \<Rightarrow> int status_or" where
  "sum_sizes segments = foldM (\<lambda>total segment. add64 total (seg_size segment)) 0 segments"

text \<open>The live byte counts and the distinct run lists of the pools seen so far, per side.\<close>

type_synonym geometry_acc =
  "int list \<times> int list \<times> PoolLiveSegment list list \<times> PoolLiveSegment list list"

definition precheck_pool ::
  "RegisterWorkUnitRequest \<Rightarrow> RegisterWorkUnitRequest \<Rightarrow> geometry_acc \<Rightarrow> nat \<Rightarrow> geometry_acc status_or" where
  "precheck_pool reference_src dst_meta acc i =
     (case acc of (src_lives, dst_lives, src_maps, dst_maps) \<Rightarrow>
        and_then (LiveSegments_of (pools_pb reference_src ! i)) (\<lambda>src_ss.
        and_then (LiveSegments_of (pools_pb dst_meta ! i)) (\<lambda>dst_ss.
        and_then (sum_sizes src_ss) (\<lambda>sl.
        and_then (sum_sizes dst_ss) (\<lambda>dl.
          if sl \<le> 0 \<or> dl \<le> 0 then
            InvalidArgumentError (''Pool '' @ dec (int i) @ '' has no declared live bytes'')
          else Inr (List.insert sl src_lives, List.insert dl dst_lives,
            if src_ss \<in> set src_maps then src_maps else src_maps @ [src_ss],
            if dst_ss \<in> set dst_maps then dst_maps else dst_maps @ [dst_ss]))))))"

definition precheck_tag ::
  "RegisterWorkUnitRequest \<Rightarrow> RegisterWorkUnitRequest \<Rightarrow> string \<Rightarrow> int list \<Rightarrow> int \<Rightarrow> TagPrecheck status_or" where
  "precheck_tag reference_src dst_meta tag ids skip =
     (if \<not> distinct ids then
        InvalidArgumentError (''dst_device_block_ids for tag '' @ PyStrRepr tag @ '' must not contain duplicates'')
      else
        let sel = filter (\<lambda>i. tag_pb (pools_pb dst_meta ! i) = tag) [0..<length (pools_pb dst_meta)] in
        and_then (foldM (precheck_pool reference_src dst_meta) ([], [], [], []) sel) (\<lambda>(sls, dls, sms, dms).
          if length sls \<noteq> 1 \<or> length dls \<noteq> 1 then
            InvalidArgumentError (''Pools tagged '' @ tag @ '' must share one geometry per side; '' @ ''src='' @
              PySortedIntSetRepr sls @ '' dst='' @ PySortedIntSetRepr dls)
          else if length sms \<noteq> 1 \<or> length dms \<noteq> 1 then
            InvalidArgumentError (''Pools tagged '' @ tag @ '' must share one live-region map per side'')
          else if skip mod hd dls \<noteq> 0 then
            InvalidArgumentError (''dst_skip_bytes must be a whole multiple of the destination page '' @
              ''live bytes for tag '' @ PyStrRepr tag @ '': skip='' @ dec skip @ '', page_live_bytes='' @ dec (hd dls))
          else Inr \<lparr>selected = sel, src_live = hd sls, dst_live = hd dls,
            src_segments = hd sms, dst_segments = hd dms\<rparr>))"

definition precheck_tags ::
  "PlanRequest \<Rightarrow> RegisterWorkUnitRequest \<Rightarrow> RegisterWorkUnitRequest \<Rightarrow> int list list \<Rightarrow> int list \<Rightarrow>
   TagPrecheck list status_or" where
  "precheck_tags request reference_src dst_meta tag_dst_ids tag_skips =
     foldM (\<lambda>acc (tag, ids, skip). and_then (precheck_tag reference_src dst_meta tag ids skip) (\<lambda>p. Inr (acc @ [p])))
       [] (zip (transfer_pool_tags request) (zip tag_dst_ids tag_skips))"

section \<open>Declared spans of a tag\<close>

type_synonym unit_spans = "RaidenId \<times> PoolSpanRegistration"

definition declared_spans ::
  "PlanRequest \<Rightarrow> (RaidenId, RequestBlockRegistration) amap \<Rightarrow> string \<Rightarrow> unit_spans list status_or" where
  "declared_spans request registrations tag =
     (let declared = concat (map (\<lambda>u. map (\<lambda>entry. (u, entry))
            (filter (\<lambda>entry. span_tag entry = tag \<and> spans entry \<noteq> []) (row_pool_spans (the (map_of registrations u)))))
            (src_units request))
      in if declared = [] then
           InvalidArgumentError (''No byte-span declarations are registered for tag '' @ tag @ '', req_id='' @
             req_id request @ '', uuid='' @ dec (uuid request))
         else Inr declared)"

lemma smod_room: "0 < live \<Longrightarrow> sub64 live (g smod live) = Inr room \<Longrightarrow> 0 < room" for live :: int
  using smod_int_range [of live g] by (auto simp: status_simps)

text \<open>The \<open>while\<close> loop that cuts a global range at the destination page boundaries.\<close>

function split_loop ::
  "int \<Rightarrow> int \<Rightarrow> int \<Rightarrow> int \<Rightarrow> int \<Rightarrow> PoolByteSpan list \<Rightarrow> PoolByteSpan list status_or" where
  "split_loop live ordinal remaining global_offset src_offset acc =
     (if remaining > 0 then
        if live \<le> 0 then UndefinedBehaviour ''division by a page of no bytes''
        else and_then (sub64 live (global_offset smod live)) (\<lambda>room.
          let chunk = min remaining room;
              piece = \<lparr>src_block_ordinal = ordinal, src_offset_bytes = src_offset,
                       dst_block_index = global_offset sdiv live, dst_offset_bytes = global_offset smod live,
                       size_bytes = chunk, src_stride_bytes = 0, dst_stride_bytes = 0, span_count = 1\<rparr>
          in and_then (add64 global_offset chunk) (\<lambda>g. and_then (add64 src_offset chunk) (\<lambda>s.
               split_loop live ordinal (remaining - chunk) g s (acc @ [piece]))))
      else Inr acc)"
  by pat_completeness auto
termination
  by (relation "measure (\<lambda>(live, ordinal, remaining, g, s, acc). nat remaining)") (auto, rule smod_room, auto)

declare split_loop.simps [simp del]

definition check_global_span :: "RaidenId \<Rightarrow> PoolByteSpan \<Rightarrow> status" where
  "check_global_span u sp =
     (if span_count sp > 1 \<or> src_stride_bytes sp \<noteq> 0 \<or> dst_stride_bytes sp \<noteq> 0 then
        InvalidArgumentError (''Global-space byte spans must be plain contiguous ranges '' @ ''(declared by '' @
          PythonRepr u @ '')'')
      else if dst_block_index sp \<noteq> 0 then
        InvalidArgumentError (''Global-space byte spans must leave dst_block_index zero '' @ ''(declared by '' @
          PythonRepr u @ '')'')
      else OkStatus)"

text \<open>One page-agnostic span: the pieces so far, the bytes clipped, the end of the global space.\<close>

definition convert_span ::
  "int \<Rightarrow> int \<Rightarrow> RaidenId \<Rightarrow> PoolByteSpan list \<times> int \<times> int \<Rightarrow> PoolByteSpan \<Rightarrow>
   (PoolByteSpan list \<times> int \<times> int) status_or" where
  "convert_span live skip u acc sp =
     (case acc of (pieces, clipped, global_end) \<Rightarrow>
        and_then (check_global_span u sp) (\<lambda>_.
        and_then (add64 (dst_offset_bytes sp) (size_bytes sp)) (\<lambda>stop.
          if stop \<le> skip then
            and_then (add64 clipped (size_bytes sp)) (\<lambda>c. Inr (pieces, c, max global_end stop))
          else
            and_then (if dst_offset_bytes sp < skip then sub64 skip (dst_offset_bytes sp) else Inr 0) (\<lambda>advance.
            and_then (if dst_offset_bytes sp < skip then add64 clipped advance else Inr clipped) (\<lambda>c.
            and_then (sub64 (size_bytes sp) advance) (\<lambda>remaining.
            and_then (add64 (dst_offset_bytes sp) advance) (\<lambda>start.
            and_then (sub64 start skip) (\<lambda>g.
            and_then (add64 (src_offset_bytes sp) advance) (\<lambda>s.
            and_then (split_loop live (src_block_ordinal sp) remaining g s pieces) (\<lambda>pieces'.
              Inr (pieces', c, max global_end stop)))))))))))"

definition convert_declaration ::
  "string \<Rightarrow> int \<Rightarrow> int \<Rightarrow> unit_spans list \<times> int \<times> int \<Rightarrow> unit_spans \<Rightarrow>
   (unit_spans list \<times> int \<times> int) status_or" where
  "convert_declaration tag live skip acc d =
     (case acc of (converted, clipped, global_end) \<Rightarrow>
      case d of (u, entry) \<Rightarrow>
        if dst_space_version entry = 0 then
          if skip > 0 then
            InvalidArgumentError (''dst_skip_bytes requires destination-page-agnostic '' @
              ''(dst_space_version=1) declarations for tag '' @ PyStrRepr tag @ '' (declared by '' @ PythonRepr u @ '')'')
          else Inr (converted @ [(u, entry)], clipped, global_end)
        else
          and_then (foldM (convert_span live skip u) ([], clipped, global_end) (spans entry)) (\<lambda>(pieces, c, g).
            Inr (converted @ [(u, entry\<lparr>spans := pieces, dst_space_version := 0\<rparr>)], c, g)))"

text \<open>The page-indexed declarations of a tag and the number of bytes below the clip.\<close>

definition convert_declarations ::
  "string \<Rightarrow> int \<Rightarrow> int \<Rightarrow> unit_spans list \<Rightarrow> (unit_spans list \<times> int) status_or" where
  "convert_declarations tag live skip declared =
     and_then (foldM (convert_declaration tag live skip) ([], 0, 0) declared) (\<lambda>(converted, clipped, global_end).
       if skip > 0 \<and> skip \<ge> global_end then
         InvalidArgumentError (''dst_skip_bytes removes the entire tag '' @ PyStrRepr tag @ '': skip='' @ dec skip @
           '', declared_extent='' @ dec global_end @ ''; a full local hit must not reach the planner'')
       else Inr (converted, clipped))"

definition check_block_ranges ::
  "(RaidenId, RegisterWorkUnitRequest) amap \<Rightarrow> RegisterWorkUnitRequest \<Rightarrow> nat list \<Rightarrow> unit_spans list \<Rightarrow>
   int list \<Rightarrow> status" where
  "check_block_ranges src_by_unit dst_meta sel declared ids =
     check_each (\<lambda>i.
       and_then (check_each (\<lambda>(u, entry).
           if list_ex (\<lambda>b. b \<ge> num_blocks_pb (pools_pb (the (map_of src_by_unit u)) ! i)) (span_block_ids entry) then
             InvalidArgumentError (''Source block id is out of range for pool '' @ dec (int i) @ '' at '' @ PythonRepr u)
           else OkStatus) declared) (\<lambda>_.
         if list_ex (\<lambda>b. b \<ge> num_blocks_pb (pools_pb dst_meta ! i)) ids then
           InvalidArgumentError (''Destination block id is out of range for pool '' @ dec (int i))
         else OkStatus)) sel"

section \<open>Coverage\<close>

record coverage_acc =
  coverage :: "(int \<times> int) list list"
  expanded_repeats :: int
  declared_total :: int
  covered_total :: int

definition cover_repeat :: "PoolByteSpan \<Rightarrow> coverage_acc \<Rightarrow> int \<Rightarrow> coverage_acc status_or" where
  "cover_repeat sp acc i =
     (let j = nat (dst_block_index sp) in
      and_then (mul64 i (dst_stride_bytes sp)) (\<lambda>d.
      and_then (add64 (dst_offset_bytes sp) d) (\<lambda>start.
      and_then (add64 start (size_bytes sp)) (\<lambda>stop.
        if dst_block_index sp < 0 then UndefinedBehaviour ''coverage index below zero''
        else and_then (add64 (covered_total acc) (size_bytes sp)) (\<lambda>c.
          Inr (acc\<lparr>coverage := (coverage acc)[j := coverage acc ! j @ [(start, stop)]], covered_total := c\<rparr>))))))"

definition cover_span ::
  "string \<Rightarrow> int \<Rightarrow> int \<Rightarrow> nat \<Rightarrow> RaidenId \<Rightarrow> coverage_acc \<Rightarrow> PoolByteSpan \<Rightarrow> coverage_acc status_or" where
  "cover_span tag slive dlive n u acc sp =
     (if dst_block_index sp \<ge> int n then
        InvalidArgumentError (''Byte span destination index '' @ dec (dst_block_index sp) @ '' exceeds the transfer'' @
          [CHR 0x27] @ ''s '' @ dec (int n) @ '' destination blocks for tag '' @ PyStrRepr tag @
          '' (declared by '' @ PythonRepr u @ '')'')
      else
        and_then (span_end (src_offset_bytes sp) (span_count sp) (src_stride_bytes sp) (size_bytes sp)) (\<lambda>src_end.
        if src_end > slive then
          InvalidArgumentError (''Byte span exceeds its source block live bytes: end='' @ dec src_end @ '', live='' @
            dec slive @ '' (declared by '' @ PythonRepr u @ '')'')
        else and_then (span_end (dst_offset_bytes sp) (span_count sp) (dst_stride_bytes sp) (size_bytes sp)) (\<lambda>dst_end.
        if dst_end > dlive then
          InvalidArgumentError (''Byte span exceeds its destination block live bytes: end='' @ dec dst_end @
            '', live='' @ dec dlive @ '' (declared by '' @ PythonRepr u @ '')'')
        else if expanded_repeats acc + span_count sp > kMaxLiveSegments then
          InvalidArgumentError ''Byte span plan exceeds the repeat expansion bound''
        else foldM (cover_repeat sp) (acc\<lparr>expanded_repeats := expanded_repeats acc + span_count sp\<rparr>)
          [0..span_count sp - 1])))"

definition cover_declaration ::
  "string \<Rightarrow> int \<Rightarrow> int \<Rightarrow> nat \<Rightarrow> coverage_acc \<Rightarrow> unit_spans \<Rightarrow> coverage_acc status_or" where
  "cover_declaration tag slive dlive n acc d =
     (case d of (u, entry) \<Rightarrow>
        and_then (add64 (declared_total acc) (declared_bytes entry)) (\<lambda>t.
          foldM (cover_span tag slive dlive n u) (acc\<lparr>declared_total := t\<rparr>) (spans entry)))"

definition check_prefix :: "nat \<Rightarrow> int \<Rightarrow> int \<times> int \<Rightarrow> int status_or" where
  "check_prefix index covered_until iv =
     (if fst iv \<noteq> covered_until then
        InvalidArgumentError (''Declared byte spans have a destination coverage '' @
          (if fst iv < covered_until then ''overlap'' else ''gap'') @ '' at byte '' @
          dec (min (fst iv) covered_until) @ '' of destination block index '' @ dec (int index))
      else Inr (snd iv))"

definition block_extent :: "string \<Rightarrow> int \<Rightarrow> nat \<Rightarrow> (int \<times> int) list list \<Rightarrow> nat \<Rightarrow> int status_or" where
  "block_extent tag dlive n cov index =
     (let intervals = sort (cov ! index) in
      if intervals = [] then
        InvalidArgumentError (''Destination block index '' @ dec (int index) @
          '' has no declared coverage for tag '' @ PyStrRepr tag)
      else and_then (foldM (check_prefix index) 0 intervals) (\<lambda>covered_until.
        if index \<noteq> n - 1 \<and> covered_until \<noteq> dlive then
          InvalidArgumentError (''Destination block index '' @ dec (int index) @ '' is covered to '' @
            dec covered_until @ '' of '' @ dec dlive @ '' live bytes; only the final block may be partial'')
        else Inr covered_until))"

definition check_totals :: "coverage_acc \<Rightarrow> int \<Rightarrow> int list \<Rightarrow> status" where
  "check_totals acc clipped extents =
     and_then (add64 (covered_total acc) clipped) (\<lambda>accounted.
       if declared_total acc \<noteq> accounted then
         InvalidArgumentError (''Declared byte totals disagree with coverage: declared='' @ dec (declared_total acc) @
           '', covered='' @ dec (covered_total acc) @
           (if clipped = 0 then [] else '', clipped='' @ dec clipped))
       else and_then (foldM add64 0 extents) (\<lambda>extent_sum.
         if covered_total acc \<noteq> extent_sum then InternalError ''byte coverage accounting failed''
         else OkStatus))"

text \<open>The covered prefix of every destination block of the tag.\<close>

definition check_coverage ::
  "string \<Rightarrow> int \<Rightarrow> int \<Rightarrow> nat \<Rightarrow> unit_spans list \<Rightarrow> int \<Rightarrow> int list status_or" where
  "check_coverage tag slive dlive n declared clipped =
     and_then (foldM (cover_declaration tag slive dlive n)
         \<lparr>coverage = replicate n [], expanded_repeats = 0, declared_total = 0, covered_total = 0\<rparr> declared) (\<lambda>acc.
     and_then (foldM (\<lambda>extents index. and_then (block_extent tag dlive n (coverage acc) index) (\<lambda>e. Inr (extents @ [e])))
         [] [0..<n]) (\<lambda>extents.
     and_then (check_totals acc clipped extents) (\<lambda>_. Inr extents)))"

section \<open>Emission\<close>

type_synonym ordered_span = "PoolByteSpan \<times> unit_spans"

definition order_spans :: "unit_spans list \<Rightarrow> ordered_span list" where
  "order_spans declared =
     sort_key (\<lambda>(sp, d). (dst_block_index sp, dst_offset_bytes sp))
       (concat (map (\<lambda>(u, entry). map (\<lambda>sp. (sp, u, entry)) (spans entry)) declared))"

definition schedule_entry :: "string \<Rightarrow> nat \<Rightarrow> int \<Rightarrow> int \<Rightarrow> LiveCopyChunk \<Rightarrow> ScheduleEntry" where
  "schedule_entry peer group_idx src_block dst_block chunk =
     \<lparr>entry_dst_peer = peer, entry_dst_shard_idx = 0, entry_dst_offset = dst_physical chunk,
      entry_src_offset = src_physical chunk, entry_size = chunk_size chunk, entry_src_block = src_block,
      entry_dst_block = dst_block, entry_src_stride = 0, entry_dst_stride = 0, entry_count = 1,
      entry_layer_idx = 0, entry_pool_group = int32 (int group_idx)\<rparr>"

definition vector_at :: "'a list \<Rightarrow> int \<Rightarrow> 'a status_or" where
  "vector_at xs i =
     (if 0 \<le> i \<and> i < int (length xs) then Inr (xs ! nat i) else UndefinedBehaviour ''index outside a vector'')"

definition push_entry ::
  "RaidenId \<Rightarrow> (RaidenId, ScheduleEntry list) amap \<Rightarrow> ScheduleEntry \<Rightarrow> (RaidenId, ScheduleEntry list) amap" where
  "push_entry u m e = put u ((case map_of m u of None \<Rightarrow> [] | Some es \<Rightarrow> es) @ [e]) m"

record emit_acc =
  schedules :: "(RaidenId, ScheduleEntry list) amap"
  emitted_chunks :: int
  transfer_pairs :: "(RaidenId, (string \<times> int \<times> int) list) amap"

definition emit_repeat ::
  "TagPrecheck \<Rightarrow> string \<Rightarrow> nat \<Rightarrow> RaidenId \<Rightarrow> int \<Rightarrow> int \<Rightarrow> PoolByteSpan \<Rightarrow> emit_acc \<Rightarrow> int \<Rightarrow> emit_acc status_or" where
  "emit_repeat pre peer group_idx u src_block dst_block sp acc i =
     and_then (mul64 i (src_stride_bytes sp)) (\<lambda>sd.
     and_then (add64 (src_offset_bytes sp) sd) (\<lambda>src_offset.
     and_then (mul64 i (dst_stride_bytes sp)) (\<lambda>dd.
     and_then (add64 (dst_offset_bytes sp) dd) (\<lambda>dst_offset.
     and_then (TranslateLiveCopy (src_segments pre) (dst_segments pre) src_offset dst_offset (size_bytes sp)) (\<lambda>chunks.
       let emitted = emitted_chunks acc + int (length chunks) in
       if emitted > kMaxLiveSegments then
         InvalidArgumentError ''Byte-span plan exceeds the live-region expansion bound''
       else Inr (acc\<lparr>emitted_chunks := emitted,
         schedules := foldl (push_entry u) (schedules acc) (map (schedule_entry peer group_idx src_block dst_block) chunks)\<rparr>))))))"

definition emit_span ::
  "TagPrecheck \<Rightarrow> string \<Rightarrow> nat \<Rightarrow> int list \<Rightarrow> emit_acc \<Rightarrow> ordered_span \<Rightarrow> emit_acc status_or" where
  "emit_span pre peer group_idx ids acc os =
     (case os of (sp, u, entry) \<Rightarrow>
        and_then (vector_at (span_block_ids entry) (src_block_ordinal sp)) (\<lambda>src_block.
        and_then (vector_at ids (dst_block_index sp)) (\<lambda>dst_block.
        and_then (foldM (emit_repeat pre peer group_idx u src_block dst_block sp) acc [0..span_count sp - 1]) (\<lambda>acc'.
          Inr (acc'\<lparr>transfer_pairs := put u (List.insert (peer, src_block, dst_block)
            (case map_of (transfer_pairs acc') u of None \<Rightarrow> [] | Some ps \<Rightarrow> ps)) (transfer_pairs acc')\<rparr>)))))"

definition expected_pushes :: "int \<Rightarrow> (RaidenId, (string \<times> int \<times> int) list) amap \<Rightarrow> int" where
  "expected_pushes par pairs = (\<Sum>(u, ps)\<leftarrow>pairs. min par (int (length ps)))"

section \<open>The plan\<close>

record plan_acc =
  all_schedules :: "(RaidenId, ScheduleEntry list) amap"
  pool_groups :: "PlanPoolGroup list"
  union_selected :: "nat list"
  flat_extents :: "int list"
  all_chunks :: int

definition plan_tag ::
  "PlanRequest \<Rightarrow> (RaidenId, RegisterWorkUnitRequest) amap \<Rightarrow> RegisterWorkUnitRequest \<Rightarrow>
   (RaidenId, RequestBlockRegistration) amap \<Rightarrow> int \<Rightarrow> plan_acc \<Rightarrow>
   nat \<times> string \<times> int list \<times> int \<times> TagPrecheck \<Rightarrow> plan_acc status_or" where
  "plan_tag request src_by_unit dst_meta registrations par acc job =
     (case job of (group_idx, tag, ids, skip, pre) \<Rightarrow>
        and_then (declared_spans request registrations tag) (\<lambda>declared.
        and_then (convert_declarations tag (dst_live pre) skip declared) (\<lambda>(converted, clipped).
        and_then (check_block_ranges src_by_unit dst_meta (selected pre) converted ids) (\<lambda>_.
        and_then (check_coverage tag (src_live pre) (dst_live pre) (length ids) converted clipped) (\<lambda>extents.
        and_then (foldM (emit_span pre (hd (shards_pb dst_meta)) group_idx ids)
            \<lparr>schedules = all_schedules acc, emitted_chunks = all_chunks acc, transfer_pairs = []\<rparr>
            (order_spans converted)) (\<lambda>e.
          let pushes = expected_pushes par (transfer_pairs e) in
          if pushes \<le> 0 then
            InvalidArgumentError (''Pool reshard plan contains no source pushes for tag '' @ PyStrRepr tag)
          else Inr
            \<lparr>all_schedules = schedules e,
             pool_groups = pool_groups acc @ [\<lparr>group_pool_indices = selected pre, group_dst_block_ids = ids,
               group_expected_pushes = int32 pushes, group_extents = extents,
               group_order_rank = (if group_idx = 0 then 0 else 1)\<rparr>],
             union_selected = union_selected acc @ selected pre, flat_extents = flat_extents acc @ extents,
             all_chunks = emitted_chunks e\<rparr>))))))"

definition count_skipped :: "nat list \<Rightarrow> PoolSpecProto list \<Rightarrow> (string, int) amap" where
  "count_skipped sel pools =
     foldl (\<lambda>m i. put (tag_pb (pools ! i)) ((case map_of m (tag_pb (pools ! i)) of None \<Rightarrow> 0 | Some n \<Rightarrow> n) + 1) m)
       [] (filter (\<lambda>i. i \<notin> set sel) [0..<length pools])"

definition assemble_plan ::
  "PlanRequest \<Rightarrow> (RaidenId, RegisterWorkUnitRequest) amap \<Rightarrow> RegisterWorkUnitRequest \<Rightarrow> (int, RaidenId) amap \<Rightarrow>
   int \<Rightarrow> plan_acc \<Rightarrow> PoolReshardPlan status_or" where
  "assemble_plan request src_by_unit dst_meta ranks par acc =
     (let active = filter (\<lambda>u. map_of (all_schedules acc) u \<noteq> None) (map snd ranks);
          all_metadata = map (\<lambda>u. the (map_of src_by_unit u)) (src_units request) @ [dst_meta]
      in if \<not> distinct (union_selected acc) then
           InvalidArgumentError (''Requested tags select overlapping pool indices; tags must '' @ ''partition their pools'')
         else Inr
           \<lparr>plan_src_units = active, plan_dst_unit = hd (dst_units request), plan_schedules = all_schedules acc,
            plan_rpc_addresses = foldl (\<lambda>m meta. put (RaidenIdFromProto (unit_pb meta)) (control_plane_rpc_address_pb meta) m)
              [] all_metadata,
            plan_dst_peer = hd (shards_pb dst_meta), plan_uuid = uuid request, plan_req_id = req_id request,
            plan_expected_block_count = int (length (dst_device_block_ids request)),
            plan_expected_pushes_per_pool = group_expected_pushes (hd (pool_groups acc)),
            plan_pool_indices = union_selected acc, plan_dtype_tags = map dtype_tag_pb (pools_pb dst_meta),
            plan_dst_block_ids = dst_device_block_ids request,
            plan_schedule_keys = foldl (\<lambda>m (i, u). put u (int32 (int i)) m) [] (enumerate 0 active),
            plan_parallelism = int32 par, plan_num_tokens = max (num_tokens request) 0,
            plan_skipped_pool_counts = count_skipped (union_selected acc) (pools_pb dst_meta),
            plan_extents = flat_extents acc, plan_pool_groups = pool_groups acc, plan_skip_d2h = False\<rparr>)"

text \<open>Everything before the claim: the resolved metadata, ranks, parallelism and tag jobs.\<close>

type_synonym tag_job = "nat \<times> string \<times> int list \<times> int \<times> TagPrecheck"

definition resolve_request ::
  "PlanRequest \<Rightarrow> ((RaidenId, RegisterWorkUnitRequest) amap \<times> RegisterWorkUnitRequest \<times> (int, RaidenId) amap \<times>
     int \<times> tag_job list) status_or" where
  "resolve_request request =
     and_then (check_arguments request) (\<lambda>_.
     and_then (resolve_metadata request) (\<lambda>(src_by_unit, dst_meta).
     and_then (resolve_counts request) (\<lambda>counts.
     and_then (resolve_skips request) (\<lambda>skips.
     and_then (check_tags request dst_meta) (\<lambda>_.
     and_then (resolve_parallelism request src_by_unit) (\<lambda>(ranks, par).
       let tag_ids = split_ids (dst_device_block_ids request) counts;
           reference_src = the (map_of src_by_unit (hd (src_units request)))
       in and_then (precheck_tags request reference_src dst_meta tag_ids skips) (\<lambda>pres.
            Inr (src_by_unit, dst_meta, ranks, par,
              enumerate 0 (zip (transfer_pool_tags request) (zip tag_ids (zip skips pres)))))))))))"

text \<open>Everything after the claim, over the claimed snapshot.\<close>

definition plan_claimed ::
  "PlanRequest \<Rightarrow> (RaidenId, RegisterWorkUnitRequest) amap \<Rightarrow> RegisterWorkUnitRequest \<Rightarrow> (int, RaidenId) amap \<Rightarrow>
   int \<Rightarrow> tag_job list \<Rightarrow> (RaidenId, RequestBlockRegistration) amap \<Rightarrow> PoolReshardPlan status_or" where
  "plan_claimed request src_by_unit dst_meta ranks par jobs registrations =
     and_then (foldM (plan_tag request src_by_unit dst_meta registrations par)
       \<lparr>all_schedules = [], pool_groups = [], union_selected = [], flat_extents = [], all_chunks = 0\<rparr> jobs)
       (assemble_plan request src_by_unit dst_meta ranks par)"

definition BuildPoolReshardPlan ::
  "RequestBlockRegistry \<Rightarrow> real \<Rightarrow> PlanRequest \<Rightarrow> nat \<Rightarrow> PoolReshardPlan status_or \<times> RequestBlockRegistry" where
  "BuildPoolReshardPlan registry now request claim_owner =
     (case resolve_request request of
        Inl e \<Rightarrow> (Inl e, registry)
      | Inr (src_by_unit, dst_meta, ranks, par, jobs) \<Rightarrow>
          (case LookupAndClaim registry now (req_id request) (uuid request) (src_units request) claim_owner of
             (Inl e, registry') \<Rightarrow> (Inl e, registry')
           | (Inr registrations, registry') \<Rightarrow>
               (plan_claimed request src_by_unit dst_meta ranks par jobs registrations, registry')))"

end
