(* ===== verification/PlanCoverage.thy ===== *)
theory PlanCoverage
  imports Planner "HOL-Library.Multiset"
begin

text \<open>
  What the stages of \<open>BuildPoolReshardPlan\<close> establish. The byte copies that spans declare are
  lists of pairs of source and destination bytes in compact-live coordinates; the coverage
  check makes the destinations of a tag partition the covered prefixes of its blocks, the
  conversion of page-agnostic spans keeps the copies at or above the clip, and emission
  maps the copies through the address maps of the two sides into the schedules.
\<close>

section \<open>Intervals\<close>

definition bytes_of :: "int \<times> int \<Rightarrow> int list" where
  "bytes_of iv = [fst iv..snd iv - 1]"

definition flat :: "(int \<times> int) list \<Rightarrow> int list" where
  "flat ivs = concat (map bytes_of ivs)"

lemma flat_simps [simp]: "flat [] = []" "flat (iv # ivs) = bytes_of iv @ flat ivs" "flat (xs @ ys) = flat xs @ flat ys"
  by (simp_all add: flat_def)

lemma mset_flat_sort: "mset (flat (sort ivs)) = mset (flat ivs)"
proof -
  have "mset (flat xs) = sum_mset (image_mset (mset \<circ> bytes_of) (mset xs))" for xs
    by (induction xs) simp_all
  then show ?thesis by simp
qed

lemma upto_join: "a \<le> b \<Longrightarrow> b \<le> c \<Longrightarrow> [a..b - 1] @ [b..c - 1] = [a..c - 1]" for a b c :: int
  using upto_split1 [of a b "c - 1"] by (cases "b = c") simp_all

lemma check_prefix_Inr: "check_prefix i a iv = Inr e \<longleftrightarrow> fst iv = a \<and> e = snd iv"
  by (auto simp: check_prefix_def)

lemma check_prefix_chain:
  assumes "foldM (check_prefix i) a ivs = Inr e" "\<forall>iv\<in>set ivs. fst iv < snd iv"
  shows "a \<le> e \<and> flat ivs = [a..e - 1]"
  using assms
proof (induction ivs arbitrary: a)
  case (Cons iv ivs)
  from Cons.prems have iv: "fst iv = a" "a < snd iv" and rest: "foldM (check_prefix i) (snd iv) ivs = Inr e"
    by (auto simp: check_prefix_Inr and_then_Inr_iff)
  from Cons.IH [OF rest] Cons.prems(2) have "snd iv \<le> e" "flat ivs = [snd iv..e - 1]" by auto
  then show ?case using iv upto_join [of a "snd iv" e] by (simp add: bytes_of_def)
qed simp

definition span_intervals :: "PoolByteSpan \<Rightarrow> (int \<times> int) list" where
  "span_intervals sp = map (\<lambda>i. (dst_offset_bytes sp + i * dst_stride_bytes sp,
     dst_offset_bytes sp + i * dst_stride_bytes sp + size_bytes sp)) [0..span_count sp - 1]"

definition intervals_at :: "PoolByteSpan list \<Rightarrow> nat \<Rightarrow> (int \<times> int) list" where
  "intervals_at sps j = concat (map span_intervals (filter (\<lambda>sp. dst_block_index sp = int j) sps))"

lemma intervals_at_append: "intervals_at (xs @ ys) j = intervals_at xs j @ intervals_at ys j"
  by (simp add: intervals_at_def)

section \<open>The coverage loop\<close>

lemma cover_repeat_Inr:
  "cover_repeat sp acc i = Inr acc' \<Longrightarrow> 0 \<le> dst_block_index sp \<and> coverage acc' =
     (coverage acc)[nat (dst_block_index sp) := coverage acc ! nat (dst_block_index sp) @
       [(dst_offset_bytes sp + i * dst_stride_bytes sp, dst_offset_bytes sp + i * dst_stride_bytes sp + size_bytes sp)]]"
  by (auto simp: cover_repeat_def Let_def status_simps split: if_splits)

lemma cover_repeats:
  assumes "foldM (cover_repeat sp) acc is = Inr acc'" "dst_block_index sp < int (length (coverage acc))"
    and "j < length (coverage acc)"
  shows "length (coverage acc') = length (coverage acc) \<and> (is \<noteq> [] \<longrightarrow> 0 \<le> dst_block_index sp) \<and>
    coverage acc' ! j = coverage acc ! j @ (if dst_block_index sp = int j then
      map (\<lambda>i. (dst_offset_bytes sp + i * dst_stride_bytes sp,
        dst_offset_bytes sp + i * dst_stride_bytes sp + size_bytes sp)) is else [])"
  using assms
proof (induction "is" arbitrary: acc)
  case (Cons i "is")
  let ?iv = "(dst_offset_bytes sp + i * dst_stride_bytes sp, dst_offset_bytes sp + i * dst_stride_bytes sp + size_bytes sp)"
  let ?k = "nat (dst_block_index sp)"
  from Cons.prems(1) obtain acc1 where a: "cover_repeat sp acc i = Inr acc1" "foldM (cover_repeat sp) acc1 is = Inr acc'"
    by (auto simp: and_then_Inr_iff)
  have k: "0 \<le> dst_block_index sp" and c: "coverage acc1 = (coverage acc)[?k := coverage acc ! ?k @ [?iv]]"
    using cover_repeat_Inr [OF a(1)] by auto
  have "?k < length (coverage acc)" using Cons.prems(2) k by simp
  then show ?case using Cons.IH [OF a(2)] Cons.prems(2,3) k by (auto simp: c nth_list_update)
qed simp

lemma cover_span_Inr:
  assumes "cover_span tag sl dl (length (coverage acc)) u acc sp = Inr acc'"
  shows "length (coverage acc') = length (coverage acc)"
    "span_count sp > 0 \<Longrightarrow> 0 \<le> dst_block_index sp \<and> dst_block_index sp < int (length (coverage acc))"
    "j < length (coverage acc) \<Longrightarrow> coverage acc' ! j = coverage acc ! j @ intervals_at [sp] j"
proof -
  have f: "foldM (cover_repeat sp) (acc\<lparr>expanded_repeats := expanded_repeats acc + span_count sp\<rparr>) [0..span_count sp - 1] = Inr acc'"
    and k: "dst_block_index sp < int (length (coverage acc))"
    using assms by (auto simp: cover_span_def and_then_Inr_iff split: if_splits)
  have first: "0 \<le> dst_block_index sp" if "[0..span_count sp - 1] = x # xs" for x xs
    using f that by (auto simp: and_then_Inr_iff dest: cover_repeat_Inr)
  note r = cover_repeats [OF f]
  show "length (coverage acc') = length (coverage acc)"
  proof (cases "coverage acc = []")
    case True
    then have "[0..span_count sp - 1] = []" using k first by (cases "[0..span_count sp - 1]") auto
    then show ?thesis using f by auto
  next
    case False
    then show ?thesis using r [of 0] k by simp
  qed
  show "0 \<le> dst_block_index sp \<and> dst_block_index sp < int (length (coverage acc))" if "span_count sp > 0"
    using first k that by (auto simp: upto_rec1)
  show "coverage acc' ! j = coverage acc ! j @ intervals_at [sp] j" if "j < length (coverage acc)"
    using r [of j] k that by (simp add: intervals_at_def span_intervals_def)
qed

text \<open>All spans of the declarations of a tag, in declaration order.\<close>

definition all_spans :: "unit_spans list \<Rightarrow> PoolByteSpan list" where
  "all_spans ds = concat (map (\<lambda>(u, entry). spans entry) ds)"

lemma cover_spans_Inr:
  assumes "foldM (cover_span tag sl dl n u) acc sps = Inr acc'" "n = length (coverage acc)"
  shows "length (coverage acc') = n \<and>
    (\<forall>sp\<in>set sps. span_count sp > 0 \<longrightarrow> 0 \<le> dst_block_index sp \<and> dst_block_index sp < int n) \<and>
    (\<forall>j<n. coverage acc' ! j = coverage acc ! j @ intervals_at sps j)"
  using assms
proof (induction sps arbitrary: acc)
  case (Cons sp sps)
  from Cons.prems obtain a where a: "cover_span tag sl dl (length (coverage acc)) u acc sp = Inr a"
      "foldM (cover_span tag sl dl n u) a sps = Inr acc'"
    by (auto simp: and_then_Inr_iff)
  note c = cover_span_Inr [OF a(1)]
  from Cons.IH [OF a(2)] c Cons.prems(2) show ?case
    using intervals_at_append [of "[sp]" sps] by auto
qed (auto simp: intervals_at_def)

lemma cover_declarations_Inr:
  assumes "foldM (cover_declaration tag sl dl n) acc ds = Inr acc'" "n = length (coverage acc)"
  shows "length (coverage acc') = n \<and>
    (\<forall>sp\<in>set (all_spans ds). span_count sp > 0 \<longrightarrow> 0 \<le> dst_block_index sp \<and> dst_block_index sp < int n) \<and>
    (\<forall>j<n. coverage acc' ! j = coverage acc ! j @ intervals_at (all_spans ds) j)"
  using assms
proof (induction ds arbitrary: acc)
  case (Cons d ds)
  obtain u entry where d: "d = (u, entry)" by (cases d)
  from Cons.prems(1) obtain a where a: "cover_declaration tag sl dl n acc d = Inr a"
      "foldM (cover_declaration tag sl dl n) a ds = Inr acc'"
    by (auto simp: and_then_Inr_iff)
  from a(1) obtain t where "foldM (cover_span tag sl dl n u) (acc\<lparr>declared_total := t\<rparr>) (spans entry) = Inr a"
    by (auto simp: cover_declaration_def d and_then_Inr_iff)
  note c = cover_spans_Inr [OF this]
  have s: "all_spans (d # ds) = spans entry @ all_spans ds" by (simp add: all_spans_def d)
  from Cons.IH [OF a(2)] c Cons.prems(2) show ?case unfolding s by (auto simp: intervals_at_append)
qed (auto simp: all_spans_def intervals_at_def)

lemma block_extent_Inr:
  assumes "block_extent tag dl n cov j = Inr e" "\<forall>iv\<in>set (cov ! j). fst iv < snd iv"
  shows "0 < e" "mset (flat (cov ! j)) = mset [0..e - 1]" "j \<noteq> n - 1 \<Longrightarrow> e = dl"
proof -
  have f: "foldM (check_prefix j) 0 (sort (cov ! j)) = Inr e" and ne: "sort (cov ! j) \<noteq> []"
    and "j \<noteq> n - 1 \<Longrightarrow> e = dl"
    using assms(1) by (auto simp: block_extent_def Let_def and_then_Inr_iff split: if_splits)
  then show "j \<noteq> n - 1 \<Longrightarrow> e = dl" by blast
  have c: "0 \<le> e \<and> flat (sort (cov ! j)) = [0..e - 1]"
    by (rule check_prefix_chain [OF f]) (use assms(2) in simp)
  then show "mset (flat (cov ! j)) = mset [0..e - 1]" using mset_flat_sort [of "cov ! j"] by simp
  obtain iv where "iv \<in> set (cov ! j)" using ne by (metis list.set_intros(1) neq_Nil_conv set_sort)
  then have "fst iv \<in> set (flat (sort (cov ! j)))" using assms(2) by (force simp: flat_def bytes_of_def)
  then show "0 < e" using c by simp
qed

lemma extents_Inr:
  assumes "foldM (\<lambda>extents index. and_then (f index) (\<lambda>e. Inr (extents @ [e]))) acc js = Inr es"
  shows "\<exists>new. es = acc @ new \<and> list_all2 (\<lambda>j e. f j = Inr e) js new"
  using assms
proof (induction js arbitrary: acc)
  case (Cons j js)
  from Cons.prems obtain e where e: "f j = Inr e"
      "foldM (\<lambda>extents index. and_then (f index) (\<lambda>e. Inr (extents @ [e]))) (acc @ [e]) js = Inr es"
    by (auto simp: and_then_Inr_iff)
  from Cons.IH [OF e(2)] e(1) show ?case by auto
qed simp

text \<open>Each destination byte below the extent of its block lies in exactly one repeat of one span.\<close>

lemma check_coverage_Inr:
  assumes "check_coverage tag sl dl n ds clipped = Inr extents"
    and pos: "\<forall>sp\<in>set (all_spans ds). span_count sp > 0 \<longrightarrow> size_bytes sp > 0"
  shows "length extents = n"
    "\<forall>sp\<in>set (all_spans ds). span_count sp > 0 \<longrightarrow> 0 \<le> dst_block_index sp \<and> dst_block_index sp < int n"
    "\<forall>j<n. mset (flat (intervals_at (all_spans ds) j)) = mset [0..extents ! j - 1] \<and> 0 < extents ! j"
    "\<forall>j<n. j \<noteq> n - 1 \<longrightarrow> extents ! j = dl"
proof -
  let ?acc0 = "\<lparr>coverage = replicate n [], expanded_repeats = 0, declared_total = 0, covered_total = 0\<rparr>"
  obtain acc where acc: "foldM (cover_declaration tag sl dl n) ?acc0 ds = Inr acc"
    and ext: "foldM (\<lambda>extents index. and_then (block_extent tag dl n (coverage acc) index) (\<lambda>e. Inr (extents @ [e])))
        [] [0..<n] = Inr extents"
    using assms(1) by (auto simp: check_coverage_def and_then_Inr_iff)
  have c: "length (coverage acc) = n"
    "\<forall>sp\<in>set (all_spans ds). span_count sp > 0 \<longrightarrow> 0 \<le> dst_block_index sp \<and> dst_block_index sp < int n"
    "\<forall>j<n. coverage acc ! j = intervals_at (all_spans ds) j"
    using cover_declarations_Inr [OF acc] by auto
  have e: "list_all2 (\<lambda>j e. block_extent tag dl n (coverage acc) j = Inr e) [0..<n] extents"
    using extents_Inr [OF ext] by simp
  then show len: "length extents = n" by (simp add: list_all2_lengthD [symmetric])
  have b: "block_extent tag dl n (coverage acc) j = Inr (extents ! j)" if "j < n" for j
    using e that by (auto simp: list_all2_conv_all_nth)
  have iv: "\<forall>iv\<in>set (intervals_at (all_spans ds) j). fst iv < snd iv" for j
    using pos by (auto simp: intervals_at_def span_intervals_def)
  show "\<forall>j<n. mset (flat (intervals_at (all_spans ds) j)) = mset [0..extents ! j - 1] \<and> 0 < extents ! j"
    "\<forall>j<n. j \<noteq> n - 1 \<longrightarrow> extents ! j = dl"
    using block_extent_Inr [OF b] c(3) iv by auto
  show "\<forall>sp\<in>set (all_spans ds). span_count sp > 0 \<longrightarrow> 0 \<le> dst_block_index sp \<and> dst_block_index sp < int n"
    by (rule c(2))
qed

section \<open>Declared byte copies\<close>

text \<open>
  A source byte is a unit, a block id and a compact-live offset; a destination byte is a block
  index of the tag and a compact-live offset.
\<close>

type_synonym copy = "(RaidenId \<times> int \<times> int) \<times> (int \<times> int)"

definition span_copies :: "RaidenId \<Rightarrow> int list \<Rightarrow> PoolByteSpan \<Rightarrow> copy list" where
  "span_copies u ids sp = concat (map (\<lambda>i. map (\<lambda>k.
     ((u, ids ! nat (src_block_ordinal sp), src_offset_bytes sp + i * src_stride_bytes sp + k),
      (dst_block_index sp, dst_offset_bytes sp + i * dst_stride_bytes sp + k)))
     [0..size_bytes sp - 1]) [0..span_count sp - 1])"

definition declared_copies :: "unit_spans list \<Rightarrow> copy list" where
  "declared_copies ds = concat (map (\<lambda>(u, entry). concat (map (span_copies u (span_block_ids entry)) (spans entry))) ds)"

lemma map_add_upto: "map (\<lambda>k. a + k) [0..n - 1] = [a..a + n - 1]" for a n :: int
  using map_upto_shift [of "\<lambda>x. x" 0 a "n - 1"] by (simp add: algebra_simps)

lemma span_destinations:
  "map (\<lambda>c. snd (snd c)) (filter (\<lambda>c. fst (snd c) = int j) (span_copies u ids sp)) =
   (if dst_block_index sp = int j then flat (span_intervals sp) else [])"
  by (simp add: span_copies_def span_intervals_def flat_def bytes_of_def filter_concat map_concat comp_def
    map_add_upto)

lemma destinations_at:
  "map (\<lambda>c. snd (snd c)) (filter (\<lambda>c. fst (snd c) = int j) (declared_copies ds)) = flat (intervals_at (all_spans ds) j)"
proof -
  have "map (\<lambda>c. snd (snd c)) (filter (\<lambda>c. fst (snd c) = int j) (concat (map (span_copies u ids) sps))) =
      flat (intervals_at sps j)" for u ids sps
    by (induction sps) (simp_all add: span_destinations intervals_at_def)
  then show ?thesis
    by (induction ds) (auto simp: declared_copies_def all_spans_def intervals_at_append intervals_at_def [of "[]"])
qed

lemma declared_copies_index:
  assumes "c \<in> set (declared_copies ds)"
  shows "\<exists>sp\<in>set (all_spans ds). span_count sp > 0 \<and> fst (snd c) = dst_block_index sp"
  using assms by (force simp: declared_copies_def span_copies_def all_spans_def)

section \<open>Page-agnostic spans\<close>

text \<open>The copies a page-agnostic span asks for at or above the clip, cut into pages.\<close>

definition global_copies :: "int \<Rightarrow> int \<Rightarrow> RaidenId \<Rightarrow> int list \<Rightarrow> PoolByteSpan \<Rightarrow> copy list" where
  "global_copies live skip u ids sp = map (\<lambda>k.
     ((u, ids ! nat (src_block_ordinal sp), src_offset_bytes sp + k),
      ((dst_offset_bytes sp + k - skip) div live, (dst_offset_bytes sp + k - skip) mod live)))
     (filter (\<lambda>k. skip \<le> dst_offset_bytes sp + k) [0..size_bytes sp - 1])"

definition requested_copies :: "int \<Rightarrow> int \<Rightarrow> unit_spans \<Rightarrow> copy list" where
  "requested_copies live skip d = (case d of (u, entry) \<Rightarrow>
     concat (map (if dst_space_version entry = 0 then span_copies u (span_block_ids entry)
                  else global_copies live skip u (span_block_ids entry)) (spans entry)))"

lemma in_page:
  fixes g live k :: int
  assumes "0 < live" "0 \<le> g" "0 \<le> k" "k < live - g mod live"
  shows "(g + k) div live = g div live \<and> (g + k) mod live = g mod live + k"
proof -
  have "0 \<le> g mod live + k" "g mod live + k < live" using assms by simp_all
  then have "(g mod live + k) div live = 0" "(g mod live + k) mod live = g mod live + k" by simp_all
  moreover have "(g + k) div live = g div live + (g mod live + k) div live" "(g + k) mod live = (g mod live + k) mod live"
    using assms(1) div_mult_self1 [of live "g mod live + k" "g div live"] by (simp_all add: mod_simps algebra_simps)
  ultimately show ?thesis by simp
qed

lemma sdiv_nonneg: "0 < live \<Longrightarrow> 0 \<le> g \<Longrightarrow> g sdiv live = g div live \<and> g smod live = g mod live" for g live :: int
  by (cases "g = 0") (simp_all add: signed_divide_int_def signed_modulo_int_def)

definition plain_piece :: "PoolByteSpan \<Rightarrow> bool" where
  "plain_piece sp \<longleftrightarrow> span_count sp = 1 \<and> size_bytes sp > 0"

lemma split_loop_Inr:
  assumes "split_loop live ord r g s acc = Inr ps" "0 < live" "0 \<le> g"
  shows "\<exists>new. ps = acc @ new \<and> (\<forall>sp\<in>set new. plain_piece sp) \<and> (\<forall>u ids. concat (map (span_copies u ids) new) =
    map (\<lambda>k. ((u, ids ! nat ord, s + k), ((g + k) div live, (g + k) mod live))) [0..r - 1])"
  using assms
proof (induction live ord r g s acc rule: split_loop.induct)
  case (1 live ord r g s acc)
  show ?case
  proof (cases "r > 0")
    case False
    then show ?thesis using 1(2) by (simp add: split_loop.simps [of live ord r])
  next
    case True
    define m where "m = min r (live - g mod live)"
    have sd: "g sdiv live = g div live" "g smod live = g mod live" using sdiv_nonneg [OF 1(3,4)] by auto
    let ?p = "\<lparr>src_block_ordinal = ord, src_offset_bytes = s, dst_block_index = g div live,
      dst_offset_bytes = g mod live, size_bytes = m, src_stride_bytes = 0, dst_stride_bytes = 0, span_count = 1\<rparr>"
    have a: "sub64 live (g smod live) = Inr (live - g mod live)" "add64 g m = Inr (g + m)" "add64 s m = Inr (s + m)"
      and rec: "split_loop live ord (r - m) (g + m) (s + m) (acc @ [?p]) = Inr ps"
      using 1(2,3) True by (auto simp: split_loop.simps [of live ord r] sd m_def Let_def status_simps)
    have m: "0 < m" "m \<le> r" "m \<le> live - g mod live" using True 1(3) by (auto simp: m_def)
    have pos: "\<not> live \<le> 0" "0 \<le> g + m" using 1(3,4) m by auto
    note IH = 1(1) [OF True pos(1) a(1) refl refl, folded m_def, unfolded sd, OF a(2,3) rec 1(3) pos(2)]
    from IH obtain new where new: "ps = acc @ ?p # new" "\<forall>sp\<in>set new. plain_piece sp"
      "\<And>u ids. concat (map (span_copies u ids) new) =
        map (\<lambda>k. ((u, ids ! nat ord, s + m + k), ((g + m + k) div live, (g + m + k) mod live))) [0..r - m - 1]" by auto
    have "concat (map (span_copies u ids) (?p # new)) =
        map (\<lambda>k. ((u, ids ! nat ord, s + k), ((g + k) div live, (g + k) mod live))) [0..r - 1]" for u ids
    proof -
      let ?f = "\<lambda>k. ((u, ids ! nat ord, s + k), ((g + k) div live, (g + k) mod live))"
      have "span_copies u ids ?p = map ?f [0..m - 1]"
        using in_page [OF 1(3,4)] m by (auto simp: span_copies_def)
      moreover have "map ?f [m..r - 1] = map (\<lambda>k. ?f (k + m)) [0..r - m - 1]"
        using map_upto_shift [of ?f 0 m "r - m - 1"] by simp
      moreover have "[0..r - 1] = [0..m - 1] @ [m..r - 1]" using upto_join [of 0 m r] m by simp
      ultimately show ?thesis using new(3) [of u ids] by (simp add: algebra_simps)
    qed
    then show ?thesis using new(1,2) m by (intro exI [of _ "?p # new"]) (simp add: plain_piece_def)
  qed
qed

lemma filter_from_upto:
  fixes a n :: int
  assumes "0 \<le> a" shows "filter (\<lambda>k. a \<le> k) [0..n - 1] = [a..n - 1]"
proof (cases "a \<le> n")
  case True
  then show ?thesis using upto_join [OF assms True, symmetric] by simp
qed (simp add: filter_empty_conv)

lemma convert_span_Inr:
  assumes "convert_span live skip u (ps, c, ge) sp = Inr (ps', c', ge')" "0 < live" "0 \<le> skip"
  shows "\<exists>new. ps' = ps @ new \<and> (\<forall>p\<in>set new. plain_piece p) \<and>
    (\<forall>ids. concat (map (span_copies u ids) new) = global_copies live skip u ids sp)"
proof (cases "dst_offset_bytes sp + size_bytes sp \<le> skip")
  case True
  then have "ps' = ps" using assms(1) by (auto simp: convert_span_def and_then_Inr_iff add64_Inr)
  moreover have "global_copies live skip u ids sp = []" for ids
    using True by (auto simp: global_copies_def filter_empty_conv)
  ultimately show ?thesis by simp
next
  case False
  define a where "a = max 0 (skip - dst_offset_bytes sp)"
  have l: "split_loop live (src_block_ordinal sp) (size_bytes sp - a) (dst_offset_bytes sp + a - skip)
      (src_offset_bytes sp + a) ps = Inr ps'"
    using assms(1) False
    by (auto simp: convert_span_def and_then_Inr_iff add64_Inr sub64_Inr a_def split: if_splits)
  have g: "0 \<le> dst_offset_bytes sp + a - skip" by (simp add: a_def)
  have "global_copies live skip u ids sp = map (\<lambda>k. ((u, ids ! nat (src_block_ordinal sp), src_offset_bytes sp + a + k),
      ((dst_offset_bytes sp + a - skip + k) div live, (dst_offset_bytes sp + a - skip + k) mod live)))
      [0..size_bytes sp - a - 1]" for ids
  proof -
    have "filter (\<lambda>k. skip \<le> dst_offset_bytes sp + k) [0..size_bytes sp - 1] = filter (\<lambda>k. a \<le> k) [0..size_bytes sp - 1]"
      by (intro filter_cong) (auto simp: a_def)
    also have "\<dots> = map (\<lambda>k. k + a) [0..size_bytes sp - a - 1]"
      using filter_from_upto [of a "size_bytes sp"] map_upto_shift [of "\<lambda>x. x" 0 a "size_bytes sp - a - 1"]
      by (simp add: a_def)
    finally show ?thesis by (simp add: global_copies_def algebra_simps)
  qed
  then show ?thesis using split_loop_Inr [OF l assms(2) g] by auto
qed

lemma convert_spans_Inr:
  assumes "foldM (convert_span live skip u) (ps, c, ge) sps = Inr (ps', c', ge')" "0 < live" "0 \<le> skip"
  shows "\<exists>new. ps' = ps @ new \<and> (\<forall>p\<in>set new. plain_piece p) \<and>
    (\<forall>ids. concat (map (span_copies u ids) new) = concat (map (global_copies live skip u ids) sps))"
  using assms(1)
proof (induction sps arbitrary: ps c ge)
  case (Cons sp sps)
  from Cons.prems obtain ps1 c1 ge1 where a: "convert_span live skip u (ps, c, ge) sp = Inr (ps1, c1, ge1)"
      "foldM (convert_span live skip u) (ps1, c1, ge1) sps = Inr (ps', c', ge')"
    by (auto simp: and_then_Inr_iff)
  from convert_span_Inr [OF a(1) assms(2,3)] Cons.IH [OF a(2)] show ?case by fastforce
qed auto

lemma convert_declarations_fold:
  assumes "foldM (convert_declaration tag live skip) (acc, c, ge) ds = Inr (acc', c', ge')" "0 < live" "0 \<le> skip"
  shows "declared_copies acc' = declared_copies acc @ concat (map (requested_copies live skip) ds) \<and>
    map (\<lambda>(u, entry). (u, span_block_ids entry)) acc' = map (\<lambda>(u, entry). (u, span_block_ids entry)) (acc @ ds)"
  using assms(1)
proof (induction ds arbitrary: acc c ge)
  case (Cons d ds)
  obtain u entry where d: "d = (u, entry)" by (cases d)
  from Cons.prems obtain acc1 c1 ge1 where a: "convert_declaration tag live skip (acc, c, ge) d = Inr (acc1, c1, ge1)"
      "foldM (convert_declaration tag live skip) (acc1, c1, ge1) ds = Inr (acc', c', ge')"
    by (auto simp: and_then_Inr_iff)
  have "declared_copies acc1 = declared_copies acc @ requested_copies live skip d \<and>
    map (\<lambda>(u, entry). (u, span_block_ids entry)) acc1 = map (\<lambda>(u, entry). (u, span_block_ids entry)) (acc @ [d])"
  proof (cases "dst_space_version entry = 0")
    case True
    then show ?thesis using a(1)
      by (auto simp: convert_declaration_def d requested_copies_def declared_copies_def split: if_splits)
  next
    case False
    then obtain ps where ps: "foldM (convert_span live skip u) ([], c, ge) (spans entry) = Inr (ps, c1, ge1)"
        "acc1 = acc @ [(u, entry\<lparr>spans := ps, dst_space_version := 0\<rparr>)]"
      using a(1) by (auto simp: convert_declaration_def d and_then_Inr_iff)
    from convert_spans_Inr [OF ps(1) assms(2,3)] show ?thesis
      using False by (auto simp: ps(2) d requested_copies_def declared_copies_def)
  qed
  then show ?case using Cons.IH [OF a(2)] by (simp add: d)
qed auto

lemma convert_declarations_Inr:
  assumes "convert_declarations tag live skip ds = Inr (converted, clipped)" "0 < live" "0 \<le> skip"
  shows "declared_copies converted = concat (map (requested_copies live skip) ds)"
    "map (\<lambda>(u, entry). (u, span_block_ids entry)) converted = map (\<lambda>(u, entry). (u, span_block_ids entry)) ds"
proof -
  obtain ge where "foldM (convert_declaration tag live skip) ([], 0, 0) ds = Inr (converted, clipped, ge)"
    using assms(1) by (auto simp: convert_declarations_def and_then_Inr_iff split: if_splits)
  from convert_declarations_fold [OF this assms(2,3)]
  show "declared_copies converted = concat (map (requested_copies live skip) ds)"
    "map (\<lambda>(u, entry). (u, span_block_ids entry)) converted = map (\<lambda>(u, entry). (u, span_block_ids entry)) ds"
    by (simp_all add: declared_copies_def)
qed

section \<open>Emission\<close>

text \<open>
  The byte copies of schedule entries: physical offsets and block ids on both sides. The
  entries of a plan have no repeats.
\<close>

definition entry_copies :: "RaidenId \<Rightarrow> ScheduleEntry \<Rightarrow> copy list" where
  "entry_copies u e = map (\<lambda>k. ((u, entry_src_block e, entry_src_offset e + k),
     (entry_dst_block e, entry_dst_offset e + k))) [0..entry_size e - 1]"

definition group_copies :: "int \<Rightarrow> (RaidenId, ScheduleEntry list) amap \<Rightarrow> copy list" where
  "group_copies g m = concat (map (\<lambda>(u, es). concat (map (entry_copies u) (filter (\<lambda>e. entry_pool_group e = g) es))) m)"

text \<open>Where a declared copy lands: the address maps of both sides and the block id of the index.\<close>

definition place :: "PoolLiveSegment list \<Rightarrow> PoolLiveSegment list \<Rightarrow> int list \<Rightarrow> copy \<Rightarrow> copy" where
  "place ss ds ids c = (case c of ((u, b, s), (j, d)) \<Rightarrow>
     ((u, b, the (phys_of ss s)), (ids ! nat j, the (phys_of ds d))))"

definition placeable :: "PoolLiveSegment list \<Rightarrow> PoolLiveSegment list \<Rightarrow> int list \<Rightarrow> copy \<Rightarrow> bool" where
  "placeable ss ds ids c = (case c of ((u, b, s), (j, d)) \<Rightarrow>
     phys_of ss s \<noteq> None \<and> phys_of ds d \<noteq> None \<and> 0 \<le> j \<and> j < int (length ids))"

lemma push_entry_copies:
  "mset (group_copies g (push_entry u m e)) =
   mset (group_copies g m) + (if entry_pool_group e = g then mset (entry_copies u e) else {#})"
proof -
  have "mset (group_copies g (put u (es @ [e]) m)) =
      mset (group_copies g m) + (if entry_pool_group e = g then mset (entry_copies u e) else {#})"
    if "es = (case map_of m u of None \<Rightarrow> [] | Some es \<Rightarrow> es)" for es
    using that
  proof (induction m)
    case (Cons p m)
    obtain u' es' where p: "p = (u', es')" by (cases p)
    show ?case using Cons by (cases "u' = u") (auto simp: p group_copies_def)
  qed (simp add: group_copies_def)
  then show ?thesis by (simp add: push_entry_def)
qed

lemma push_entries_copies:
  assumes "\<forall>e\<in>set es. entry_pool_group e = g'"
  shows "mset (group_copies g (foldl (push_entry u) m es)) =
    mset (group_copies g m) + (if g' = g then mset (concat (map (entry_copies u) es)) else {#})"
  using assms by (induction es arbitrary: m) (simp_all add: push_entry_copies)

lemma schedule_entry_copies:
  "entry_copies u (schedule_entry peer gi sb db chunk) = map (\<lambda>(a, b). ((u, sb, a), (db, b))) (chunk_pairs chunk)"
  by (simp add: entry_copies_def schedule_entry_def chunk_pairs_def)

lemma schedule_entries_copies:
  "concat (map (entry_copies u) (map (schedule_entry peer gi sb db) chunks)) =
   map (\<lambda>(a, b). ((u, sb, a), (db, b))) (copied chunks)"
  by (induction chunks) (simp_all add: copied_def schedule_entry_copies)

lemma translate_copied:
  assumes "segments_ok st ss" "segments_ok st' ds" "TranslateLiveCopy ss ds so do n = Inr cs"
  shows "0 < n" "copied cs = map (\<lambda>i. (the (phys_of ss (so + i)), the (phys_of ds (do + i)))) [0..n - 1]"
    "\<forall>i\<in>{0..<n}. phys_of ss (so + i) \<noteq> None \<and> phys_of ds (do + i) \<noteq> None"
proof -
  have l: "translate_loop ss ds [] so do n = Inr cs" and n: "0 < n"
    using assms(3) by (auto simp: TranslateLiveCopy_def split: if_splits)
  have ok: "tiled_from 0 ss" "sizes_pos ss" "tiled_from 0 ds" "sizes_pos ds"
    using assms(1,2) by (auto simp: segments_ok_def)
  have w: "map (\<lambda>(a, b). (Some a, Some b)) (copied cs) = wanted ss ds so do n"
    using translate_loop_sound [OF ok l] n by auto
  show "0 < n" by (rule n)
  have "copied cs = map (\<lambda>(a, b). (the a, the b)) (map (\<lambda>(a, b). (Some a, Some b)) (copied cs))"
    by (induction "copied cs") (auto simp: comp_def case_prod_beta)
  also have "\<dots> = map (\<lambda>i. (the (phys_of ss (so + i)), the (phys_of ds (do + i)))) [0..n - 1]"
    unfolding w by (simp add: wanted_def)
  finally show "copied cs = map (\<lambda>i. (the (phys_of ss (so + i)), the (phys_of ds (do + i)))) [0..n - 1]" .
  have "phys_of ss (so + i) \<noteq> None \<and> phys_of ds (do + i) \<noteq> None" if "i \<in> set [0..n - 1]" for i
  proof -
    have "(phys_of ss (so + i), phys_of ds (do + i)) \<in> set (wanted ss ds so do n)" using that by (auto simp: wanted_def)
    then show ?thesis unfolding w [symmetric] by auto
  qed
  then show "\<forall>i\<in>{0..<n}. phys_of ss (so + i) \<noteq> None \<and> phys_of ds (do + i) \<noteq> None" by simp
qed

definition repeat_copies :: "RaidenId \<Rightarrow> int \<Rightarrow> PoolByteSpan \<Rightarrow> int \<Rightarrow> copy list" where
  "repeat_copies u b sp i = map (\<lambda>k. ((u, b, src_offset_bytes sp + i * src_stride_bytes sp + k),
     (dst_block_index sp, dst_offset_bytes sp + i * dst_stride_bytes sp + k))) [0..size_bytes sp - 1]"

lemma span_copies_repeats:
  "span_copies u ids sp = concat (map (repeat_copies u (ids ! nat (src_block_ordinal sp)) sp) [0..span_count sp - 1])"
  unfolding span_copies_def repeat_copies_def by (rule refl)

definition pre_ok :: "TagPrecheck \<Rightarrow> bool" where
  "pre_ok pre \<longleftrightarrow> (\<exists>st. segments_ok st (src_segments pre)) \<and> (\<exists>st. segments_ok st (dst_segments pre))"

abbreviation placed :: "TagPrecheck \<Rightarrow> int list \<Rightarrow> copy list \<Rightarrow> copy list" where
  "placed pre ids \<equiv> map (place (src_segments pre) (dst_segments pre) ids)"

lemma emit_repeat_Inr:
  assumes "pre_ok pre" "emit_repeat pre peer gi u sb db sp acc i = Inr acc'" "vector_at ids (dst_block_index sp) = Inr db"
  shows "0 < size_bytes sp" "\<forall>c\<in>set (repeat_copies u sb sp i). placeable (src_segments pre) (dst_segments pre) ids c"
    "mset (group_copies g (schedules acc')) = mset (group_copies g (schedules acc)) +
      (if int32 (int gi) = g then mset (placed pre ids (repeat_copies u sb sp i)) else {#})"
proof -
  let ?so = "src_offset_bytes sp + i * src_stride_bytes sp" and ?do = "dst_offset_bytes sp + i * dst_stride_bytes sp"
  obtain st st' where ok: "segments_ok st (src_segments pre)" "segments_ok st' (dst_segments pre)"
    using assms(1) by (auto simp: pre_ok_def)
  obtain cs where t: "TranslateLiveCopy (src_segments pre) (dst_segments pre) ?so ?do (size_bytes sp) = Inr cs"
    and sched: "schedules acc' = foldl (push_entry u) (schedules acc) (map (schedule_entry peer gi sb db) cs)"
    using assms(2) by (auto simp: emit_repeat_def Let_def status_simps split: if_splits)
  note c = translate_copied [OF ok t]
  have ix: "0 \<le> dst_block_index sp" "dst_block_index sp < int (length ids)" "db = ids ! nat (dst_block_index sp)"
    using assms(3) by (auto simp: vector_at_def split: if_splits)
  show "0 < size_bytes sp" by (rule c(1))
  show "\<forall>c\<in>set (repeat_copies u sb sp i). placeable (src_segments pre) (dst_segments pre) ids c"
    using c(3) ix by (auto simp: repeat_copies_def placeable_def)
  have "map (\<lambda>(a, b). ((u, sb, a), (db, b))) (copied cs) = placed pre ids (repeat_copies u sb sp i)"
    by (simp add: c(2) repeat_copies_def place_def ix(3))
  then show "mset (group_copies g (schedules acc')) = mset (group_copies g (schedules acc)) +
      (if int32 (int gi) = g then mset (placed pre ids (repeat_copies u sb sp i)) else {#})"
    unfolding sched
    by (subst push_entries_copies [of _ "int32 (int gi)"])
      (simp_all add: schedule_entries_copies schedule_entry_def del: map_map)
qed

lemma emit_repeats_Inr:
  assumes "pre_ok pre" "foldM (emit_repeat pre peer gi u sb db sp) acc is = Inr acc'"
    "vector_at ids (dst_block_index sp) = Inr db"
  shows "(is \<noteq> [] \<longrightarrow> 0 < size_bytes sp) \<and>
    (\<forall>c\<in>set (concat (map (repeat_copies u sb sp) is)). placeable (src_segments pre) (dst_segments pre) ids c) \<and>
    mset (group_copies g (schedules acc')) = mset (group_copies g (schedules acc)) +
      (if int32 (int gi) = g then mset (placed pre ids (concat (map (repeat_copies u sb sp) is))) else {#})"
  using assms(2)
proof (induction "is" arbitrary: acc)
  case (Cons i "is")
  from Cons.prems obtain a where a: "emit_repeat pre peer gi u sb db sp acc i = Inr a"
      "foldM (emit_repeat pre peer gi u sb db sp) a is = Inr acc'"
    by (auto simp: and_then_Inr_iff)
  note e = emit_repeat_Inr [OF assms(1) a(1) assms(3)]
  from Cons.IH [OF a(2)] e(1,2) e(3) [of g] show ?case by auto
qed auto

text \<open>The copies of an ordered span.\<close>

definition ordered_copies :: "ordered_span \<Rightarrow> copy list" where
  "ordered_copies os = (case os of (sp, u, entry) \<Rightarrow> span_copies u (span_block_ids entry) sp)"

lemma emit_span_Inr:
  assumes "pre_ok pre" "emit_span pre peer gi ids acc os = Inr acc'"
  shows "span_count (fst os) > 0 \<longrightarrow> 0 < size_bytes (fst os)"
    "\<forall>c\<in>set (ordered_copies os). placeable (src_segments pre) (dst_segments pre) ids c \<and>
       fst (snd (fst c)) \<in> set (span_block_ids (snd (snd os)))"
    "mset (group_copies g (schedules acc')) = mset (group_copies g (schedules acc)) +
      (if int32 (int gi) = g then mset (placed pre ids (ordered_copies os)) else {#})"
proof -
  obtain sp u entry where os: "os = (sp, u, entry)" by (cases os)
  obtain sb db a where v: "vector_at (span_block_ids entry) (src_block_ordinal sp) = Inr sb"
      "vector_at ids (dst_block_index sp) = Inr db"
    and f: "foldM (emit_repeat pre peer gi u sb db sp) acc [0..span_count sp - 1] = Inr a"
    and s: "schedules acc' = schedules a"
    using assms(2) by (auto simp: emit_span_def os and_then_Inr_iff)
  have sb: "sb = span_block_ids entry ! nat (src_block_ordinal sp)" "sb \<in> set (span_block_ids entry)"
    using v(1) by (auto simp: vector_at_def split: if_splits)
  note e = emit_repeats_Inr [OF assms(1) f v(2)]
  have oc: "ordered_copies os = concat (map (repeat_copies u sb sp) [0..span_count sp - 1])"
    by (simp add: ordered_copies_def os span_copies_repeats sb(1))
  show "span_count (fst os) > 0 \<longrightarrow> 0 < size_bytes (fst os)" using e by (auto simp: os)
  have "fst (snd (fst c)) = sb" if "c \<in> set (ordered_copies os)" for c
    using that by (auto simp: oc repeat_copies_def)
  then show "\<forall>c\<in>set (ordered_copies os). placeable (src_segments pre) (dst_segments pre) ids c \<and>
       fst (snd (fst c)) \<in> set (span_block_ids (snd (snd os)))"
    using e sb(2) unfolding oc by (auto simp: os)
  show "mset (group_copies g (schedules acc')) = mset (group_copies g (schedules acc)) +
      (if int32 (int gi) = g then mset (placed pre ids (ordered_copies os)) else {#})"
    using e unfolding oc s by blast
qed

lemma emit_spans_Inr:
  assumes "pre_ok pre" "foldM (emit_span pre peer gi ids) acc oss = Inr acc'"
  shows "(\<forall>os\<in>set oss. span_count (fst os) > 0 \<longrightarrow> 0 < size_bytes (fst os)) \<and>
    (\<forall>os\<in>set oss. \<forall>c\<in>set (ordered_copies os). placeable (src_segments pre) (dst_segments pre) ids c \<and>
       fst (snd (fst c)) \<in> set (span_block_ids (snd (snd os)))) \<and>
    mset (group_copies g (schedules acc')) = mset (group_copies g (schedules acc)) +
      (if int32 (int gi) = g then mset (placed pre ids (concat (map ordered_copies oss))) else {#})"
  using assms(2)
proof (induction oss arbitrary: acc)
  case (Cons os oss)
  from Cons.prems obtain a where a: "emit_span pre peer gi ids acc os = Inr a"
      "foldM (emit_span pre peer gi ids) a oss = Inr acc'" by (auto simp: and_then_Inr_iff)
  note e = emit_span_Inr [OF assms(1) a(1)]
  from Cons.IH [OF a(2)] e(1,2) e(3) [of g] show ?case by auto
qed simp

lemma order_spans_set: "set (order_spans ds) = {(sp, u, entry). (u, entry) \<in> set ds \<and> sp \<in> set (spans entry)}"
  by (force simp: order_spans_def)

lemma order_spans_copies: "mset (concat (map ordered_copies (order_spans ds))) = mset (declared_copies ds)"
proof -
  let ?xs = "concat (map (\<lambda>(u, entry). map (\<lambda>sp. (sp, u, entry)) (spans entry)) ds)"
  have "mset (concat (map ordered_copies xs)) = sum_mset (image_mset (mset \<circ> ordered_copies) (mset xs))" for xs
    by (induction xs) simp_all
  then have "mset (concat (map ordered_copies (order_spans ds))) = mset (concat (map ordered_copies ?xs))"
    by (simp add: order_spans_def)
  also have "concat (map ordered_copies ?xs) = declared_copies ds"
    by (induction ds) (auto simp: declared_copies_def ordered_copies_def comp_def)
  finally show ?thesis .
qed

section \<open>The pools of a tag\<close>

lemma sum_sizes_total: "sum_sizes ss = Inr n \<Longrightarrow> n = total_size ss"
  using sum_sizes_Inr [of 0 ss n] by (simp add: sum_sizes_def)

lemma LiveSegments_of_ok: "LiveSegments_of q = Inr ss \<Longrightarrow> \<exists>st. segments_ok st ss"
  by (auto simp: LiveSegments_of_def and_then_Inr_iff dest: pool_segments.expand_ok)

definition pool_seen :: "RegisterWorkUnitRequest \<Rightarrow> RegisterWorkUnitRequest \<Rightarrow> geometry_acc \<Rightarrow> nat \<Rightarrow> bool" where
  "pool_seen ref dst acc i = (case acc of (sls, dls, sms, dms) \<Rightarrow> \<exists>ss ds.
     LiveSegments_of (pools_pb ref ! i) = Inr ss \<and> LiveSegments_of (pools_pb dst ! i) = Inr ds \<and>
     0 < total_size ss \<and> 0 < total_size ds \<and> total_size ss \<in> set sls \<and> total_size ds \<in> set dls \<and>
     ss \<in> set sms \<and> ds \<in> set dms)"

lemma precheck_pool_Inr:
  assumes "precheck_pool ref dst acc i = Inr acc'"
  shows "pool_seen ref dst acc' i" "pool_seen ref dst acc k \<Longrightarrow> pool_seen ref dst acc' k"
  using assms
  by (cases acc; auto simp: precheck_pool_def pool_seen_def and_then_Inr_iff dest!: sum_sizes_total split: if_splits)+

lemma precheck_pools_Inr:
  assumes "foldM (precheck_pool ref dst) acc is = Inr acc'"
  shows "(\<forall>i\<in>set is. pool_seen ref dst acc' i) \<and> (\<forall>k. pool_seen ref dst acc k \<longrightarrow> pool_seen ref dst acc' k)"
  using assms
proof (induction "is" arbitrary: acc)
  case (Cons i "is")
  from Cons.prems obtain a where a: "precheck_pool ref dst acc i = Inr a" "foldM (precheck_pool ref dst) a is = Inr acc'"
    by (auto simp: and_then_Inr_iff)
  from Cons.IH [OF a(2)] precheck_pool_Inr [OF a(1)] show ?case by auto
qed simp

lemma length_1_set: "length xs = Suc 0 \<Longrightarrow> set xs = {hd xs}"
  by (cases xs) auto

lemma precheck_tag_Inr:
  assumes "precheck_tag ref dst tag ids skip = Inr pre"
  shows "distinct ids" "selected pre = filter (\<lambda>i. tag_pb (pools_pb dst ! i) = tag) [0..<length (pools_pb dst)]"
    "selected pre \<noteq> []"
    "\<forall>i\<in>set (selected pre). LiveSegments_of (pools_pb ref ! i) = Inr (src_segments pre) \<and>
       LiveSegments_of (pools_pb dst ! i) = Inr (dst_segments pre)"
    "src_live pre = total_size (src_segments pre)" "dst_live pre = total_size (dst_segments pre)" "0 < dst_live pre"
    "pre_ok pre" "skip mod dst_live pre = 0"
proof -
  let ?sel = "filter (\<lambda>i. tag_pb (pools_pb dst ! i) = tag) [0..<length (pools_pb dst)]"
  obtain sls dls sms dms where f: "foldM (precheck_pool ref dst) ([], [], [], []) ?sel = Inr (sls, dls, sms, dms)"
    and l: "length sls = Suc 0" "length dls = Suc 0" "length sms = Suc 0" "length dms = Suc 0"
    and d: "distinct ids" "skip mod hd dls = 0"
    and pre: "pre = \<lparr>selected = ?sel, src_live = hd sls, dst_live = hd dls, src_segments = hd sms, dst_segments = hd dms\<rparr>"
    using assms by (auto simp: precheck_tag_def Let_def and_then_Inr_iff split: if_splits)
  show "distinct ids" "selected pre = ?sel" "skip mod dst_live pre = 0" using d by (simp_all add: pre)
  note sets = length_1_set [OF l(1)] length_1_set [OF l(2)] length_1_set [OF l(3)] length_1_set [OF l(4)]
  have seen: "LiveSegments_of (pools_pb ref ! i) = Inr (hd sms) \<and> LiveSegments_of (pools_pb dst ! i) = Inr (hd dms) \<and>
      hd sls = total_size (hd sms) \<and> hd dls = total_size (hd dms) \<and> 0 < total_size (hd dms)" if "i \<in> set ?sel" for i
    using precheck_pools_Inr [OF f] that by (auto simp: pool_seen_def sets)
  show ne: "selected pre \<noteq> []" using f l(1) by (auto simp: pre simp del: filter_False)
  then obtain i where i: "i \<in> set ?sel" by (metis \<open>selected pre = ?sel\<close> list.set_intros(1) neq_Nil_conv)
  show "\<forall>i\<in>set (selected pre). LiveSegments_of (pools_pb ref ! i) = Inr (src_segments pre) \<and>
       LiveSegments_of (pools_pb dst ! i) = Inr (dst_segments pre)"
    using seen by (auto simp: pre)
  show "src_live pre = total_size (src_segments pre)" "dst_live pre = total_size (dst_segments pre)" "0 < dst_live pre"
    using seen [OF i] by (simp_all add: pre)
  show "pre_ok pre" using seen [OF i] LiveSegments_of_ok by (auto simp: pre_ok_def pre)
qed

section \<open>One tag of the plan\<close>

definition tag_copies :: "int \<Rightarrow> int \<Rightarrow> unit_spans list \<Rightarrow> copy list" where
  "tag_copies live skip declared = concat (map (requested_copies live skip) declared)"

text \<open>The destinations of the copies are the prefixes \<open>extents\<close> of \<open>n\<close> blocks, each byte once.\<close>

definition covers :: "nat \<Rightarrow> int list \<Rightarrow> copy list \<Rightarrow> bool" where
  "covers n extents copies \<longleftrightarrow> length extents = n \<and>
     (\<forall>c\<in>set copies. 0 \<le> fst (snd c) \<and> fst (snd c) < int n) \<and>
     (\<forall>j<n. 0 < extents ! j \<and>
        mset (map (\<lambda>c. snd (snd c)) (filter (\<lambda>c. fst (snd c) = int j) copies)) = mset [0..extents ! j - 1])"

lemma covers_perm: "mset copies = mset copies' \<Longrightarrow> covers n extents copies = covers n extents copies'"
proof -
  assume m: "mset copies = mset copies'"
  have "mset (map (\<lambda>c. snd (snd c)) (filter P copies)) = mset (map (\<lambda>c. snd (snd c)) (filter P copies'))" for P
    using m by simp
  then show ?thesis using mset_eq_setD [OF m] by (simp only: covers_def)
qed

definition in_block_ranges ::
  "(RaidenId, RegisterWorkUnitRequest) amap \<Rightarrow> RegisterWorkUnitRequest \<Rightarrow> nat list \<Rightarrow> int list \<Rightarrow> copy \<Rightarrow> bool" where
  "in_block_ranges sbu dm sel ids c \<longleftrightarrow> (\<forall>i\<in>set sel.
     fst (snd (fst c)) < num_blocks_pb (pools_pb (the (map_of sbu (fst (fst c)))) ! i) \<and>
     (\<forall>b\<in>set ids. b < num_blocks_pb (pools_pb dm ! i)))"

lemma check_block_ranges_Inr:
  assumes "check_block_ranges sbu dm sel ds ids = OkStatus" "(u, entry) \<in> set ds" "i \<in> set sel"
  shows "\<forall>b\<in>set (span_block_ids entry). b < num_blocks_pb (pools_pb (the (map_of sbu u)) ! i)"
    "\<forall>b\<in>set ids. b < num_blocks_pb (pools_pb dm ! i)"
proof -
  have "check_each (\<lambda>(u, entry).
           if list_ex (\<lambda>b. b \<ge> num_blocks_pb (pools_pb (the (map_of sbu u)) ! i)) (span_block_ids entry) then
             InvalidArgumentError (''Source block id is out of range for pool '' @ dec (int i) @ '' at '' @ PythonRepr u)
           else OkStatus) ds = OkStatus \<and> \<not> list_ex (\<lambda>b. b \<ge> num_blocks_pb (pools_pb dm ! i)) ids"
    using assms(1,3) by (auto simp: check_block_ranges_def check_each_ok and_then_Inr_iff split: if_splits)
  then show "\<forall>b\<in>set (span_block_ids entry). b < num_blocks_pb (pools_pb (the (map_of sbu u)) ! i)"
    "\<forall>b\<in>set ids. b < num_blocks_pb (pools_pb dm ! i)"
    using assms(2) by (force simp: check_each_ok list_ex_iff split: if_splits)+
qed

lemma ordered_copies_unit: "c \<in> set (ordered_copies (sp, u, entry)) \<Longrightarrow> fst (fst c) = u"
  by (auto simp: ordered_copies_def span_copies_def)

lemma plan_tag_Inr:
  assumes "plan_tag request sbu dm regs par acc (gi, tag, ids, skip, pre) = Inr acc'"
    and "pre_ok pre" "0 < dst_live pre" "0 \<le> skip"
  obtains declared extents pushes where "declared_spans request regs tag = Inr declared"
    "covers (length ids) extents (tag_copies (dst_live pre) skip declared)"
    "\<forall>j<length ids. j \<noteq> length ids - 1 \<longrightarrow> extents ! j = dst_live pre"
    "\<forall>c\<in>set (tag_copies (dst_live pre) skip declared). placeable (src_segments pre) (dst_segments pre) ids c \<and>
       in_block_ranges sbu dm (selected pre) ids c"
    "\<And>g. mset (group_copies g (all_schedules acc')) = mset (group_copies g (all_schedules acc)) +
      (if int32 (int gi) = g then mset (placed pre ids (tag_copies (dst_live pre) skip declared)) else {#})"
    "pool_groups acc' = pool_groups acc @ [\<lparr>group_pool_indices = selected pre, group_dst_block_ids = ids,
       group_expected_pushes = pushes, group_extents = extents, group_order_rank = (if gi = 0 then 0 else 1)\<rparr>]"
    "union_selected acc' = union_selected acc @ selected pre" "flat_extents acc' = flat_extents acc @ extents"
proof -
  obtain declared converted clipped extents e where
    d: "declared_spans request regs tag = Inr declared" and
    c: "convert_declarations tag (dst_live pre) skip declared = Inr (converted, clipped)" and
    b: "check_block_ranges sbu dm (selected pre) converted ids = OkStatus" and
    v: "check_coverage tag (src_live pre) (dst_live pre) (length ids) converted clipped = Inr extents" and
    e: "foldM (emit_span pre (hd (shards_pb dm)) gi ids)
        \<lparr>schedules = all_schedules acc, emitted_chunks = all_chunks acc, transfer_pairs = []\<rparr>
        (order_spans converted) = Inr e" and
    acc': "acc' = \<lparr>all_schedules = schedules e,
             pool_groups = pool_groups acc @ [\<lparr>group_pool_indices = selected pre, group_dst_block_ids = ids,
               group_expected_pushes = int32 (expected_pushes par (transfer_pairs e)), group_extents = extents,
               group_order_rank = (if gi = 0 then 0 else 1)\<rparr>],
             union_selected = union_selected acc @ selected pre, flat_extents = flat_extents acc @ extents,
             all_chunks = emitted_chunks e\<rparr>"
    using assms(1) by (auto simp: plan_tag_def Let_def and_then_Inr_iff split: if_splits)
  have t: "declared_copies converted = tag_copies (dst_live pre) skip declared"
    using convert_declarations_Inr [OF c assms(3,4)] by (simp add: tag_copies_def)
  note em = emit_spans_Inr [OF assms(2) e]
  have pos: "\<forall>sp\<in>set (all_spans converted). span_count sp > 0 \<longrightarrow> size_bytes sp > 0"
    using em by (fastforce simp: order_spans_set all_spans_def)
  note cov = check_coverage_Inr [OF v pos]
  have covers: "covers (length ids) extents (declared_copies converted)"
    using cov declared_copies_index [of _ converted] by (auto simp: covers_def destinations_at) fastforce+
  have place: "placeable (src_segments pre) (dst_segments pre) ids x \<and> in_block_ranges sbu dm (selected pre) ids x"
    if "x \<in> set (declared_copies converted)" for x
  proof -
    have "x \<in> set (concat (map ordered_copies (order_spans converted)))"
      using that mset_eq_setD [OF order_spans_copies] by blast
    then obtain sp u entry where o: "(u, entry) \<in> set converted" "x \<in> set (ordered_copies (sp, u, entry))"
        "(sp, u, entry) \<in> set (order_spans converted)" by (auto simp: order_spans_set)
    then have "placeable (src_segments pre) (dst_segments pre) ids x" "fst (snd (fst x)) \<in> set (span_block_ids entry)"
      using em by fastforce+
    then show ?thesis using check_block_ranges_Inr [OF b o(1)] ordered_copies_unit [OF o(2)]
      by (auto simp: in_block_ranges_def)
  qed
  show ?thesis
  proof (rule that [OF d])
    show "mset (group_copies g (all_schedules acc')) = mset (group_copies g (all_schedules acc)) +
      (if int32 (int gi) = g then mset (placed pre ids (tag_copies (dst_live pre) skip declared)) else {#})" for g
      using em [of g] order_spans_copies [of converted] by (simp add: acc' t)
  qed (use covers cov(4) place in \<open>auto simp: acc' t\<close>)
qed

section \<open>All tags of the plan\<close>

text \<open>What the plan holds for one tag: its group, and the byte copies of its entries.\<close>

definition tag_planned ::
  "PlanRequest \<Rightarrow> (RaidenId, RegisterWorkUnitRequest) amap \<Rightarrow> RegisterWorkUnitRequest \<Rightarrow>
   (RaidenId, RequestBlockRegistration) amap \<Rightarrow> string \<times> int list \<times> int \<times> TagPrecheck \<Rightarrow> PlanPoolGroup \<Rightarrow>
   copy multiset \<Rightarrow> bool" where
  "tag_planned request sbu dm regs job grp copies = (case job of (tag, ids, skip, pre) \<Rightarrow>
     \<exists>declared. declared_spans request regs tag = Inr declared \<and>
       covers (length ids) (group_extents grp) (tag_copies (dst_live pre) skip declared) \<and>
       (\<forall>j<length ids. j \<noteq> length ids - 1 \<longrightarrow> group_extents grp ! j = dst_live pre) \<and>
       (\<forall>c\<in>set (tag_copies (dst_live pre) skip declared). placeable (src_segments pre) (dst_segments pre) ids c \<and>
          in_block_ranges sbu dm (selected pre) ids c) \<and>
       copies = mset (placed pre ids (tag_copies (dst_live pre) skip declared)) \<and>
       group_pool_indices grp = selected pre \<and> group_dst_block_ids grp = ids)"

definition job_ok :: "string \<times> int list \<times> int \<times> TagPrecheck \<Rightarrow> bool" where
  "job_ok job = (case job of (tag, ids, skip, pre) \<Rightarrow> pre_ok pre \<and> 0 < dst_live pre \<and> 0 \<le> skip)"

lemma int32_small: "int k < 2147483648 \<Longrightarrow> int32 (int k) = int k"
  by (simp add: int32_def)

lemma plan_tags_Inr:
  assumes "foldM (plan_tag request sbu dm regs par) acc (enumerate n ts) = Inr acc'" "\<forall>t\<in>set ts. job_ok t"
    and "n + length ts \<le> 2147483648" "length (pool_groups acc) = n"
    and "\<forall>k\<ge>n. group_copies (int k) (all_schedules acc) = []"
  shows "length (pool_groups acc') = n + length ts \<and>
    (\<forall>k<n. pool_groups acc' ! k = pool_groups acc ! k \<and>
       mset (group_copies (int k) (all_schedules acc')) = mset (group_copies (int k) (all_schedules acc))) \<and>
    (\<forall>k<length ts. tag_planned request sbu dm regs (ts ! k) (pool_groups acc' ! (n + k))
       (mset (group_copies (int (n + k)) (all_schedules acc'))))"
  using assms
proof (induction ts arbitrary: acc n)
  case (Cons t ts)
  obtain tag ids skip pre where t: "t = (tag, ids, skip, pre)" by (cases t)
  from Cons.prems(1) obtain a where a: "plan_tag request sbu dm regs par acc (n, tag, ids, skip, pre) = Inr a"
      "foldM (plan_tag request sbu dm regs par) a (enumerate (Suc n) ts) = Inr acc'"
    by (auto simp: t and_then_Inr_iff)
  have ok: "pre_ok pre" "0 < dst_live pre" "0 \<le> skip" using Cons.prems(2) by (auto simp: t job_ok_def)
  obtain declared extents pushes where p:
    "declared_spans request regs tag = Inr declared"
    "covers (length ids) extents (tag_copies (dst_live pre) skip declared)"
    "\<forall>j<length ids. j \<noteq> length ids - 1 \<longrightarrow> extents ! j = dst_live pre"
    "\<forall>c\<in>set (tag_copies (dst_live pre) skip declared). placeable (src_segments pre) (dst_segments pre) ids c \<and>
       in_block_ranges sbu dm (selected pre) ids c"
    "\<And>g. mset (group_copies g (all_schedules a)) = mset (group_copies g (all_schedules acc)) +
      (if int32 (int n) = g then mset (placed pre ids (tag_copies (dst_live pre) skip declared)) else {#})"
    "pool_groups a = pool_groups acc @ [\<lparr>group_pool_indices = selected pre, group_dst_block_ids = ids,
       group_expected_pushes = pushes, group_extents = extents, group_order_rank = (if n = 0 then 0 else 1)\<rparr>]"
    "union_selected a = union_selected acc @ selected pre" "flat_extents a = flat_extents acc @ extents"
    by (rule plan_tag_Inr [OF a(1) ok], rule that)
  have n: "int32 (int n) = int n" using Cons.prems(3) by (intro int32_small) simp
  have later: "\<forall>k\<ge>Suc n. group_copies (int k) (all_schedules a) = []"
    using Cons.prems(5) p(5) n by (auto simp flip: mset_zero_iff)
  have IH: "length (pool_groups acc') = Suc n + length ts \<and>
    (\<forall>k<Suc n. pool_groups acc' ! k = pool_groups a ! k \<and>
       mset (group_copies (int k) (all_schedules acc')) = mset (group_copies (int k) (all_schedules a))) \<and>
    (\<forall>k<length ts. tag_planned request sbu dm regs (ts ! k) (pool_groups acc' ! (Suc n + k))
       (mset (group_copies (int (Suc n + k)) (all_schedules acc'))))"
    by (rule Cons.IH [OF a(2)]) (use Cons.prems later p(6) in auto)
  have "group_copies (int n) (all_schedules acc) = []" using Cons.prems(5) by blast
  then have "mset (group_copies (int n) (all_schedules acc')) = mset (placed pre ids (tag_copies (dst_live pre) skip declared))"
    using IH p(5) [of "int n"] n by simp
  moreover have "pool_groups acc' ! n = \<lparr>group_pool_indices = selected pre, group_dst_block_ids = ids,
       group_expected_pushes = pushes, group_extents = extents, group_order_rank = (if n = 0 then 0 else 1)\<rparr>"
    using IH p(6) Cons.prems(4) by (simp add: nth_append)
  ultimately have first: "tag_planned request sbu dm regs t (pool_groups acc' ! n) (mset (group_copies (int n) (all_schedules acc')))"
    using p(1-4) by (simp add: tag_planned_def t)
  have "tag_planned request sbu dm regs ((t # ts) ! k) (pool_groups acc' ! (n + k))
      (mset (group_copies (int (n + k)) (all_schedules acc')))" if "k < length (t # ts)" for k
    using IH first that by (cases k) simp_all
  moreover have "pool_groups acc' ! k = pool_groups acc ! k \<and>
      mset (group_copies (int k) (all_schedules acc')) = mset (group_copies (int k) (all_schedules acc))" if "k < n" for k
    using IH p(5) [of "int k"] p(6) n that Cons.prems(4) by (simp add: nth_append)
  ultimately show ?case using IH by simp
qed simp

section \<open>The resolved request\<close>

definition tag_skip :: "PlanRequest \<Rightarrow> nat \<Rightarrow> int" where
  "tag_skip request k = (if dst_skip_bytes request = [] then 0 else dst_skip_bytes request ! k)"

lemma split_ids_length [simp]: "length (split_ids ids cs) = length cs"
  by (induction ids cs rule: split_ids.induct) simp_all

lemma split_ids_concat:
  "\<forall>c\<in>set cs. 0 < c \<Longrightarrow> int (length ids) = sum_list cs \<Longrightarrow> concat (split_ids ids cs) = ids"
proof (induction ids cs rule: split_ids.induct)
  case (2 ids c cs)
  have "0 \<le> sum_list cs" using 2(2) by (intro sum_list_nonneg) force
  then have "nat c \<le> length ids" "int (length (drop (nat c) ids)) = sum_list cs" using 2(2,3) by auto
  then show ?case using 2(1,2) by simp
qed simp

lemma add64_sum: "foldM add64 a xs = Inr b \<Longrightarrow> b = a + sum_list xs"
proof (induction xs arbitrary: a)
  case (Cons x xs)
  then have "foldM add64 (a + x) xs = Inr b" by (auto simp: and_then_Inr_iff add64_Inr)
  from Cons.IH [OF this] show ?case by simp
qed simp

lemma resolve_counts_Inr:
  assumes "resolve_counts request = Inr counts" "dst_device_block_ids request \<noteq> []"
  shows "length counts = length (transfer_pool_tags request)" "\<forall>c\<in>set counts. 0 < c"
    "sum_list counts = int (length (dst_device_block_ids request))" "distinct (transfer_pool_tags request)"
    "transfer_pool_tags request \<noteq> []"
  using assms by (auto simp: resolve_counts_def Let_def and_then_Inr_iff list_ex_iff not_le
    dest!: add64_sum split: if_splits)

lemma resolve_skips_Inr:
  assumes "resolve_skips request = Inr skips"
  shows "length skips = length (transfer_pool_tags request)"
    "k < length skips \<Longrightarrow> skips ! k = tag_skip request k \<and> 0 \<le> skips ! k"
proof -
  show l: "length skips = length (transfer_pool_tags request)"
    using assms by (auto simp: resolve_skips_def Let_def and_then_Inr_iff split: if_splits)
  show "skips ! k = tag_skip request k \<and> 0 \<le> skips ! k" if k: "k < length skips"
  proof (cases "dst_skip_bytes request = []")
    case True
    then show ?thesis using assms k by (auto simp: resolve_skips_def Let_def tag_skip_def)
  next
    case False
    then have s: "skips = dst_skip_bytes request"
      and c: "\<forall>(tag, skip)\<in>set (zip (transfer_pool_tags request) skips). \<not> skip < 0"
      using assms by (auto simp: resolve_skips_def Let_def and_then_Inr_iff check_each_ok split: if_splits)
    have "(transfer_pool_tags request ! k, skips ! k) \<in> set (zip (transfer_pool_tags request) skips)"
      using k l by (auto simp: set_zip)
    then show ?thesis using c s False by (fastforce simp: tag_skip_def)
  qed
qed

lemma precheck_tags_Inr:
  assumes "precheck_tags request ref dm tag_ids skips = Inr pres"
    and "length tag_ids = length (transfer_pool_tags request)" "length skips = length (transfer_pool_tags request)"
  shows "length pres = length (transfer_pool_tags request)"
    "k < length pres \<Longrightarrow> precheck_tag ref dm (transfer_pool_tags request ! k) (tag_ids ! k) (skips ! k) = Inr (pres ! k)"
proof -
  let ?xs = "zip (transfer_pool_tags request) (zip tag_ids skips)"
  let ?f = "\<lambda>(tag, ids, skip). precheck_tag ref dm tag ids skip"
  have "(\<lambda>acc (tag, ids, skip). and_then (precheck_tag ref dm tag ids skip) (\<lambda>p. Inr (acc @ [p]))) =
      (\<lambda>acc x. and_then (?f x) (\<lambda>p. Inr (acc @ [p])))" by (auto simp: fun_eq_iff)
  then have "list_all2 (\<lambda>x p. ?f x = Inr p) ?xs pres"
    using extents_Inr [of ?f "[]" ?xs pres] assms(1) by (simp add: precheck_tags_def)
  then show "length pres = length (transfer_pool_tags request)"
    "k < length pres \<Longrightarrow> precheck_tag ref dm (transfer_pool_tags request ! k) (tag_ids ! k) (skips ! k) = Inr (pres ! k)"
    using assms(2,3) by (auto simp: list_all2_conv_all_nth)
qed

text \<open>What a successful run went through, and the same tag by tag.\<close>

lemma plan_parts:
  assumes "BuildPoolReshardPlan registry now request owner = (Inr plan, registry')"
    and "resolve_metadata request = Inr (sbu, dm)"
  obtains rows ranks par ts acc ids pres where
    "LookupAndClaim registry now (req_id request) (uuid request) (src_units request) owner = (Inr rows, registry')"
    "check_arguments request = OkStatus" "resolve_parallelism request sbu = Inr (ranks, par)"
    "foldM (plan_tag request sbu dm rows par)
      \<lparr>all_schedules = [], pool_groups = [], union_selected = [], flat_extents = [], all_chunks = 0\<rparr> (enumerate 0 ts) = Inr acc"
    "assemble_plan request sbu dm ranks par acc = Inr plan"
    "length ts = length (transfer_pool_tags request)" "\<forall>t\<in>set ts. job_ok t"
    "\<And>k. k < length (transfer_pool_tags request) \<Longrightarrow> ts ! k = (transfer_pool_tags request ! k, ids ! k, tag_skip request k, pres ! k) \<and>
       precheck_tag (the (map_of sbu (hd (src_units request)))) dm (transfer_pool_tags request ! k) (ids ! k)
         (tag_skip request k) = Inr (pres ! k) \<and> 0 \<le> tag_skip request k"
    "length ids = length (transfer_pool_tags request)" "concat ids = dst_device_block_ids request"
proof -
  let ?tags = "transfer_pool_tags request" and ?ref = "the (map_of sbu (hd (src_units request)))"
  obtain ranks par jobs rows where r: "resolve_request request = Inr (sbu, dm, ranks, par, jobs)"
    and l: "LookupAndClaim registry now (req_id request) (uuid request) (src_units request) owner = (Inr rows, registry')"
    and p: "plan_claimed request sbu dm ranks par jobs rows = Inr plan"
    using assms(1,2) unfolding BuildPoolReshardPlan_def
    by (auto simp: resolve_request_def and_then_Inr_iff Let_def split: sum.splits prod.splits)
  obtain counts skips pres where c: "resolve_counts request = Inr counts" "resolve_skips request = Inr skips"
    and chk: "check_arguments request = OkStatus" and par: "resolve_parallelism request sbu = Inr (ranks, par)"
    and pr: "precheck_tags request ?ref dm (split_ids (dst_device_block_ids request) counts) skips = Inr pres"
    and jobs: "jobs = enumerate 0 (zip ?tags (zip (split_ids (dst_device_block_ids request) counts) (zip skips pres)))"
    using r assms(2) by (auto simp: resolve_request_def and_then_Inr_iff Let_def)
  have ne: "dst_device_block_ids request \<noteq> []" using chk by (auto simp: check_arguments_def split: if_splits)
  define ids where "ids = split_ids (dst_device_block_ids request) counts"
  define ts where "ts = zip ?tags (zip ids (zip skips pres))"
  note cs = resolve_counts_Inr [OF c(1) ne] and sk = resolve_skips_Inr [OF c(2)]
  have len: "length ids = length ?tags" "length skips = length ?tags" using cs(1) sk(1) by (simp_all add: ids_def)
  note pre = precheck_tags_Inr [OF pr [folded ids_def] len]
  have ts: "length ts = length ?tags" "\<And>k. k < length ?tags \<Longrightarrow> ts ! k = (?tags ! k, ids ! k, tag_skip request k, pres ! k)"
    using len pre(1) sk(2) by (simp_all add: ts_def)
  have pk: "precheck_tag ?ref dm (?tags ! k) (ids ! k) (tag_skip request k) = Inr (pres ! k) \<and> 0 \<le> tag_skip request k"
    if "k < length ?tags" for k using pre(1) pre(2) [of k] sk(2) [of k] len that by simp
  have ok: "\<forall>t\<in>set ts. job_ok t"
    using precheck_tag_Inr [OF conjunct1 [OF pk]] pk ts by (auto simp: in_set_conv_nth job_ok_def)
  obtain acc where "foldM (plan_tag request sbu dm rows par)
      \<lparr>all_schedules = [], pool_groups = [], union_selected = [], flat_extents = [], all_chunks = 0\<rparr> (enumerate 0 ts) = Inr acc"
    "assemble_plan request sbu dm ranks par acc = Inr plan"
    using p by (auto simp: plan_claimed_def jobs ts_def ids_def and_then_Inr_iff)
  moreover have "concat ids = dst_device_block_ids request" using split_ids_concat cs(2,3) by (simp add: ids_def)
  ultimately show ?thesis using that [OF l chk par _ _ ts(1) ok _ len(1)] ts(2) pk by blast
qed

lemma plan_group:
  assumes "BuildPoolReshardPlan registry now request owner = (Inr plan, registry')"
    and "resolve_metadata request = Inr (sbu, dm)" "length (transfer_pool_tags request) \<le> 2147483648"
  obtains rows pres where
    "LookupAndClaim registry now (req_id request) (uuid request) (src_units request) owner = (Inr rows, registry')"
    "length (plan_pool_groups plan) = length (transfer_pool_tags request)"
    "concat (map group_dst_block_ids (plan_pool_groups plan)) = dst_device_block_ids request"
    "\<And>k. k < length (transfer_pool_tags request) \<Longrightarrow> precheck_tag (the (map_of sbu (hd (src_units request)))) dm
       (transfer_pool_tags request ! k) (group_dst_block_ids (plan_pool_groups plan ! k)) (tag_skip request k) = Inr (pres ! k) \<and>
       0 \<le> tag_skip request k \<and>
       tag_planned request sbu dm rows (transfer_pool_tags request ! k, group_dst_block_ids (plan_pool_groups plan ! k),
         tag_skip request k, pres ! k) (plan_pool_groups plan ! k) (mset (group_copies (int k) (plan_schedules plan)))"
proof -
  let ?tags = "transfer_pool_tags request" and ?ref = "the (map_of sbu (hd (src_units request)))"
  obtain rows ranks par ts acc ids pres where
    l: "LookupAndClaim registry now (req_id request) (uuid request) (src_units request) owner = (Inr rows, registry')"
    and acc: "foldM (plan_tag request sbu dm rows par)
      \<lparr>all_schedules = [], pool_groups = [], union_selected = [], flat_extents = [], all_chunks = 0\<rparr> (enumerate 0 ts) = Inr acc"
    and p: "assemble_plan request sbu dm ranks par acc = Inr plan"
    and ts: "length ts = length ?tags" "\<forall>t\<in>set ts. job_ok t"
    and k: "\<And>k. k < length ?tags \<Longrightarrow> ts ! k = (?tags ! k, ids ! k, tag_skip request k, pres ! k) \<and>
       precheck_tag ?ref dm (?tags ! k) (ids ! k) (tag_skip request k) = Inr (pres ! k) \<and> 0 \<le> tag_skip request k"
    and ids: "length ids = length ?tags" "concat ids = dst_device_block_ids request"
    by (rule plan_parts [OF assms(1,2)], rule that)
  have plan: "plan_pool_groups plan = pool_groups acc" "plan_schedules plan = all_schedules acc"
    using p by (auto simp: assemble_plan_def Let_def split: if_splits)
  have t: "length (pool_groups acc) = length ?tags \<and> (\<forall>k<length ?tags. tag_planned request sbu dm rows (ts ! k) (pool_groups acc ! k)
      (mset (group_copies (int k) (all_schedules acc))))"
    using plan_tags_Inr [OF acc ts(2)] assms(3) ts(1) by (simp add: group_copies_def)
  then have g: "group_dst_block_ids (pool_groups acc ! i) = ids ! i" if "i < length ?tags" for i
    using that k by (auto simp: tag_planned_def)
  then have "map group_dst_block_ids (pool_groups acc) = ids" using t ids(1) by (intro nth_equalityI) auto
  then show ?thesis using that [OF l, of pres] t g k ids(2) by (simp add: plan)
qed

section \<open>Destinations\<close>

lemma count_destinations:
  "count (mset (map snd cs)) (j, b) = count (mset (map (\<lambda>c. snd (snd c)) (filter (\<lambda>c. fst (snd c) = j) cs))) b"
  for cs :: "copy list"
  by (induction cs) auto

lemma covers_destinations:
  assumes "covers n extents cs"
  shows "distinct (map snd cs)" "set (map snd cs) = {(int j, b) | j b. j < n \<and> 0 \<le> b \<and> b < extents ! j}"
proof -
  have dest: "count (mset (map snd cs)) (j, b) = (if 0 \<le> j \<and> j < int n \<and> 0 \<le> b \<and> b < extents ! nat j then 1 else 0)" for j b
  proof (cases "0 \<le> j \<and> j < int n")
    case True
    then have "mset (map (\<lambda>c. snd (snd c)) (filter (\<lambda>c. fst (snd c) = j) cs)) = mset [0..extents ! nat j - 1]"
      using assms unfolding covers_def by (metis nat_less_iff nat_0_le)
    moreover have "count (mset [0..extents ! nat j - 1]) b = (if b \<in> set [0..extents ! nat j - 1] then 1 else 0)"
      using distinct_upto distinct_count_atmost_1 by metis
    ultimately show ?thesis using True unfolding count_destinations by simp
  next
    case False
    then have f: "filter (\<lambda>c. fst (snd c) = j) cs = []" using assms by (auto simp: covers_def filter_empty_conv)
    show ?thesis using False unfolding count_destinations f by auto
  qed
  define xs where "xs = map snd cs"
  have bit: "count (mset xs) x = 0 \<or> count (mset xs) x = 1" for x
    using dest [of "fst x" "snd x"] unfolding xs_def prod.collapse by presburger
  have "(x \<in> set xs) = (count (mset xs) x \<noteq> 0)" for x by (metis count_eq_zero_iff set_mset_mset)
  then have mem: "x \<in> set xs \<longleftrightarrow> count (mset xs) x = 1" for x using bit by (metis zero_neq_one)
  show "distinct (map snd cs)" unfolding distinct_count_atmost_1 xs_def [symmetric] using mem bit by metis
  show "set (map snd cs) = {(int j, b) | j b. j < n \<and> 0 \<le> b \<and> b < extents ! j}"
  proof (rule set_eqI)
    show "x \<in> set (map snd cs) \<longleftrightarrow> x \<in> {(int j, b) | j b. j < n \<and> 0 \<le> b \<and> b < extents ! j}" for x
      unfolding xs_def [symmetric] mem unfolding xs_def using dest [of "fst x" "snd x"]
      by (cases x) (auto split: if_splits intro!: exI [of _ "nat (fst x)"])
  qed
qed

lemma placed_destinations:
  assumes "covers (length ids) extents cs" "\<forall>c\<in>set cs. placeable ss ds ids c" "distinct ids" "segments_ok st ds"
  shows "distinct (map snd (map (place ss ds ids) cs))"
    "set (map snd (map (place ss ds ids) cs)) = {(ids ! j, the (phys_of ds b)) | j b. j < length ids \<and> 0 \<le> b \<and> b < extents ! j}"
    "j < length ids \<Longrightarrow> extents ! j \<le> total_size ds"
proof -
  let ?h = "\<lambda>(j, d). (ids ! nat j, the (phys_of ds d))"
  have h: "map snd (map (place ss ds ids) cs) = map ?h (map snd cs)" by (auto simp: place_def split: prod.splits)
  have live: "phys_of ds d \<noteq> None \<and> 0 \<le> j \<and> j < int (length ids)" if "(j, d) \<in> set (map snd cs)" for j d
    using assms(2) that by (auto simp: placeable_def)
  have "inj_on ?h (set (map snd cs))"
  proof (rule inj_onI, clarify)
    fix j d j' d'
    assume m: "(j, d) \<in> set (map snd cs)" "(j', d') \<in> set (map snd cs)"
      and eq: "ids ! nat j = ids ! nat j'" "the (phys_of ds d) = the (phys_of ds d')"
    have "nat j < length ids" "nat j' < length ids" using live [OF m(1)] live [OF m(2)] by linarith+
    then have "nat j = nat j'" using eq(1) nth_eq_iff_index_eq [OF assms(3)] by blast
    moreover obtain x y where "phys_of ds d = Some x" "phys_of ds d' = Some y" using live [OF m(1)] live [OF m(2)] by blast
    then have "d = d'" using phys_of_inj [OF assms(4)] eq(2) by (metis option.sel)
    ultimately show "j = j' \<and> d = d'" using live [OF m(1)] live [OF m(2)] by linarith
  qed
  then show "distinct (map snd (map (place ss ds ids) cs))"
    unfolding h distinct_map [of ?h] using covers_destinations(1) [OF assms(1)] by simp
  show "set (map snd (map (place ss ds ids) cs)) = {(ids ! j, the (phys_of ds b)) | j b. j < length ids \<and> 0 \<le> b \<and> b < extents ! j}"
    unfolding h set_map [of ?h] covers_destinations(2) [OF assms(1)] by force
  show "extents ! j \<le> total_size ds" if "j < length ids"
  proof -
    have "0 < extents ! j" using assms(1) that by (auto simp: covers_def)
    then have "(int j, extents ! j - 1) \<in> set (map snd cs)"
      unfolding covers_destinations(2) [OF assms(1)] using that by auto
    from live [OF this] show ?thesis using phys_of_live(5) [OF assms(4), of "extents ! j - 1"] by fastforce
  qed
qed

section \<open>What a plan promises\<close>

text \<open>
  Property C1 (every destination byte is written exactly once). In a plan that the planner
  returns, the destination block ids of the groups, in order, are the requested ids, and for every
  transfer tag the schedules of all sources together write each physical byte of the covered
  prefix of each destination block once and write nothing else. Every block but the last is
  covered entirely, the last one up to its extent, and no extent exceeds the live bytes of the
  block. The bytes are those of the live segments, which are the same for every selected pool.
\<close>
theorem reshard_plan_writes_once:
  assumes "BuildPoolReshardPlan registry now request owner = (Inr plan, registry')"
    and "resolve_metadata request = Inr (sbu, dm)"
    and "length (transfer_pool_tags request) \<le> 2147483648" "k < length (transfer_pool_tags request)"
    and "grp = plan_pool_groups plan ! k" "ids = group_dst_block_ids grp"
    and "copies = group_copies (int k) (plan_schedules plan)"
  shows "concat (map group_dst_block_ids (plan_pool_groups plan)) = dst_device_block_ids request \<and>
    group_pool_indices grp = filter (\<lambda>i. tag_pb (pools_pb dm ! i) = transfer_pool_tags request ! k) [0..<length (pools_pb dm)] \<and>
    length (group_extents grp) = length ids \<and>
    (\<exists>ds. (\<forall>i\<in>set (group_pool_indices grp). LiveSegments_of (pools_pb dm ! i) = Inr ds) \<and>
       (\<forall>j<length ids. 0 < group_extents grp ! j \<and> group_extents grp ! j \<le> total_size ds \<and>
          (j \<noteq> length ids - 1 \<longrightarrow> group_extents grp ! j = total_size ds)) \<and>
       distinct (map snd copies) \<and>
       set (map snd copies) = {(ids ! j, the (phys_of ds b)) | j b. j < length ids \<and> 0 \<le> b \<and> b < group_extents grp ! j})"
proof -
  obtain rows pres where c: "concat (map group_dst_block_ids (plan_pool_groups plan)) = dst_device_block_ids request"
    and g: "precheck_tag (the (map_of sbu (hd (src_units request)))) dm (transfer_pool_tags request ! k) ids (tag_skip request k) = Inr (pres ! k) \<and>
       0 \<le> tag_skip request k \<and>
       tag_planned request sbu dm rows (transfer_pool_tags request ! k, ids, tag_skip request k, pres ! k) grp (mset copies)"
    using plan_group [OF assms(1-3)] assms(4-7) by metis
  define pre where "pre = pres ! k"
  note p = precheck_tag_Inr [OF conjunct1 [OF g], folded pre_def]
  obtain declared where d: "covers (length ids) (group_extents grp) (tag_copies (dst_live pre) (tag_skip request k) declared)"
      "\<forall>j<length ids. j \<noteq> length ids - 1 \<longrightarrow> group_extents grp ! j = dst_live pre"
      "\<forall>c\<in>set (tag_copies (dst_live pre) (tag_skip request k) declared). placeable (src_segments pre) (dst_segments pre) ids c"
    and m: "mset copies = mset (placed pre ids (tag_copies (dst_live pre) (tag_skip request k) declared))"
    and i: "group_pool_indices grp = selected pre" using g by (auto simp: tag_planned_def pre_def)
  obtain st where st: "segments_ok st (dst_segments pre)" using p(8) by (auto simp: pre_ok_def)
  note w = placed_destinations [OF d(1,3) p(1) st]
  have "mset (map snd copies) = mset (map snd (placed pre ids (tag_copies (dst_live pre) (tag_skip request k) declared)))"
    using m by (metis mset_map)
  then have "distinct (map snd copies)" "set (map snd copies) = set (map snd (placed pre ids (tag_copies (dst_live pre) (tag_skip request k) declared)))"
    using w(1) mset_eq_imp_distinct_iff mset_eq_setD by blast+
  then show ?thesis using c i p(2,4,6) d(1,2) w(2,3)
    by (intro conjI exI [of _ "dst_segments pre"]) (auto simp: covers_def)
qed

text \<open>
  Property C2 (a plan performs the declared copies). For every transfer tag the byte copies of
  the schedules are, as a multiset, the byte copies that the claimed registrations declare for
  the tag, mapped through the live segments of the source and destination blocks and through the
  list of destination block ids. Page-agnostic declarations count from the clip of the tag on.
  Every source byte is live in its block and every block id is inside every selected pool.
\<close>
theorem reshard_plan_copies_declared:
  assumes "BuildPoolReshardPlan registry now request owner = (Inr plan, registry')"
    and "resolve_metadata request = Inr (sbu, dm)"
    and "length (transfer_pool_tags request) \<le> 2147483648" "k < length (transfer_pool_tags request)"
    and "grp = plan_pool_groups plan ! k" "ids = group_dst_block_ids grp"
  shows "\<exists>rows declared ss ds.
    fst (LookupAndClaim registry now (req_id request) (uuid request) (src_units request) owner) = Inr rows \<and>
    declared_spans request rows (transfer_pool_tags request ! k) = Inr declared \<and>
    (\<forall>i\<in>set (group_pool_indices grp).
       LiveSegments_of (pools_pb (the (map_of sbu (hd (src_units request)))) ! i) = Inr ss \<and>
       LiveSegments_of (pools_pb dm ! i) = Inr ds) \<and>
    mset (group_copies (int k) (plan_schedules plan)) =
      mset (map (place ss ds ids) (tag_copies (total_size ds) (tag_skip request k) declared)) \<and>
    (\<forall>c\<in>set (tag_copies (total_size ds) (tag_skip request k) declared).
       placeable ss ds ids c \<and> in_block_ranges sbu dm (group_pool_indices grp) ids c)"
proof -
  obtain rows pres where l: "LookupAndClaim registry now (req_id request) (uuid request) (src_units request) owner = (Inr rows, registry')"
    and g: "precheck_tag (the (map_of sbu (hd (src_units request)))) dm (transfer_pool_tags request ! k) ids (tag_skip request k) = Inr (pres ! k) \<and>
       0 \<le> tag_skip request k \<and>
       tag_planned request sbu dm rows (transfer_pool_tags request ! k, ids, tag_skip request k, pres ! k) grp
         (mset (group_copies (int k) (plan_schedules plan)))"
    using plan_group [OF assms(1-3)] assms(4-6) by metis
  define pre where "pre = pres ! k"
  note p = precheck_tag_Inr [OF conjunct1 [OF g], folded pre_def]
  from g obtain declared where d: "declared_spans request rows (transfer_pool_tags request ! k) = Inr declared"
      "\<forall>c\<in>set (tag_copies (dst_live pre) (tag_skip request k) declared). placeable (src_segments pre) (dst_segments pre) ids c \<and>
         in_block_ranges sbu dm (selected pre) ids c"
      "mset (group_copies (int k) (plan_schedules plan)) = mset (placed pre ids (tag_copies (dst_live pre) (tag_skip request k) declared))"
      "group_pool_indices grp = selected pre" by (auto simp: tag_planned_def pre_def)
  show ?thesis using l d p(4) unfolding p(6)
    by (intro exI [of _ rows] exI [of _ declared] exI [of _ "src_segments pre"] exI [of _ "dst_segments pre"]) simp
qed

text \<open>
  Property C10 (page-agnostic declarations). Converting the declarations of a tag to destination
  pages keeps the source unit and block list of each declaration and denotes exactly the byte
  copies that were declared: byte \<open>g\<close> of the global destination space goes to offset
  \<open>(g - skip) mod live\<close> of page \<open>(g - skip) div live\<close>, in the declared order, and bytes below the
  clip are dropped. Afterwards no declaration is page-agnostic.
\<close>
theorem conversion_keeps_copies:
  assumes "convert_declarations tag live skip declared = Inr (converted, clipped)" "0 < live" "0 \<le> skip"
  shows "declared_copies converted = tag_copies live skip declared \<and>
    map (\<lambda>(u, entry). (u, span_block_ids entry)) converted = map (\<lambda>(u, entry). (u, span_block_ids entry)) declared \<and>
    list_all (\<lambda>(u, entry). dst_space_version entry = 0) converted"
proof -
  have "list_all (\<lambda>(u, entry). dst_space_version entry = 0) (fst acc) \<Longrightarrow>
      foldM (convert_declaration tag live skip) acc ds = Inr acc' \<Longrightarrow>
      list_all (\<lambda>(u, entry). dst_space_version entry = 0) (fst acc')" for acc acc' ds
    by (rule foldM_invariant, assumption+)
      (auto simp: convert_declaration_def and_then_Inr_iff split: if_splits prod.splits)
  from this [of "([], 0, 0)"] have "list_all (\<lambda>(u, entry). dst_space_version entry = 0) converted"
    using assms(1) by (auto simp: convert_declarations_def and_then_Inr_iff split: if_splits)
  then show ?thesis using convert_declarations_Inr [OF assms] by (simp add: tag_copies_def)
qed

section \<open>A transfer from two ranks\<close>

text \<open>
  Two source ranks with four live bytes per block send seven bytes to two destination blocks
  whose live bytes are at 0, 1, 4 and 5; the second rank's span crosses a destination page.
\<close>

definition rank_id :: "string \<Rightarrow> RaidenIdProto" where
  "rank_id n = \<lparr>job_name_pb = n, job_replica_id_pb = ''0'', data_name_pb = ''kv'', data_replica_idx_pb = 0\<rparr>"

definition rank_metadata :: "string \<Rightarrow> int \<Rightarrow> RegionSpecProto \<Rightarrow> RegisterWorkUnitRequest" where
  "rank_metadata n rank region = \<lparr>unit_pb = rank_id n, shards_pb = [n @ '':1''], control_plane_rpc_address_pb = n @ '':2'',
     itemsize_pb = 1, mesh_shape_pb = [], layout_pb = [], global_shape_pb = [], pools_pb =
     [\<lparr>tag_pb = ''kv'', storage_index_pb = 0, base_offset_bytes_pb = 0, block_stride_bytes_pb = 8, num_blocks_pb = 10,
       regions_pb = [region], dtype_tag_pb = ''bf16''\<rparr>],
     layout_fingerprint_pb = ''f'', page_tokens_pb = 1, transfer_parallelism_pb = 2, transfer_rank_pb = rank,
     variables_pb = [], mesh_axes_pb = []\<rparr>"

definition packed_region :: RegionSpecProto where
  "packed_region = \<lparr>name_pb = ''k'', offset_bytes_pb = 0, stride_bytes_pb = 4, unit_bytes_pb = 4, num_units_pb = 1,
     units_per_stride_pb = 1\<rparr>"

definition spread_region :: RegionSpecProto where
  "spread_region = \<lparr>name_pb = ''k'', offset_bytes_pb = 0, stride_bytes_pb = 4, unit_bytes_pb = 2, num_units_pb = 2,
     units_per_stride_pb = 1\<rparr>"

definition transfer_request :: PlanRequest where
  "transfer_request = \<lparr>src_units = [example_unit ''a'', example_unit ''b''], dst_units = [example_unit ''d''],
     src_metadata = [rank_metadata ''a'' 0 packed_region, rank_metadata ''b'' 1 packed_region],
     dst_metadata = [rank_metadata ''d'' 0 spread_region], req_id = ''q'', uuid = 5, dst_device_block_ids = [5, 9],
     num_tokens = 7, transfer_pool_tags = [''kv''], parallelism = None, dst_block_counts = [], dst_skip_bytes = []\<rparr>"

definition global_span :: "int \<Rightarrow> int \<Rightarrow> PoolByteSpan" where
  "global_span g n = \<lparr>src_block_ordinal = 0, src_offset_bytes = 0, dst_block_index = 0, dst_offset_bytes = g,
     size_bytes = n, src_stride_bytes = 0, dst_stride_bytes = 0, span_count = 1\<rparr>"

definition rank_row :: "int \<Rightarrow> int \<Rightarrow> int \<Rightarrow> RequestBlockRegistration" where
  "rank_row block g n = \<lparr>row_uuid = 5, row_block_ids = [block], row_expires_at = 600, row_pool_spans =
     [\<lparr>span_tag = ''kv'', span_block_ids = [block], spans = [global_span g n], declared_bytes = n,
       dst_space_version = 1\<rparr>]\<rparr>"

definition transfer_rows :: "(RaidenId, RequestBlockRegistration) amap" where
  "transfer_rows = [(example_unit ''a'', rank_row 1 0 3), (example_unit ''b'', rank_row 3 3 4)]"

definition transfer_registry :: RequestBlockRegistry where
  "transfer_registry = (RequestBlockRegistry_init (\<lambda>t. t + 600))\<lparr>request_blocks :=
     [((''q'', example_unit ''a''), rank_row 1 0 3), ((''q'', example_unit ''b''), rank_row 3 3 4)]\<rparr>"

definition transfer_plan :: PoolReshardPlan where
  "transfer_plan = (case resolve_request transfer_request of Inr (sbu, dm, ranks, par, jobs) \<Rightarrow>
     projr (plan_claimed transfer_request sbu dm ranks par jobs transfer_rows))"

lemma transfer_resolved:
  "case resolve_request transfer_request of Inl e \<Rightarrow> False | Inr (sbu, dm, ranks, par, jobs) \<Rightarrow>
     plan_claimed transfer_request sbu dm ranks par jobs transfer_rows = Inr transfer_plan"
  by code_simp

lemma transfer_claim:
  "fst (LookupAndClaim transfer_registry 1 ''q'' 5 [example_unit ''a'', example_unit ''b''] 7) = Inr transfer_rows"
  by (simp add: LookupAndClaim_def Let_def transfer_registry_def RequestBlockRegistry_init_def purge_all_def
    PurgeExpiredLifecycleLocked_def PurgeExpiredRequestBlocksLocked_def check_claim_def snapshot_rows_def
    transfer_rows_def rank_row_def example_unit_def)

lemma transfer_planned:
  "\<exists>registry'. BuildPoolReshardPlan transfer_registry 1 transfer_request 7 = (Inr transfer_plan, registry')"
proof -
  have "req_id transfer_request = ''q''" "uuid transfer_request = 5"
    "src_units transfer_request = [example_unit ''a'', example_unit ''b'']" by (simp_all add: transfer_request_def)
  then show ?thesis using transfer_resolved transfer_claim
    by (auto simp: BuildPoolReshardPlan_def split: sum.splits prod.splits)
qed

lemma transfer_metadata:
  "resolve_metadata transfer_request = Inr
     ([(example_unit ''a'', rank_metadata ''a'' 0 packed_region), (example_unit ''b'', rank_metadata ''b'' 1 packed_region)],
      rank_metadata ''d'' 0 spread_region)"
  by code_simp

lemma transfer_tags:
  "length (transfer_pool_tags transfer_request) \<le> 2147483648" "0 < length (transfer_pool_tags transfer_request)"
  by (simp_all add: transfer_request_def)

theorem reshard_plan_writes_once_witness:
  "distinct (map snd (group_copies 0 (plan_schedules transfer_plan))) \<and>
   map group_dst_block_ids (plan_pool_groups transfer_plan) = [[5, 9]] \<and>
   group_extents (plan_pool_groups transfer_plan ! 0) = [4, 3]"
proof -
  obtain registry' where b: "BuildPoolReshardPlan transfer_registry 1 transfer_request 7 = (Inr transfer_plan, registry')"
    using transfer_planned by blast
  have "map group_dst_block_ids (plan_pool_groups transfer_plan) = [[5, 9]]"
    "group_extents (plan_pool_groups transfer_plan ! 0) = [4, 3]" by code_simp+
  then show ?thesis using reshard_plan_writes_once [OF b transfer_metadata transfer_tags refl refl refl] by auto
qed

theorem reshard_plan_copies_declared_witness:
  "\<exists>ss ds. mset (group_copies 0 (plan_schedules transfer_plan)) =
     mset (map (place ss ds [5, 9]) (tag_copies (total_size ds) 0 (map (\<lambda>(u, r). (u, hd (row_pool_spans r))) transfer_rows)))"
proof -
  obtain registry' where b: "BuildPoolReshardPlan transfer_registry 1 transfer_request 7 = (Inr transfer_plan, registry')"
    using transfer_planned by blast
  have e: "group_dst_block_ids (plan_pool_groups transfer_plan ! 0) = [5, 9]"
    "declared_spans transfer_request transfer_rows (transfer_pool_tags transfer_request ! 0) =
       Inr (map (\<lambda>(u, r). (u, hd (row_pool_spans r))) transfer_rows)" "tag_skip transfer_request 0 = 0" by code_simp+
  have "req_id transfer_request = ''q''" "uuid transfer_request = 5"
    "src_units transfer_request = [example_unit ''a'', example_unit ''b'']" by (simp_all add: transfer_request_def)
  then show ?thesis using reshard_plan_copies_declared [OF b transfer_metadata transfer_tags refl refl] e transfer_claim by auto
qed

theorem conversion_keeps_copies_witness:
  "\<exists>converted. convert_declarations ''kv'' 4 4 [(example_unit ''b'', hd (row_pool_spans (rank_row 3 3 7)))] = Inr (converted, 1) \<and>
     map (\<lambda>(u, entry). map (\<lambda>sp. (dst_block_index sp, dst_offset_bytes sp, size_bytes sp)) (spans entry)) converted =
       [[(0, 0, 4), (1, 0, 2)]] \<and>
     declared_copies converted = tag_copies 4 4 [(example_unit ''b'', hd (row_pool_spans (rank_row 3 3 7)))]"
proof -
  define converted where "converted = fst (projr (convert_declarations ''kv'' 4 4 [(example_unit ''b'', hd (row_pool_spans (rank_row 3 3 7)))]))"
  have c: "convert_declarations ''kv'' 4 4 [(example_unit ''b'', hd (row_pool_spans (rank_row 3 3 7)))] = Inr (converted, 1)"
    "map (\<lambda>(u, entry). map (\<lambda>sp. (dst_block_index sp, dst_offset_bytes sp, size_bytes sp)) (spans entry)) converted =
       [[(0, 0, 4), (1, 0, 2)]]" unfolding converted_def by code_simp+
  then show ?thesis using conversion_keeps_copies [OF c(1)] by simp
qed

end
