(* ===== verification/PlanShape.thy ===== *)
theory PlanShape
  imports PlanCoverage
begin

text \<open>
  The shape of the plans that \<open>BuildPoolReshardPlan\<close> returns: which units have schedules, how
  they are numbered, what an entry may hold, and how groups, pools, extents and endpoints fit
  together. The coordinator reads a plan relying on exactly this.
\<close>

section \<open>Schedules\<close>

definition entry_ok :: "nat \<Rightarrow> string \<Rightarrow> ScheduleEntry \<Rightarrow> bool" where
  "entry_ok n peer e \<longleftrightarrow> entry_dst_peer e = peer \<and> 0 \<le> entry_pool_group e \<and> entry_pool_group e < int n \<and>
     0 < entry_size e \<and> entry_count e = 1 \<and> entry_src_stride e = 0 \<and> entry_dst_stride e = 0 \<and>
     entry_dst_shard_idx e = 0 \<and> entry_layer_idx e = 0"

definition schedules_ok :: "RaidenId set \<Rightarrow> nat \<Rightarrow> string \<Rightarrow> (RaidenId, ScheduleEntry list) amap \<Rightarrow> bool" where
  "schedules_ok us n peer m \<longleftrightarrow> amap_ok m \<and>
     (\<forall>u es. map_of m u = Some es \<longrightarrow> u \<in> us \<and> es \<noteq> [] \<and> (\<forall>e\<in>set es. entry_ok n peer e))"

lemma schedules_ok_push:
  "schedules_ok us n peer m \<Longrightarrow> u \<in> us \<Longrightarrow> entry_ok n peer e \<Longrightarrow> schedules_ok us n peer (push_entry u m e)"
  by (auto simp: schedules_ok_def push_entry_def split: option.splits)

lemma schedules_ok_pushes:
  "schedules_ok us n peer m \<Longrightarrow> u \<in> us \<Longrightarrow> \<forall>e\<in>set es. entry_ok n peer e \<Longrightarrow>
   schedules_ok us n peer (foldl (push_entry u) m es)"
  by (induction es arbitrary: m) (simp_all add: schedules_ok_push)

lemma schedules_ok_mono: "schedules_ok us n peer m \<Longrightarrow> n \<le> n' \<Longrightarrow> schedules_ok us n' peer m"
  by (fastforce simp: schedules_ok_def entry_ok_def)

lemma translate_chunk_sizes:
  assumes "segments_ok st ss" "segments_ok st' ds" "TranslateLiveCopy ss ds so do n = Inr cs" "c \<in> set cs"
  shows "0 < chunk_size c"
proof -
  have l: "translate_loop ss ds [] so do n = Inr cs" and n: "0 \<le> n"
    using assms(3) by (auto simp: TranslateLiveCopy_def split: if_splits)
  have "tiled_from 0 ss" "sizes_pos ss" "tiled_from 0 ds" "sizes_pos ds"
    using assms(1,2) by (auto simp: segments_ok_def)
  from translate_loop_sound [OF this l n] show ?thesis using assms(4) by auto
qed

lemma emit_repeat_schedules:
  assumes "pre_ok pre" "emit_repeat pre peer gi u sb db sp acc i = Inr acc'" "int gi < 2147483648"
    and "schedules_ok us (Suc gi) peer (schedules acc)" "u \<in> us"
  shows "schedules_ok us (Suc gi) peer (schedules acc')"
proof -
  obtain st st' where ok: "segments_ok st (src_segments pre)" "segments_ok st' (dst_segments pre)"
    using assms(1) by (auto simp: pre_ok_def)
  obtain so do' cs where t: "TranslateLiveCopy (src_segments pre) (dst_segments pre) so do' (size_bytes sp) = Inr cs"
    and sched: "schedules acc' = foldl (push_entry u) (schedules acc) (map (schedule_entry peer gi sb db) cs)"
    using assms(2) by (auto simp: emit_repeat_def Let_def status_simps split: if_splits)
  have "entry_ok (Suc gi) peer (schedule_entry peer gi sb db c)" if "c \<in> set cs" for c
    using translate_chunk_sizes [OF ok t that] int32_small [OF assms(3)] by (simp add: entry_ok_def schedule_entry_def)
  then show ?thesis unfolding sched by (intro schedules_ok_pushes assms(4,5)) auto
qed

lemma emit_span_schedules:
  assumes "pre_ok pre" "emit_span pre peer gi ids acc os = Inr acc'" "int gi < 2147483648"
    and "schedules_ok us (Suc gi) peer (schedules acc)" "fst (snd os) \<in> us"
  shows "schedules_ok us (Suc gi) peer (schedules acc')"
proof -
  obtain sp u entry where os: "os = (sp, u, entry)" by (cases os)
  obtain sb db a where f: "foldM (emit_repeat pre peer gi u sb db sp) acc [0..span_count sp - 1] = Inr a"
    and "schedules acc' = schedules a"
    using assms(2) by (auto simp: emit_span_def os and_then_Inr_iff)
  moreover have "schedules_ok us (Suc gi) peer (schedules a)"
    by (rule foldM_invariant [OF f, of "\<lambda>a. schedules_ok us (Suc gi) peer (schedules a)"])
      (use assms emit_repeat_schedules [OF assms(1) _ assms(3)] in \<open>auto simp: os\<close>)
  ultimately show ?thesis by simp
qed

lemma emit_spans_schedules:
  assumes "pre_ok pre" "foldM (emit_span pre peer gi ids) acc oss = Inr acc'" "int gi < 2147483648"
    and "schedules_ok us (Suc gi) peer (schedules acc)" "\<forall>os\<in>set oss. fst (snd os) \<in> us"
  shows "schedules_ok us (Suc gi) peer (schedules acc')"
  by (rule foldM_invariant [OF assms(2), of "\<lambda>a. schedules_ok us (Suc gi) peer (schedules a)"])
    (use assms emit_span_schedules [OF assms(1) _ assms(3)] in auto)

lemma ordered_units:
  assumes "declared_spans request rows tag = Inr declared" "convert_declarations tag live skip declared = Inr (converted, clipped)"
    and "0 < live" "0 \<le> skip" "os \<in> set (order_spans converted)"
  shows "fst (snd os) \<in> set (src_units request)"
proof -
  have "fst (snd os) \<in> fst ` set converted" using assms(5) by (force simp: order_spans_def)
  also have "fst ` set converted = fst ` set declared"
  proof -
    have "map fst (map (\<lambda>(u, entry). (u, span_block_ids entry)) converted) =
        map fst (map (\<lambda>(u, entry). (u, span_block_ids entry)) declared)"
      using convert_declarations_Inr(2) [OF assms(2-4)] by simp
    then have "map fst converted = map fst declared" by (simp add: comp_def case_prod_beta)
    then show ?thesis by (metis set_map)
  qed
  also have "\<dots> \<subseteq> set (src_units request)" using assms(1) by (auto simp: declared_spans_def Let_def split: if_splits)
  finally show ?thesis .
qed

section \<open>The tag loop\<close>

definition shape :: "RaidenId set \<Rightarrow> string \<Rightarrow> nat \<Rightarrow> plan_acc \<Rightarrow> bool" where
  "shape us peer n acc \<longleftrightarrow> schedules_ok us n peer (all_schedules acc) \<and> length (pool_groups acc) = n \<and>
     union_selected acc = concat (map group_pool_indices (pool_groups acc)) \<and>
     flat_extents acc = concat (map group_extents (pool_groups acc))"

lemma plan_tag_shape:
  assumes "plan_tag request sbu dm rows par acc (n, t) = Inr acc'" "job_ok t" "int n < 2147483648"
    and "shape (set (src_units request)) (hd (shards_pb dm)) n acc"
  shows "shape (set (src_units request)) (hd (shards_pb dm)) (Suc n) acc'"
proof -
  obtain tag ids skip pre where t: "t = (tag, ids, skip, pre)" by (cases t)
  have ok: "pre_ok pre" "0 < dst_live pre" "0 \<le> skip" using assms(2) by (auto simp: job_ok_def t)
  obtain declared converted clipped e where d: "declared_spans request rows tag = Inr declared"
      "convert_declarations tag (dst_live pre) skip declared = Inr (converted, clipped)"
    and e: "foldM (emit_span pre (hd (shards_pb dm)) n ids)
        \<lparr>schedules = all_schedules acc, emitted_chunks = all_chunks acc, transfer_pairs = []\<rparr> (order_spans converted) = Inr e"
    and s: "all_schedules acc' = schedules e"
    using assms(1) by (auto simp: plan_tag_def t and_then_Inr_iff Let_def split: if_splits)
  have "schedules_ok (set (src_units request)) (Suc n) (hd (shards_pb dm)) (schedules e)"
    by (rule emit_spans_schedules [OF ok(1) e assms(3)])
      (use assms(4) ordered_units [OF d ok(2,3)] schedules_ok_mono in \<open>auto simp: shape_def\<close>)
  moreover obtain extents pushes where "pool_groups acc' = pool_groups acc @ [\<lparr>group_pool_indices = selected pre,
      group_dst_block_ids = ids, group_expected_pushes = pushes, group_extents = extents, group_order_rank = (if n = 0 then 0 else 1)\<rparr>]"
    "union_selected acc' = union_selected acc @ selected pre" "flat_extents acc' = flat_extents acc @ extents"
    by (rule plan_tag_Inr [OF assms(1) [unfolded t] ok], rule that)
  ultimately show ?thesis using assms(4) by (simp add: shape_def s)
qed

lemma plan_tags_shape:
  assumes "foldM (plan_tag request sbu dm rows par) acc (enumerate n ts) = Inr acc'" "\<forall>t\<in>set ts. job_ok t"
    and "n + length ts \<le> 2147483648" "shape (set (src_units request)) (hd (shards_pb dm)) n acc"
  shows "shape (set (src_units request)) (hd (shards_pb dm)) (n + length ts) acc'"
  using assms
proof (induction ts arbitrary: n acc)
  case (Cons t ts)
  from Cons.prems(1) obtain a where a: "plan_tag request sbu dm rows par acc (n, t) = Inr a"
      "foldM (plan_tag request sbu dm rows par) a (enumerate (Suc n) ts) = Inr acc'" by (auto simp: and_then_Inr_iff)
  have "shape (set (src_units request)) (hd (shards_pb dm)) (Suc n) a"
    by (rule plan_tag_shape [OF a(1)]) (use Cons.prems in auto)
  from Cons.IH [OF a(2) _ _ this] show ?case using Cons.prems by simp
qed simp

section \<open>Ranks and ordinals\<close>

lemma length_put: "length (put k v m) = (if k \<in> set (keys m) then length m else Suc (length m))"
  by (induction m) (auto simp: rev_image_eqI)

lemma foldl_put_bound: "length (foldl (\<lambda>m u. put (f u) u m) acc us) \<le> length acc + length us"
proof (induction us arbitrary: acc)
  case (Cons u us)
  from Cons [of "put (f u) u acc"] show ?case by (simp add: length_put split: if_splits)
qed simp

lemma foldl_put_all:
  assumes "length (foldl (\<lambda>m u. put (f u) u m) acc us) = length acc + length us"
  shows "foldl (\<lambda>m u. put (f u) u m) acc us = acc @ map (\<lambda>u. (f u, u)) us"
  using assms
proof (induction us arbitrary: acc)
  case (Cons u us)
  have "f u \<notin> set (keys acc)"
  proof
    assume "f u \<in> set (keys acc)"
    then have "length (foldl (\<lambda>m u. put (f u) u m) acc (u # us)) \<le> length acc + length us"
      using foldl_put_bound [of f "put (f u) u acc" us] by (simp add: length_put)
    then show False using Cons.prems by simp
  qed
  then have p: "put (f u) u acc = acc @ [(f u, u)]" by (induction acc) auto
  show ?case using Cons.IH [of "put (f u) u acc"] Cons.prems by (simp add: p)
qed simp

lemma resolve_parallelism_ranks:
  assumes "resolve_parallelism request sbu = Inr (ranks, par)"
  shows "mset (map snd ranks) = mset (src_units request)"
proof -
  let ?f = "\<lambda>u. transfer_rank_pb (the (map_of sbu u))"
  have r: "ranks = sort_key fst (foldl (\<lambda>m u. put (?f u) u m) [] (src_units request))"
    and l: "length ranks = length (src_units request)"
    using assms by (auto simp: resolve_parallelism_def Let_def split: if_splits)
  have "foldl (\<lambda>m u. put (?f u) u m) [] (src_units request) = map (\<lambda>u. (?f u, u)) (src_units request)"
    using foldl_put_all [of ?f "[]" "src_units request"] l by (simp add: r)
  then have "mset ranks = mset (map (\<lambda>u. (?f u, u)) (src_units request))" by (simp add: r)
  then have "mset (map snd ranks) = mset (map snd (map (\<lambda>u. (?f u, u)) (src_units request)))" by (metis mset_map)
  also have "map snd (map (\<lambda>u. (?f u, u)) (src_units request)) = src_units request" by (simp add: comp_def)
  finally show ?thesis .
qed

abbreviation number_units :: "(RaidenId, int) amap \<Rightarrow> (nat \<times> RaidenId) list \<Rightarrow> (RaidenId, int) amap" where
  "number_units \<equiv> foldl (\<lambda>m (i, u). put u (int32 (int i)) m)"

lemma number_units_other: "v \<notin> set us \<Longrightarrow> map_of (number_units m (enumerate n us)) v = map_of m v"
  by (induction us arbitrary: n m) simp_all

lemma number_units_nth:
  assumes "distinct us" "n + length us \<le> 2147483648" "i < length us"
  shows "map_of (number_units m (enumerate n us)) (us ! i) = Some (int (n + i))"
  using assms
proof (induction us arbitrary: n m i)
  case (Cons u us)
  show ?case
  proof (cases i)
    case 0
    then show ?thesis using Cons.prems by (simp add: number_units_other int32_small)
  next
    case (Suc j)
    then show ?thesis using Cons.IH [of "Suc n" j] Cons.prems by simp
  qed
qed simp

section \<open>Endpoints\<close>

lemma MetadataByUnit_Inr:
  assumes "MetadataByUnit metadata us = Inr m"
  shows "map_of m u = Some meta \<Longrightarrow> RaidenIdFromProto (unit_pb meta) = u" "u \<in> set us \<Longrightarrow> map_of m u \<noteq> None"
proof -
  obtain m' where f: "foldM (\<lambda>result item. let u = RaidenIdFromProto (unit_pb item) in
         if u \<notin> set us then Inr result
         else if map_of result u \<noteq> None then
           InvalidArgumentError (''Duplicate registration metadata for '' @ PythonRepr u)
         else Inr (put u item result)) [] metadata = Inr m'"
    and m: "m = m'" "filter (\<lambda>u. map_of m' u = None) us = []"
    using assms by (auto simp: MetadataByUnit_def and_then_Inr_iff Let_def split: if_splits)
  show "u \<in> set us \<Longrightarrow> map_of m u \<noteq> None" using m by (auto simp: filter_empty_conv)
  have "\<forall>u meta. map_of m' u = Some meta \<longrightarrow> RaidenIdFromProto (unit_pb meta) = u"
    by (rule foldM_invariant [OF f, of "\<lambda>m. \<forall>u meta. map_of m u = Some meta \<longrightarrow> RaidenIdFromProto (unit_pb meta) = u"])
      (auto simp: Let_def split: if_splits)
  then show "map_of m u = Some meta \<Longrightarrow> RaidenIdFromProto (unit_pb meta) = u" using m by blast
qed

abbreviation endpoints :: "(RaidenId, string) amap \<Rightarrow> RegisterWorkUnitRequest list \<Rightarrow> (RaidenId, string) amap" where
  "endpoints \<equiv> foldl (\<lambda>m meta. put (RaidenIdFromProto (unit_pb meta)) (control_plane_rpc_address_pb meta) m)"

lemma endpoints_nonempty:
  assumes "\<forall>meta\<in>set ms. control_plane_rpc_address_pb meta \<noteq> []"
    and "u \<in> (\<lambda>meta. RaidenIdFromProto (unit_pb meta)) ` set ms \<or> (\<exists>a. map_of m u = Some a \<and> a \<noteq> [])"
  shows "\<exists>a. map_of (endpoints m ms) u = Some a \<and> a \<noteq> []"
  using assms
proof (induction ms arbitrary: m)
  case (Cons meta ms)
  then show ?case by (simp only: foldl.simps) (rule Cons.IH, auto)
qed simp

lemma resolve_metadata_endpoints:
  assumes "resolve_metadata request = Inr (sbu, dm)" "u = hd (dst_units request) \<or> u \<in> set (src_units request)"
    and "length (dst_units request) = 1"
  shows "\<exists>a. map_of (endpoints [] (map (\<lambda>u. the (map_of sbu u)) (src_units request) @ [dm])) u = Some a \<and> a \<noteq> []"
proof -
  let ?all = "map (\<lambda>u. the (map_of sbu u)) (src_units request) @ [dm]"
  obtain dbu where d: "MetadataByUnit (dst_metadata request) (dst_units request) = Inr dbu"
      "dm = the (map_of dbu (hd (dst_units request)))"
    and s: "MetadataByUnit (src_metadata request) (src_units request) = Inr sbu"
    and c: "check_each check_metadata ?all = OkStatus"
    using assms(1) by (auto simp: resolve_metadata_def and_then_Inr_iff Let_def split: if_splits)
  have addr: "\<forall>meta\<in>set ?all. control_plane_rpc_address_pb meta \<noteq> []"
    using c unfolding check_each_ok by (auto simp: check_metadata_def Let_def split: if_splits)
  have "hd (dst_units request) \<in> set (dst_units request)" using assms(3) by (cases "dst_units request") auto
  then obtain meta where "map_of dbu (hd (dst_units request)) = Some meta" using MetadataByUnit_Inr(2) [OF d(1)] by blast
  then have "RaidenIdFromProto (unit_pb dm) = hd (dst_units request)" using MetadataByUnit_Inr(1) [OF d(1)] d(2) by simp
  moreover have "RaidenIdFromProto (unit_pb (the (map_of sbu v))) = v" if "v \<in> set (src_units request)" for v
    using MetadataByUnit_Inr [OF s] that by fastforce
  ultimately have "u \<in> (\<lambda>meta. RaidenIdFromProto (unit_pb meta)) ` set ?all" using assms(2) by force
  then show ?thesis by (intro endpoints_nonempty addr) simp
qed

section \<open>The shape of a plan\<close>

lemma plan_has_schedules:
  assumes "BuildPoolReshardPlan registry now request owner = (Inr plan, registry')"
    and "resolve_metadata request = Inr (sbu, dm)" "length (transfer_pool_tags request) \<le> 2147483648"
    and "dst_device_block_ids request \<noteq> []"
  shows "plan_schedules plan \<noteq> []"
proof
  assume none: "plan_schedules plan = []"
  obtain rows pres where g: "length (plan_pool_groups plan) = length (transfer_pool_tags request)"
    "concat (map group_dst_block_ids (plan_pool_groups plan)) = dst_device_block_ids request"
    "\<And>k. k < length (transfer_pool_tags request) \<Longrightarrow> tag_planned request sbu dm rows (transfer_pool_tags request ! k,
       group_dst_block_ids (plan_pool_groups plan ! k), tag_skip request k, pres ! k) (plan_pool_groups plan ! k)
       (mset (group_copies (int k) (plan_schedules plan)))"
    using plan_group [OF assms(1-3)] by metis
  obtain k where k: "k < length (plan_pool_groups plan)" "group_dst_block_ids (plan_pool_groups plan ! k) \<noteq> []"
    using assms(4) unfolding g(2) [symmetric] by (auto simp: in_set_conv_nth)
  then obtain declared pre where c: "covers (length (group_dst_block_ids (plan_pool_groups plan ! k)))
        (group_extents (plan_pool_groups plan ! k)) (tag_copies (dst_live pre) (tag_skip request k) declared)"
      "{#} = mset (placed pre (group_dst_block_ids (plan_pool_groups plan ! k)) (tag_copies (dst_live pre) (tag_skip request k) declared))"
    using g(1) g(3) [of k] by (auto simp: tag_planned_def none group_copies_def)
  have "tag_copies (dst_live pre) (tag_skip request k) declared = []" using c(2) by simp
  moreover have "0 < length (group_dst_block_ids (plan_pool_groups plan ! k))" using k(2) by simp
  ultimately have "0 < group_extents (plan_pool_groups plan ! k) ! 0"
    "mset [] = mset [0..group_extents (plan_pool_groups plan ! k) ! 0 - 1]" using c(1) unfolding covers_def by auto
  then show False by (simp add: upto.simps)
qed

lemma active_units:
  assumes "resolve_parallelism request sbu = Inr (ranks, par)" "distinct (src_units request)" "active = filter P (map snd ranks)"
  shows "distinct active" "set active = {u \<in> set (src_units request). P u}" "length active \<le> length (src_units request)"
proof -
  note r = resolve_parallelism_ranks [OF assms(1)]
  show "distinct active" using assms(2,3) mset_eq_imp_distinct_iff [OF r] by simp
  show "set active = {u \<in> set (src_units request). P u}" using mset_eq_setD [OF r] assms(3) by auto
  show "length active \<le> length (src_units request)"
    using length_filter_le [of P "map snd ranks"] mset_eq_length [OF r] unfolding assms(3) by (rule le_trans [OF _ eq_refl])
qed

text \<open>What the readers of a plan rely on.\<close>

definition well_formed :: "PoolReshardPlan \<Rightarrow> bool" where
  "well_formed plan \<longleftrightarrow>
     distinct (plan_src_units plan) \<and> plan_src_units plan \<noteq> [] \<and> amap_ok (plan_schedules plan) \<and>
     set (plan_src_units plan) = dom (map_of (plan_schedules plan)) \<and>
     dom (map_of (plan_schedule_keys plan)) = set (plan_src_units plan) \<and>
     (\<forall>i<length (plan_src_units plan). map_of (plan_schedule_keys plan) (plan_src_units plan ! i) = Some (int i)) \<and>
     (\<forall>u es. map_of (plan_schedules plan) u = Some es \<longrightarrow> es \<noteq> [] \<and>
        (\<forall>e\<in>set es. entry_ok (length (plan_pool_groups plan)) (plan_dst_peer plan) e)) \<and>
     plan_pool_indices plan = concat (map group_pool_indices (plan_pool_groups plan)) \<and>
     plan_pool_indices plan \<noteq> [] \<and> distinct (plan_pool_indices plan) \<and>
     plan_extents plan = concat (map group_extents (plan_pool_groups plan)) \<and>
     (\<forall>u\<in>insert (plan_dst_unit plan) (set (plan_src_units plan)). \<exists>a. map_of (plan_rpc_addresses plan) u = Some a \<and> a \<noteq> [])"

lemma plan_has_pools:
  assumes "BuildPoolReshardPlan registry now request owner = (Inr plan, registry')"
    and "resolve_metadata request = Inr (sbu, dm)" "length (transfer_pool_tags request) \<le> 2147483648"
    and "dst_device_block_ids request \<noteq> []"
  shows "concat (map group_pool_indices (plan_pool_groups plan)) \<noteq> []"
proof -
  obtain rows pres where g: "length (plan_pool_groups plan) = length (transfer_pool_tags request)"
    "concat (map group_dst_block_ids (plan_pool_groups plan)) = dst_device_block_ids request"
    "\<And>k. k < length (transfer_pool_tags request) \<Longrightarrow> precheck_tag (the (map_of sbu (hd (src_units request)))) dm
       (transfer_pool_tags request ! k) (group_dst_block_ids (plan_pool_groups plan ! k)) (tag_skip request k) = Inr (pres ! k) \<and>
       tag_planned request sbu dm rows (transfer_pool_tags request ! k, group_dst_block_ids (plan_pool_groups plan ! k),
         tag_skip request k, pres ! k) (plan_pool_groups plan ! k) (mset (group_copies (int k) (plan_schedules plan)))"
    using plan_group [OF assms(1-3)] by metis
  have ne: "plan_pool_groups plan \<noteq> []" using g(2) assms(4) by auto
  then have "0 < length (transfer_pool_tags request)" unfolding g(1) [symmetric] by simp
  note t = g(3) [OF this]
  have "group_pool_indices (plan_pool_groups plan ! 0) = selected (pres ! 0)" using t by (auto simp: tag_planned_def)
  then have "group_pool_indices (plan_pool_groups plan ! 0) \<noteq> []" using precheck_tag_Inr(3) [OF conjunct1 [OF t]] by simp
  moreover have "plan_pool_groups plan ! 0 \<in> set (plan_pool_groups plan)" using ne by (intro nth_mem) simp
  ultimately show ?thesis by (auto simp: concat_eq_Nil_conv)
qed

lemma plan_well_formed:
  assumes "BuildPoolReshardPlan registry now request owner = (Inr plan, registry')"
    and "length (transfer_pool_tags request) \<le> 2147483648" "length (src_units request) \<le> 2147483648"
  shows "well_formed plan" "set (plan_src_units plan) \<subseteq> set (src_units request)" "plan_dst_unit plan = hd (dst_units request)"
proof -
  obtain sbu dm where m: "resolve_metadata request = Inr (sbu, dm)"
    using assms(1) unfolding BuildPoolReshardPlan_def
    by (auto simp: resolve_request_def and_then_Inr_iff Let_def split: sum.splits prod.splits)
  obtain rows ranks par ts acc where chk: "check_arguments request = OkStatus"
    and par: "resolve_parallelism request sbu = Inr (ranks, par)"
    and acc: "foldM (plan_tag request sbu dm rows par)
      \<lparr>all_schedules = [], pool_groups = [], union_selected = [], flat_extents = [], all_chunks = 0\<rparr> (enumerate 0 ts) = Inr acc"
    and p: "assemble_plan request sbu dm ranks par acc = Inr plan"
    and ts: "length ts = length (transfer_pool_tags request)" "\<forall>t\<in>set ts. job_ok t"
    by (rule plan_parts [OF assms(1) m], rule that)
  have args: "distinct (src_units request)" "length (dst_units request) = 1" "dst_device_block_ids request \<noteq> []"
    using chk by (auto simp: check_arguments_def split: if_splits)
  define active where "active = filter (\<lambda>u. map_of (all_schedules acc) u \<noteq> None) (map snd ranks)"
  have plan: "plan_src_units plan = active" "plan_schedules plan = all_schedules acc" "plan_pool_groups plan = pool_groups acc"
    "plan_dst_unit plan = hd (dst_units request)" "plan_dst_peer plan = hd (shards_pb dm)"
    "plan_schedule_keys plan = number_units [] (enumerate 0 active)" "plan_pool_indices plan = union_selected acc"
    "plan_extents plan = flat_extents acc" "distinct (union_selected acc)"
    "plan_rpc_addresses plan = endpoints [] (map (\<lambda>u. the (map_of sbu u)) (src_units request) @ [dm])"
    using p by (auto simp: assemble_plan_def active_def Let_def split: if_splits)
  have sh: "shape (set (src_units request)) (hd (shards_pb dm)) (length ts) acc"
    using plan_tags_shape [OF acc ts(2)] assms(2) ts(1) by (simp add: shape_def schedules_ok_def)
  note act = active_units [OF par args(1) active_def]
  have dom: "dom (map_of (all_schedules acc)) \<subseteq> set (src_units request)" using sh by (auto simp: shape_def schedules_ok_def)
  have "all_schedules acc \<noteq> []" using plan_has_schedules [OF assms(1) m assms(2) args(3)] plan(2) by simp
  then have "active \<noteq> []" using act(2) dom by (cases "all_schedules acc") (force simp: dom_def)+
  moreover have "length active \<le> 2147483648" using act(3) assms(3) by linarith
  moreover have "dom (map_of (number_units [] (enumerate 0 active))) = set active"
    using number_units_other [of _ active "[]" 0] number_units_nth [OF act(1), of 0] act(3) assms(3)
    by (auto simp: dom_def in_set_conv_nth) (metis option.distinct(1) map_of.simps(1) nth_mem)
  ultimately show "well_formed plan"
    using act dom number_units_nth [OF act(1), of 0] resolve_metadata_endpoints [OF m _ args(2)] sh plan(9)
      plan_has_pools [OF assms(1) m assms(2) args(3)]
    unfolding well_formed_def plan(1-8,10) by (auto simp: shape_def schedules_ok_def)
  show "set (plan_src_units plan) \<subseteq> set (src_units request)" "plan_dst_unit plan = hd (dst_units request)"
    using act(2) by (auto simp: plan(1,4))
qed

text \<open>
  Property C13 (plans are well formed). In a plan that the planner returns, the source units are
  distinct requested units, there is at least one, and they are exactly the units with a
  schedule; they are numbered from zero in their order. No schedule is empty, and every entry
  names the peer of the destination, a group of the plan and a positive number of bytes, once
  and without strides. The pools of the plan are those of its groups, in order and without
  duplicates, and the extents are those of its groups. Every source and the destination have a
  control endpoint.
\<close>
theorem reshard_plan_well_formed:
  assumes "BuildPoolReshardPlan registry now request owner = (Inr plan, registry')"
    and "length (transfer_pool_tags request) \<le> 2147483648" "length (src_units request) \<le> 2147483648"
  shows "distinct (plan_src_units plan) \<and> plan_src_units plan \<noteq> [] \<and> set (plan_src_units plan) \<subseteq> set (src_units request) \<and>
    set (plan_src_units plan) = dom (map_of (plan_schedules plan)) \<and> plan_dst_unit plan = hd (dst_units request) \<and>
    dom (map_of (plan_schedule_keys plan)) = set (plan_src_units plan) \<and>
    (\<forall>i<length (plan_src_units plan). map_of (plan_schedule_keys plan) (plan_src_units plan ! i) = Some (int i)) \<and>
    (\<forall>u es. map_of (plan_schedules plan) u = Some es \<longrightarrow> es \<noteq> [] \<and>
       (\<forall>e\<in>set es. entry_ok (length (plan_pool_groups plan)) (plan_dst_peer plan) e)) \<and>
    plan_pool_indices plan = concat (map group_pool_indices (plan_pool_groups plan)) \<and> distinct (plan_pool_indices plan) \<and>
    plan_extents plan = concat (map group_extents (plan_pool_groups plan)) \<and>
    (\<forall>u\<in>insert (plan_dst_unit plan) (set (plan_src_units plan)). \<exists>a. map_of (plan_rpc_addresses plan) u = Some a \<and> a \<noteq> [])"
  using plan_well_formed [OF assms] unfolding well_formed_def by blast

theorem reshard_plan_well_formed_witness:
  "map_of (plan_schedule_keys transfer_plan) (example_unit ''b'') = Some 1 \<and>
   distinct (plan_src_units transfer_plan) \<and> (\<exists>a. map_of (plan_rpc_addresses transfer_plan) (example_unit ''d'') = Some a \<and> a \<noteq> [])"
proof -
  obtain registry' where b: "BuildPoolReshardPlan transfer_registry 1 transfer_request 7 = (Inr transfer_plan, registry')"
    using transfer_planned by blast
  have "length (src_units transfer_request) \<le> 2147483648" by (simp add: transfer_request_def)
  from reshard_plan_well_formed [OF b transfer_tags(1) this]
  have w: "distinct (plan_src_units transfer_plan)"
    "\<forall>i<length (plan_src_units transfer_plan). map_of (plan_schedule_keys transfer_plan) (plan_src_units transfer_plan ! i) = Some (int i)"
    "\<exists>a. map_of (plan_rpc_addresses transfer_plan) (plan_dst_unit transfer_plan) = Some a \<and> a \<noteq> []"
    by blast+
  have "plan_src_units transfer_plan = [example_unit ''a'', example_unit ''b'']" "plan_dst_unit transfer_plan = example_unit ''d''"
    by code_simp+
  then show ?thesis using w by fastforce
qed

end
