(* ===== verification/TransferProgram.thy ===== *)
theory TransferProgram
  imports Declarations "HOL-Library.Word"
begin

text \<open>
  The worker transfer program of a pool reshard (\<open>core/transfer_program_reshard.cc\<close>): the wire
  messages of \<open>rpc/raiden_service.proto\<close> and \<open>proto/transfer_program.proto\<close> it uses, the
  compilation of a \<open>StartTransferRequest\<close> into a program, the lowering of a program back to a
  request, the validator that admits a program and the two derivations of block ids. A message
  is a record, an \<open>optional\<close> field an option, a protobuf map an association list; a
  \<open>uint64\<close> is a 64-bit word. The theorems give the exact result of lowering a compiled request
  and what the validator answers for it.
\<close>

section \<open>Messages\<close>

record ShardPushEntryProto =
  push_dst_peer :: string
  push_dst_shard_idx :: int
  push_dst_offset :: int
  push_src_offset :: int
  push_size :: int
  push_src_block :: int
  push_dst_block :: int
  push_src_stride :: int
  push_dst_stride :: int
  push_count :: int
  push_layer_idx :: "int option"
  push_pool_group :: "int option"

record PoolGroupProto =
  pg_pool_indices :: "int list"
  pg_dst_device_block_ids :: "int list"
  pg_expected_pushes :: int
  pg_dst_expected_extent_bytes :: "int list"
  pg_order_rank :: int

record StartTransferRequest =
  st_src_units :: "RaidenIdProto list"
  st_dst_units :: "RaidenIdProto list"
  shard_push_schedules :: "(int, ShardPushEntryProto list) amap"
  st_uuid :: int
  is_sender :: bool
  dst_mem_type :: int
  use_block_chunks :: bool
  expected_block_count :: int
  st_req_id :: string
  pool_dtype_tags :: "string list"
  transfer_pool_indices :: "int list"
  st_parallelism :: int
  skip_d2h :: "bool option"
  pool_groups_pb :: "PoolGroupProto list"
  skip_tiling :: "(int, bool) amap"
  expected_layer_chunk_counts :: "(int, int) amap"

datatype TransferKind =
    TRANSFER_KIND_UNSPECIFIED | TRANSFER_KIND_PREFIX_BLOCKS | TRANSFER_KIND_POOL_RESHARD
  | TRANSFER_KIND_WEIGHT_SYNC | OtherKind int

datatype TransferRole =
    TRANSFER_ROLE_UNSPECIFIED | TRANSFER_ROLE_SENDER | TRANSFER_ROLE_RECEIVER_ARM
  | TRANSFER_ROLE_LOCAL_COPY | OtherRole int

record TransferEnvelope =
  env_uuid :: "64 word"
  env_req_id :: string
  kind :: TransferKind
  role :: TransferRole
  env_layout_fingerprint :: string
  deadline_ms :: int

datatype memory_space = PoolIndex int | BufferHandle "64 word" | VariableIndex int

record MemoryRef =
  space :: "memory_space option"
  mem_type :: int
  ref_block_id :: int

record Extent =
  ext_src_offset :: int
  ext_dst_offset :: int
  ext_size :: int
  ext_src_stride :: int
  ext_dst_stride :: int
  ext_count :: int

record TransferStep =
  step_src :: MemoryRef
  step_dst :: MemoryRef
  extents :: "Extent list"
  step_dst_peer :: string
  step_dst_shard_idx :: int
  step_group :: "int option"
  source_rank :: int
  step_layer_idx :: "int option"

record FanInGroup =
  fg_pool_indices :: "int list"
  fg_dst_device_block_ids :: "int list"
  fg_expected_pushes :: int
  fg_dst_expected_extent_bytes :: "int list"
  fg_order_rank :: int

record FanIn =
  fan_in_groups :: "FanInGroup list"
  fan_in_block_count :: int

datatype CompletionContract = ModeNotSet | kAwaitInline | kFanIn FanIn | kBarrier int int

record ExecutionPolicy =
  pol_parallelism :: int
  pol_skip_d2h :: "bool option"
  pol_skip_tiling :: "(int, bool) amap"
  pol_dst_mem_type :: int
  pol_use_block_chunks :: bool

record ReshardBinding =
  bind_src_units :: "RaidenIdProto list"
  bind_dst_units :: "RaidenIdProto list"
  bind_pool_indices :: "int list"
  bind_dtype_tags :: "string list"

record TransferProgramRequest =
  envelope :: TransferEnvelope
  steps :: "TransferStep list"
  completion :: CompletionContract
  policy :: ExecutionPolicy
  reshard :: ReshardBinding

datatype ReshardLoweringClass = kPoolReshardSender | kPoolReshardArm

section \<open>Compilation\<close>

definition HasPoolReshardFields :: "StartTransferRequest \<Rightarrow> bool" where
  "HasPoolReshardFields r \<longleftrightarrow> transfer_pool_indices r \<noteq> [] \<or> pool_groups_pb r \<noteq> []"

definition copy_map :: "('k, 'v) amap \<Rightarrow> ('k, 'v) amap" where
  "copy_map m = foldl (\<lambda>out (k, v). put k v out) [] m"

definition block_ref :: "int \<Rightarrow> MemoryRef" where
  "block_ref b = \<lparr>space = None, mem_type = 0, ref_block_id = b\<rparr>"

definition compile_entry :: "int \<Rightarrow> ShardPushEntryProto \<Rightarrow> TransferStep" where
  "compile_entry rank e =
     \<lparr>step_src = block_ref (push_src_block e), step_dst = block_ref (push_dst_block e),
      extents = [\<lparr>ext_src_offset = push_src_offset e, ext_dst_offset = push_dst_offset e, ext_size = push_size e,
        ext_src_stride = push_src_stride e, ext_dst_stride = push_dst_stride e, ext_count = push_count e\<rparr>],
      step_dst_peer = push_dst_peer e, step_dst_shard_idx = push_dst_shard_idx e, step_group = push_pool_group e,
      source_rank = rank, step_layer_idx = push_layer_idx e\<rparr>"

definition compile_steps :: "(int, ShardPushEntryProto list) amap \<Rightarrow> TransferStep list" where
  "compile_steps m = concat (map (\<lambda>rank. map (compile_entry rank) (the (map_of m rank))) (sort (keys m)))"

definition compile_group :: "PoolGroupProto \<Rightarrow> FanInGroup" where
  "compile_group g =
     \<lparr>fg_pool_indices = pg_pool_indices g, fg_dst_device_block_ids = pg_dst_device_block_ids g,
      fg_expected_pushes = pg_expected_pushes g, fg_dst_expected_extent_bytes = pg_dst_expected_extent_bytes g,
      fg_order_rank = pg_order_rank g\<rparr>"

definition CompileStartTransfer :: "StartTransferRequest \<Rightarrow> TransferProgramRequest status_or" where
  "CompileStartTransfer r =
     (if \<not> HasPoolReshardFields r then
        InvalidArgumentError (''only pool-reshard StartTransferRequests compile to transfer '' @
          ''programs (legacy dense plans stay on the framed door)'')
      else Inr
        \<lparr>envelope = \<lparr>env_uuid = word_of_int (st_uuid r), env_req_id = st_req_id r, kind = TRANSFER_KIND_POOL_RESHARD,
           role = (if is_sender r then TRANSFER_ROLE_SENDER else TRANSFER_ROLE_RECEIVER_ARM),
           env_layout_fingerprint = [], deadline_ms = 0\<rparr>,
         steps = compile_steps (shard_push_schedules r),
         completion = kFanIn \<lparr>fan_in_groups = map compile_group (pool_groups_pb r),
           fan_in_block_count = expected_block_count r\<rparr>,
         policy = \<lparr>pol_parallelism = st_parallelism r, pol_skip_d2h = skip_d2h r,
           pol_skip_tiling = copy_map (skip_tiling r), pol_dst_mem_type = dst_mem_type r,
           pol_use_block_chunks = use_block_chunks r\<rparr>,
         reshard = \<lparr>bind_src_units = st_src_units r, bind_dst_units = st_dst_units r,
           bind_pool_indices = transfer_pool_indices r, bind_dtype_tags = pool_dtype_tags r\<rparr>\<rparr>)"

section \<open>Admission\<close>

fun TransferKind_Name :: "TransferKind \<Rightarrow> string" where
  "TransferKind_Name TRANSFER_KIND_UNSPECIFIED = ''TRANSFER_KIND_UNSPECIFIED''"
| "TransferKind_Name TRANSFER_KIND_PREFIX_BLOCKS = ''TRANSFER_KIND_PREFIX_BLOCKS''"
| "TransferKind_Name TRANSFER_KIND_POOL_RESHARD = ''TRANSFER_KIND_POOL_RESHARD''"
| "TransferKind_Name TRANSFER_KIND_WEIGHT_SYNC = ''TRANSFER_KIND_WEIGHT_SYNC''"
| "TransferKind_Name (OtherKind n) = []"

definition check_step :: "int \<Rightarrow> TransferStep \<Rightarrow> status" where
  "check_step groups step =
     (if length (extents step) \<noteq> 1 then
        InvalidArgumentError (''pool-reshard steps carry exactly one extent, got '' @ dec (int (length (extents step))))
      else if space (step_src step) \<noteq> None \<or> space (step_dst step) \<noteq> None then
        InvalidArgumentError (''pool-reshard steps address blocks through their fan-in group '' @
          ''scope; MemoryRef.space must be unset'')
      else case step_group step of
        None \<Rightarrow> OkStatus
      | Some g \<Rightarrow>
          if g < 0 \<or> g \<ge> groups then
            InvalidArgumentError (''step group '' @ dec g @ '' out of range [0, '' @ dec groups @ '')'')
          else OkStatus)"

definition NormalizeReshardProgram :: "TransferProgramRequest \<Rightarrow> ReshardLoweringClass status_or" where
  "NormalizeReshardProgram q =
     (case completion q of
        kAwaitInline \<Rightarrow> UnimplementedError (''AwaitInline transfer programs are not supported by the '' @
          ''pool-reshard worker entry'')
      | kBarrier round_id census \<Rightarrow> UnimplementedError (''Barrier transfer programs are not supported by the pool-reshard '' @
          ''worker entry'')
      | ModeNotSet \<Rightarrow> InvalidArgumentError ''transfer program carries no completion contract''
      | kFanIn fan_in \<Rightarrow>
          if kind (envelope q) \<noteq> TRANSFER_KIND_POOL_RESHARD \<and> kind (envelope q) \<noteq> TRANSFER_KIND_UNSPECIFIED then
            InvalidArgumentError (''fan-in transfer program carries inconsistent kind '' @
              TransferKind_Name (kind (envelope q)))
          else if fan_in_groups fan_in = [] then
            InvalidArgumentError ''pool-reshard program declares no fan-in groups''
          else if bind_pool_indices (reshard q) = [] then
            InvalidArgumentError ''pool-reshard program names no transfer pool indices''
          else if steps q = [] then InvalidArgumentError ''pool-reshard program has no steps''
          else and_then (check_each (check_step (int (length (fan_in_groups fan_in)))) (steps q)) (\<lambda>_.
            case role (envelope q) of
              TRANSFER_ROLE_SENDER \<Rightarrow> Inr kPoolReshardSender
            | TRANSFER_ROLE_RECEIVER_ARM \<Rightarrow> Inr kPoolReshardArm
            | TRANSFER_ROLE_LOCAL_COPY \<Rightarrow> UnimplementedError (''LOCAL_COPY transfer programs are not supported by the '' @
                ''pool-reshard worker entry'')
            | _ \<Rightarrow> InvalidArgumentError ''pool-reshard program carries no role''))"

section \<open>Lowering\<close>

definition CheckInt32 :: "int \<Rightarrow> string \<Rightarrow> status" where
  "CheckInt32 v what =
     (if v < - 2147483648 \<or> v > 2147483647 then InvalidArgumentError (what @ '' '' @ dec v @ '' overflows int32'')
      else OkStatus)"

definition lower_step ::
  "(int, ShardPushEntryProto list) amap \<Rightarrow> TransferStep \<Rightarrow> (int, ShardPushEntryProto list) amap status_or" where
  "lower_step out step =
     (case extents step of
        [ext] \<Rightarrow>
          and_then (CheckInt32 (ref_block_id (step_src step)) ''src block id'') (\<lambda>_.
          and_then (CheckInt32 (ref_block_id (step_dst step)) ''dst block id'') (\<lambda>_.
          let entry = \<lparr>push_dst_peer = step_dst_peer step, push_dst_shard_idx = step_dst_shard_idx step,
                push_dst_offset = ext_dst_offset ext, push_src_offset = ext_src_offset ext, push_size = ext_size ext,
                push_src_block = ref_block_id (step_src step), push_dst_block = ref_block_id (step_dst step),
                push_src_stride = ext_src_stride ext, push_dst_stride = ext_dst_stride ext, push_count = ext_count ext,
                push_layer_idx = step_layer_idx step, push_pool_group = step_group step\<rparr>;
              old = (case map_of out (source_rank step) of None \<Rightarrow> [] | Some es \<Rightarrow> es)
          in Inr (put (source_rank step) (old @ [entry]) out)))
      | _ \<Rightarrow> InvalidArgumentError ''pool-reshard steps carry exactly one extent'')"

definition lower_group :: "FanInGroup \<Rightarrow> PoolGroupProto" where
  "lower_group g =
     \<lparr>pg_pool_indices = fg_pool_indices g, pg_dst_device_block_ids = fg_dst_device_block_ids g,
      pg_expected_pushes = fg_expected_pushes g, pg_dst_expected_extent_bytes = fg_dst_expected_extent_bytes g,
      pg_order_rank = fg_order_rank g\<rparr>"

definition LowerToStartTransfer :: "TransferProgramRequest \<Rightarrow> StartTransferRequest status_or" where
  "LowerToStartTransfer q =
     (case completion q of
        kFanIn fan_in \<Rightarrow>
          and_then (foldM lower_step [] (steps q)) (\<lambda>schedules. Inr
            \<lparr>st_src_units = bind_src_units (reshard q), st_dst_units = bind_dst_units (reshard q),
             shard_push_schedules = schedules, st_uuid = sint (env_uuid (envelope q)),
             is_sender = (role (envelope q) = TRANSFER_ROLE_SENDER),
             dst_mem_type = pol_dst_mem_type (policy q), use_block_chunks = pol_use_block_chunks (policy q),
             expected_block_count = fan_in_block_count fan_in, st_req_id = env_req_id (envelope q),
             pool_dtype_tags = bind_dtype_tags (reshard q), transfer_pool_indices = bind_pool_indices (reshard q),
             st_parallelism = pol_parallelism (policy q), skip_d2h = pol_skip_d2h (policy q),
             pool_groups_pb = map lower_group (fan_in_groups fan_in), skip_tiling = copy_map (pol_skip_tiling (policy q)),
             expected_layer_chunk_counts = []\<rparr>)
      | _ \<Rightarrow> InvalidArgumentError ''only fan-in programs lower to StartTransferRequest'')"

section \<open>Block ids\<close>

definition DeriveSenderSourceBlockIds :: "StartTransferRequest \<Rightarrow> int list" where
  "DeriveSenderSourceBlockIds r =
     sort (remdups (concat (map (\<lambda>(key, es). map push_src_block es) (shard_push_schedules r))))"

definition DeriveArmChipBlockIds :: "StartTransferRequest \<Rightarrow> int list" where
  "DeriveArmChipBlockIds r = concat (map pg_dst_device_block_ids (pool_groups_pb r))"

section \<open>What survives compilation\<close>

lemma put_fresh: "k \<notin> set (keys m) \<Longrightarrow> put k v m = m @ [(k, v)]"
  by (induction m) auto

lemma put_last: "k \<notin> set (keys m) \<Longrightarrow> put k v (m @ [(k, w)]) = m @ [(k, v)]"
  by (induction m) auto

lemma copy_map_ok [simp]: "amap_ok m \<Longrightarrow> copy_map m = m"
proof -
  have "amap_ok (out @ m) \<Longrightarrow> foldl (\<lambda>out (k, v). put k v out) out m = out @ m" for out
    by (induction m arbitrary: out) (auto simp: put_fresh)
  then show "amap_ok m \<Longrightarrow> copy_map m = m" by (simp add: copy_map_def)
qed

definition is_int32 :: "int \<Rightarrow> bool" where
  "is_int32 v \<longleftrightarrow> - 2147483648 \<le> v \<and> v \<le> 2147483647"

definition entry_int32 :: "ShardPushEntryProto \<Rightarrow> bool" where
  "entry_int32 e \<longleftrightarrow> is_int32 (push_src_block e) \<and> is_int32 (push_dst_block e)"

lemma lower_compiled_groups [simp]: "map (lower_group \<circ> compile_group) gs = gs"
  by (rule map_idI) (simp add: lower_group_def compile_group_def)

lemma lower_compiled:
  "entry_int32 e \<Longrightarrow> lower_step out (compile_entry rank e) =
     Inr (put rank ((case map_of out rank of None \<Rightarrow> [] | Some es \<Rightarrow> es) @ [e]) out)"
  by (cases e) (simp add: lower_step_def compile_entry_def block_ref_def CheckInt32_def entry_int32_def is_int32_def)

lemma lower_rank_from:
  "list_all entry_int32 es \<Longrightarrow> rank \<notin> set (keys out) \<Longrightarrow>
   foldM lower_step (out @ [(rank, old)]) (map (compile_entry rank) es) = Inr (out @ [(rank, old @ es)])"
proof (induction es arbitrary: old)
  case (Cons e es)
  have "map_of (out @ [(rank, old)]) rank = Some old"
    using Cons.prems(2) by (simp add: map_add_Some_iff map_of_eq_None_iff)
  then show ?case using Cons by (simp add: lower_compiled put_last)
qed simp

lemma lower_rank:
  assumes "list_all entry_int32 es" "rank \<notin> set (keys out)"
  shows "foldM lower_step out (map (compile_entry rank) es) = Inr (out @ (if es = [] then [] else [(rank, es)]))"
proof (cases es)
  case (Cons e rest)
  moreover from assms(2) have "map_of out rank = None" by (simp add: map_of_eq_None_iff)
  ultimately show ?thesis using assms lower_rank_from [of rest rank out "[e]"] by (simp add: lower_compiled put_fresh)
qed simp

lemma lower_ranks:
  assumes "distinct (keys out @ ks)" "\<forall>k\<in>set ks. list_all entry_int32 (f k)"
  shows "foldM lower_step out (concat (map (\<lambda>k. map (compile_entry k) (f k)) ks)) =
    Inr (out @ map (\<lambda>k. (k, f k)) (filter (\<lambda>k. f k \<noteq> []) ks))"
  using assms
proof (induction ks arbitrary: out)
  case (Cons k ks)
  then have "foldM lower_step out (map (compile_entry k) (f k)) = Inr (out @ (if f k = [] then [] else [(k, f k)]))"
    by (intro lower_rank) auto
  then show ?case using Cons by (auto simp: foldM_append)
qed simp

text \<open>
  The request a worker gets back: the schedules in rank order without the empty ones, and no
  per-layer chunk counts.
\<close>

definition delivered :: "StartTransferRequest \<Rightarrow> StartTransferRequest" where
  "delivered r = r\<lparr>shard_push_schedules := map (\<lambda>k. (k, the (map_of (shard_push_schedules r) k)))
       (filter (\<lambda>k. the (map_of (shard_push_schedules r) k) \<noteq> []) (sort (keys (shard_push_schedules r)))),
     expected_layer_chunk_counts := []\<rparr>"

text \<open>Fields in the range of their wire types and maps without duplicate keys.\<close>

definition request_ok :: "StartTransferRequest \<Rightarrow> bool" where
  "request_ok r \<longleftrightarrow> is_int64 (st_uuid r) \<and> amap_ok (shard_push_schedules r) \<and> amap_ok (skip_tiling r) \<and>
     (\<forall>(k, es)\<in>set (shard_push_schedules r). list_all entry_int32 es)"

lemma lower_compiled_steps:
  assumes "request_ok r"
  shows "foldM lower_step [] (compile_steps (shard_push_schedules r)) = Inr (shard_push_schedules (delivered r))"
proof -
  have "list_all entry_int32 (the (map_of (shard_push_schedules r) k))" if "k \<in> set (keys (shard_push_schedules r))" for k
  proof -
    have "map_of (shard_push_schedules r) k \<noteq> None" unfolding map_of_eq_None_iff using that by simp
    then obtain es where es: "map_of (shard_push_schedules r) k = Some es" by blast
    from map_of_SomeD [OF es] have "list_all entry_int32 es" using assms unfolding request_ok_def by blast
    then show ?thesis using es by simp
  qed
  then show ?thesis using assms lower_ranks [of "[]" "sort (keys (shard_push_schedules r))" "\<lambda>k. the (map_of (shard_push_schedules r) k)"]
    by (simp add: compile_steps_def delivered_def request_ok_def)
qed

lemma delivered_schedule:
  assumes "amap_ok (shard_push_schedules r)"
  shows "map_of (shard_push_schedules (delivered r)) k =
    (if map_of (shard_push_schedules r) k = Some [] then None else map_of (shard_push_schedules r) k)"
proof -
  let ?m = "shard_push_schedules r"
  have ks: "k \<in> set (keys ?m) \<longleftrightarrow> map_of ?m k \<noteq> None" by (simp add: map_of_eq_None_iff)
  have "map_of (map (\<lambda>k. (k, the (map_of ?m k))) (filter (\<lambda>k. the (map_of ?m k) \<noteq> []) (sort (keys ?m)))) k =
      (if k \<in> set (keys ?m) \<and> the (map_of ?m k) \<noteq> [] then Some (the (map_of ?m k)) else None)"
    by (auto simp: map_of_map_restrict restrict_map_def)
  then show ?thesis using ks by (auto simp: delivered_def)
qed

lemma delivered_set:
  assumes "amap_ok (shard_push_schedules r)"
  shows "set (shard_push_schedules (delivered r)) = {p \<in> set (shard_push_schedules r). snd p \<noteq> []}"
proof (rule set_eqI)
  have ok: "amap_ok (shard_push_schedules (delivered r))" using assms by (simp add: delivered_def comp_def)
  show "p \<in> set (shard_push_schedules (delivered r)) \<longleftrightarrow> p \<in> {p \<in> set (shard_push_schedules r). snd p \<noteq> []}" for p
    using mem_amap_iff [OF assms, of "fst p" "snd p"] mem_amap_iff [OF ok, of "fst p" "snd p"] delivered_schedule [OF assms, of "fst p"]
    by auto
qed

lemma check_compiled: "check_step groups (compile_entry rank e) = OkStatus \<longleftrightarrow>
    (case push_pool_group e of None \<Rightarrow> True | Some g \<Rightarrow> 0 \<le> g \<and> g < groups)"
  by (auto simp: check_step_def compile_entry_def block_ref_def split: option.splits)

definition all_entries :: "StartTransferRequest \<Rightarrow> ShardPushEntryProto list" where
  "all_entries r = concat (map snd (shard_push_schedules r))"

lemma set_compile_steps:
  assumes "amap_ok m"
  shows "set (compile_steps m) = (\<Union>p\<in>set m. compile_entry (fst p) ` set (snd p))"
proof -
  have "the (map_of m (fst p)) = snd p" if "p \<in> set m" for p
    using map_of_eq_Some_iff [OF assms, of "fst p" "snd p"] that by simp
  then show ?thesis by (simp add: compile_steps_def)
qed

lemma normalize_compiled:
  assumes "CompileStartTransfer r = Inr q" "amap_ok (shard_push_schedules r)"
  shows "NormalizeReshardProgram q = Inr c \<longleftrightarrow>
    c = (if is_sender r then kPoolReshardSender else kPoolReshardArm) \<and>
    pool_groups_pb r \<noteq> [] \<and> transfer_pool_indices r \<noteq> [] \<and> all_entries r \<noteq> [] \<and>
    (\<forall>e\<in>set (all_entries r). case push_pool_group e of None \<Rightarrow> True
       | Some g \<Rightarrow> 0 \<le> g \<and> g < int (length (pool_groups_pb r)))"
proof -
  have st: "steps q = compile_steps (shard_push_schedules r)" using assms(1) by (auto simp: CompileStartTransfer_def split: if_splits)
  note sets = set_compile_steps [OF assms(2)]
  have "steps q = [] \<longleftrightarrow> set (steps q) = {}" by simp
  then have 1: "steps q = [] \<longleftrightarrow> all_entries r = []" unfolding st sets by (auto simp: all_entries_def)
  have 2: "check_each (check_step (int (length (pool_groups_pb r)))) (steps q) = OkStatus \<longleftrightarrow>
      (\<forall>e\<in>set (all_entries r). case push_pool_group e of None \<Rightarrow> True
       | Some g \<Rightarrow> 0 \<le> g \<and> g < int (length (pool_groups_pb r)))"
    unfolding check_each_ok st sets by (force simp: check_compiled all_entries_def)
  show ?thesis using assms(1) 1 2
    by (auto simp: CompileStartTransfer_def NormalizeReshardProgram_def and_then_Inr_iff split: if_splits)
qed

text \<open>
  Equality of two messages: every field, with the three map fields compared as maps, since a
  protobuf map has no order.
\<close>

definition same_message :: "StartTransferRequest \<Rightarrow> StartTransferRequest \<Rightarrow> bool" where
  "same_message a b \<longleftrightarrow>
     a\<lparr>shard_push_schedules := [], skip_tiling := [], expected_layer_chunk_counts := []\<rparr> =
       b\<lparr>shard_push_schedules := [], skip_tiling := [], expected_layer_chunk_counts := []\<rparr> \<and>
     map_of (shard_push_schedules a) = map_of (shard_push_schedules b) \<and>
     map_of (skip_tiling a) = map_of (skip_tiling b) \<and>
     map_of (expected_layer_chunk_counts a) = map_of (expected_layer_chunk_counts b)"

lemma same_delivered:
  assumes "request_ok r"
  shows "same_message (delivered r) r \<longleftrightarrow> [] \<notin> snd ` set (shard_push_schedules r) \<and> expected_layer_chunk_counts r = []"
proof -
  have ok: "amap_ok (shard_push_schedules r)" using assms by (simp add: request_ok_def)
  have "map_of (shard_push_schedules (delivered r)) = map_of (shard_push_schedules r) \<longleftrightarrow>
      (\<forall>k. map_of (shard_push_schedules r) k \<noteq> Some [])"
    unfolding fun_eq_iff delivered_schedule [OF ok] by (metis option.distinct(1))
  also have "\<dots> \<longleftrightarrow> [] \<notin> snd ` set (shard_push_schedules r)" using ok by (force simp: map_of_eq_Some_iff)
  finally have "map_of (shard_push_schedules (delivered r)) = map_of (shard_push_schedules r) \<longleftrightarrow>
      [] \<notin> snd ` set (shard_push_schedules r)" .
  moreover have "map_of ([] :: (int, int) amap) = map_of (expected_layer_chunk_counts r) \<longleftrightarrow> expected_layer_chunk_counts r = []"
    by (metis map_of_eq_empty_iff map_of.simps(1))
  ultimately show ?thesis by (auto simp: same_message_def delivered_def)
qed


definition example_push :: ShardPushEntryProto where
  "example_push = \<lparr>push_dst_peer = ''d:1'', push_dst_shard_idx = 0, push_dst_offset = 4, push_src_offset = 2,
     push_size = 2, push_src_block = 1, push_dst_block = 5, push_src_stride = 0, push_dst_stride = 0, push_count = 1,
     push_layer_idx = Some 0, push_pool_group = Some 0\<rparr>"

definition example_start :: StartTransferRequest where
  "example_start = \<lparr>st_src_units = [], st_dst_units = [], shard_push_schedules = [(1, []), (0, [example_push])],
     st_uuid = -5, is_sender = True, dst_mem_type = 2, use_block_chunks = True, expected_block_count = 1,
     st_req_id = ''q'', pool_dtype_tags = [''bf16''], transfer_pool_indices = [0], st_parallelism = 1,
     skip_d2h = Some False, pool_groups_pb = [\<lparr>pg_pool_indices = [0], pg_dst_device_block_ids = [5],
     pg_expected_pushes = 1, pg_dst_expected_extent_bytes = [4], pg_order_rank = 0\<rparr>],
     skip_tiling = [], expected_layer_chunk_counts = [(0, 7)]\<rparr>"


end
