(* ===== verification/Coordinator.thy ===== *)
theory Coordinator
  imports PlanShape TransferProgram
begin

text \<open>
  The coordinator of a pool reshard (\<open>kv_cache/reshard/reshard_coordinator.cc\<close>): the messages it
  builds from a plan, and \<open>StartPoolReshard\<close>, which validates the arguments, collects metadata,
  plans under a fresh claim, arms the receiver and dispatches the senders. The wire codec, the
  framed transport and the controller's \<open>SubmitTransferProgram\<close> are parameters; what they answer may
  depend on everything sent before. The sender threads run in an order the scheduler chooses, and
  other threads may use the registry while the receiver is being armed. The milestone line on
  standard error and the clock readings that only feed it are left out.
\<close>

section \<open>Messages of a plan\<close>

definition entry_to_proto :: "ScheduleEntry \<Rightarrow> ShardPushEntryProto" where
  "entry_to_proto e =
     \<lparr>push_dst_peer = entry_dst_peer e, push_dst_shard_idx = entry_dst_shard_idx e,
      push_dst_offset = entry_dst_offset e, push_src_offset = entry_src_offset e, push_size = entry_size e,
      push_src_block = int32 (entry_src_block e), push_dst_block = int32 (entry_dst_block e),
      push_src_stride = entry_src_stride e, push_dst_stride = entry_dst_stride e, push_count = entry_count e,
      push_layer_idx = Some (entry_layer_idx e), push_pool_group = Some (entry_pool_group e)\<rparr>"

definition group_to_proto :: "PlanPoolGroup \<Rightarrow> PoolGroupProto" where
  "group_to_proto g =
     \<lparr>pg_pool_indices = map int (group_pool_indices g), pg_dst_device_block_ids = group_dst_block_ids g,
      pg_expected_pushes = group_expected_pushes g, pg_dst_expected_extent_bytes = group_extents g,
      pg_order_rank = group_order_rank g\<rparr>"

definition receiver_schedules :: "PoolReshardPlan \<Rightarrow> (int, ShardPushEntryProto list) amap" where
  "receiver_schedules plan =
     foldl (\<lambda>out (src_unit, entries).
       case map_of (plan_schedule_keys plan) src_unit of
         None \<Rightarrow> out
       | Some key \<Rightarrow>
           let filtered = filter (\<lambda>e. entry_dst_peer e = plan_dst_peer plan) entries in
           if filtered = [] then out else put key (map entry_to_proto filtered) out) [] (plan_schedules plan)"

definition sender_schedules :: "PoolReshardPlan \<Rightarrow> RaidenId \<Rightarrow> (int, ShardPushEntryProto list) amap" where
  "sender_schedules plan target =
     (case map_of (plan_schedules plan) target of
        None \<Rightarrow> []
      | Some entries \<Rightarrow> if entries = [] then [] else [(0, map entry_to_proto entries)])"

definition MEMORY_TYPE_HBM :: int where
  "MEMORY_TYPE_HBM = 2"

definition BuildStartTransferForTarget :: "PoolReshardPlan \<Rightarrow> RaidenId \<Rightarrow> StartTransferRequest" where
  "BuildStartTransferForTarget plan target =
     \<lparr>st_src_units = map RaidenIdToProto (plan_src_units plan), st_dst_units = [RaidenIdToProto (plan_dst_unit plan)],
      shard_push_schedules =
        (if target = plan_dst_unit plan then receiver_schedules plan else sender_schedules plan target),
      st_uuid = plan_uuid plan, is_sender = (target \<in> set (plan_src_units plan)), dst_mem_type = MEMORY_TYPE_HBM,
      use_block_chunks = True, expected_block_count = plan_expected_block_count plan, st_req_id = plan_req_id plan,
      pool_dtype_tags = plan_dtype_tags plan, transfer_pool_indices = map int (plan_pool_indices plan),
      st_parallelism = plan_parallelism plan, skip_d2h = Some (plan_skip_d2h plan),
      pool_groups_pb = map group_to_proto (plan_pool_groups plan), skip_tiling = [],
      expected_layer_chunk_counts = []\<rparr>"

datatype Command =
    COMMAND_UNSPECIFIED | COMMAND_START_TRANSFER | COMMAND_SHUTDOWN | COMMAND_REGISTER_WORK_UNIT
  | COMMAND_GET_METADATA | COMMAND_REGISTER_TRANSFER_SCHEDULE | UnknownCommand int

record ControlRequest =
  command :: Command
  peers :: "string list"
  start_transfer_request :: "StartTransferRequest option"
  register_work_unit_request :: "RegisterWorkUnitRequest option"

record ControlResponse =
  resp_success :: bool
  resp_message :: string
  response_data :: string
  get_metadata_response :: "RegisterWorkUnitRequest list"

record TransferProgramResponse =
  program_success :: bool
  program_message :: string

section \<open>The outside world\<close>

text \<open>A message sent and what came back.\<close>

datatype event =
    Called (called_address: string) (called_payload: string) (called_response: "string status_or")
  | Submitted (worker: string) (submitted: TransferProgramRequest) (submit_response: "TransferProgramResponse status_or")

record world =
  SerializeAsString :: "ControlRequest \<Rightarrow> string"
  ParseFromString :: "string \<Rightarrow> ControlResponse option"
  transport :: "event list \<Rightarrow> string \<Rightarrow> string \<Rightarrow> string status_or"
  controller :: "event list \<Rightarrow> string \<Rightarrow> TransferProgramRequest \<Rightarrow> TransferProgramResponse status_or"
  schedule :: "nat \<Rightarrow> nat list"

datatype WorkerDelivery = DeliverFramed | DeliverController (has_controller: bool)

definition EncodeStartTransfer :: "world \<Rightarrow> PoolReshardPlan \<Rightarrow> RaidenId \<Rightarrow> string" where
  "EncodeStartTransfer w plan target = SerializeAsString w
     \<lparr>command = COMMAND_START_TRANSFER, peers = [plan_dst_peer plan],
      start_transfer_request = Some (BuildStartTransferForTarget plan target), register_work_unit_request = None\<rparr>"

definition call :: "world \<Rightarrow> event list \<Rightarrow> string \<Rightarrow> string \<Rightarrow> string status_or \<times> event list" where
  "call w sent address payload =
     (let response = transport w sent address payload in (response, sent @ [Called address payload response]))"

definition verify_response :: "world \<Rightarrow> string status_or \<Rightarrow> status" where
  "verify_response w response =
     and_then response (\<lambda>bytes.
       case ParseFromString w bytes of
         None \<Rightarrow> InternalError ''Failed to parse worker ControlResponse payload''
       | Some resp \<Rightarrow>
           if \<not> resp_success resp then
             InternalError (''Raiden remote native execution failed: '' @ resp_message resp)
           else OkStatus)"

definition SendWorkerRpc :: "world \<Rightarrow> event list \<Rightarrow> string \<Rightarrow> string \<Rightarrow> status \<times> event list" where
  "SendWorkerRpc w sent address payload =
     (case call w sent address payload of (response, sent') \<Rightarrow> (verify_response w response, sent'))"

definition QueryRemoteMetadata ::
  "world \<Rightarrow> event list \<Rightarrow> string \<Rightarrow> RegisterWorkUnitRequest list status_or \<times> event list" where
  "QueryRemoteMetadata w sent address =
     (case call w sent address (SerializeAsString w \<lparr>command = COMMAND_GET_METADATA, peers = [],
          start_transfer_request = None, register_work_unit_request = None\<rparr>) of (response, sent') \<Rightarrow>
        (and_then response (\<lambda>bytes.
           case ParseFromString w bytes of
             None \<Rightarrow> InternalError ''Failed to parse remote metadata ControlResponse''
           | Some resp \<Rightarrow>
               if \<not> resp_success resp then
                 InternalError (''Failed to query remote metadata: '' @ resp_message resp)
               else Inr (get_metadata_response resp)), sent'))"

section \<open>Dispatching the senders\<close>

text \<open>One sender thread: its slot of \<open>sender_status\<close> is its own.\<close>

definition framed_sender :: "world \<Rightarrow> PoolReshardPlan \<Rightarrow> event list \<times> status list \<Rightarrow> nat \<Rightarrow> event list \<times> status list" where
  "framed_sender w plan acc i =
     (case acc of (sent, sender_status) \<Rightarrow>
        let u = plan_src_units plan ! i in
        case map_of (plan_rpc_addresses plan) u of
          None \<Rightarrow> (sent, sender_status[i := InternalError (''No control endpoint recorded for '' @ PythonRepr u)])
        | Some address \<Rightarrow>
            (case SendWorkerRpc w sent address (EncodeStartTransfer w plan u) of (st, sent') \<Rightarrow>
               (sent', sender_status[i := st])))"

definition dispatch_framed :: "world \<Rightarrow> PoolReshardPlan \<Rightarrow> event list \<Rightarrow> event list \<times> status list" where
  "dispatch_framed w plan sent =
     (let n = length (plan_src_units plan) in foldl (framed_sender w plan) (sent, replicate n OkStatus) (schedule w n))"

definition submit_sender ::
  "world \<Rightarrow> PoolReshardPlan \<Rightarrow> event list \<times> status list \<times> TransferProgramResponse status_or list \<Rightarrow> nat \<Rightarrow>
   event list \<times> status list \<times> TransferProgramResponse status_or list" where
  "submit_sender w plan acc i =
     (case acc of (sent, sender_status, futures) \<Rightarrow>
        let u = plan_src_units plan ! i in
        case map_of (plan_schedule_keys plan) u of
          None \<Rightarrow> (sent, sender_status[i := InternalError (''No schedule key assigned for '' @ PythonRepr u)], futures)
        | Some key \<Rightarrow>
            (case CompileStartTransfer (BuildStartTransferForTarget plan u) of
               Inl e \<Rightarrow> (sent, sender_status[i := Inl e], futures)
             | Inr compiled \<Rightarrow>
                 let worker_id = ''worker_'' @ dec key; response = controller w sent worker_id compiled
                 in (sent @ [Submitted worker_id compiled response], sender_status, futures @ [response])))"

text \<open>The loop over the futures writes slot \<open>i\<close> from future \<open>i\<close>.\<close>

definition await_future :: "status list \<Rightarrow> nat \<times> TransferProgramResponse status_or \<Rightarrow> status list" where
  "await_future sender_status f =
     (case f of (i, Inl e) \<Rightarrow> sender_status[i := Inl e]
      | (i, Inr resp) \<Rightarrow>
          if \<not> program_success resp then
            sender_status[i := InternalError (''Raiden remote native execution failed: '' @ program_message resp)]
          else sender_status)"

definition dispatch_controller :: "world \<Rightarrow> PoolReshardPlan \<Rightarrow> event list \<Rightarrow> event list \<times> status list" where
  "dispatch_controller w plan sent =
     (let n = length (plan_src_units plan) in
      case foldl (submit_sender w plan) (sent, replicate n OkStatus, []) [0..<n] of (sent', sender_status, futures) \<Rightarrow>
        (sent', foldl await_future sender_status (enumerate 0 futures)))"

section \<open>The coordinator\<close>

record PoolReshardArgs =
  args_src_units :: "RaidenId list"
  args_dst_units :: "RaidenId list"
  args_req_id :: string
  args_dst_device_block_ids :: "int list"
  has_dst_device_block_ids :: bool
  args_use_block_chunks :: bool
  args_dst_mem_type :: int
  dst_controller_address :: string
  args_uuid :: int
  args_is_sender :: bool
  args_num_tokens :: "int option"
  args_transfer_pool_tags :: "string list"
  args_parallelism :: "int option"
  args_skip_d2h :: bool
  args_dst_block_counts :: "int list"
  args_dst_skip_bytes :: "int list"

datatype TransferStatus = kNotStarted | kInProgress | kCompleted | kFailed

record ReshardCoordinator =
  coord_registry :: RequestBlockRegistry
  transfer_status :: "(string, TransferStatus) amap"
  claim_counter :: nat
  sent :: "event list"

definition check_args :: "PoolReshardArgs \<Rightarrow> status" where
  "check_args args =
     (if args_src_units args = [] then InvalidArgumentError ''src_units must not be empty''
      else if args_dst_units args = [] then InvalidArgumentError ''dst_units must not be empty''
      else if args_req_id args = [] then InvalidArgumentError ''req_id must not be empty for pool resharding''
      else if \<not> has_dst_device_block_ids args then
        InvalidArgumentError ''dst_device_block_ids are required for pool resharding''
      else if value_or (args_num_tokens args) 0 < 0 then
        InvalidArgumentError ''num_tokens must be non-negative for pool resharding''
      else if args_transfer_pool_tags args = [] then
        InvalidArgumentError (''transfer_pool_tags must name the pools to move for pool '' @ ''resharding'')
      else if \<not> args_use_block_chunks args then
        InvalidArgumentError ''Pool resharding requires use_block_chunks=true''
      else if args_dst_mem_type args \<noteq> MEMORY_TYPE_HBM then
        InvalidArgumentError ''Pool resharding requires dst_mem_type=HBM''
      else case args_parallelism args of
        Some p \<Rightarrow> if p \<le> 0 then InvalidArgumentError ''parallelism must be positive'' else OkStatus
      | None \<Rightarrow> OkStatus)"

definition plan_request_of ::
  "PoolReshardArgs \<Rightarrow> RegisterWorkUnitRequest list \<Rightarrow> RegisterWorkUnitRequest list \<Rightarrow> int \<Rightarrow> PlanRequest" where
  "plan_request_of args src_meta dst_meta uid =
     \<lparr>src_units = args_src_units args, dst_units = args_dst_units args, src_metadata = src_meta, dst_metadata = dst_meta,
      req_id = args_req_id args, uuid = uid, dst_device_block_ids = args_dst_device_block_ids args,
      num_tokens = value_or (args_num_tokens args) 0, transfer_pool_tags = args_transfer_pool_tags args,
      parallelism = args_parallelism args, dst_block_counts = args_dst_block_counts args,
      dst_skip_bytes = args_dst_skip_bytes args\<rparr>"

text \<open>The metadata of both sides; the remote query is the only message of this stage.\<close>

definition collect_metadata ::
  "world \<Rightarrow> WorkUnitDirectory \<Rightarrow> event list \<Rightarrow> PoolReshardArgs \<Rightarrow>
   (RegisterWorkUnitRequest list \<times> RegisterWorkUnitRequest list) status_or \<times> event list" where
  "collect_metadata w d trace args =
     (case LocalMetadata d (args_src_units args) of
        Inl e \<Rightarrow> (Inl e, trace)
      | Inr src_meta \<Rightarrow>
          (case (if dst_controller_address args \<noteq> [] then QueryRemoteMetadata w trace (dst_controller_address args)
                 else (LocalMetadata d (args_dst_units args), trace)) of
             (Inl e, trace') \<Rightarrow> (Inl e, trace')
           | (Inr dst_meta, trace') \<Rightarrow> (Inr (src_meta, dst_meta), trace')))"

text \<open>
  What other threads do to the registry after the claim: during planning and while the receiver
  is being armed.
\<close>

record interference =
  while_planning :: "lifecycle_op list"
  while_arming :: "lifecycle_op list"

definition abandon :: "string \<Rightarrow> int \<Rightarrow> nat \<Rightarrow> ReshardCoordinator \<Rightarrow> ReshardCoordinator" where
  "abandon r uid owner c = c\<lparr>coord_registry := snd (AbandonClaim (coord_registry c) r uid owner)\<rparr>"

definition interfere :: "lifecycle_op list \<Rightarrow> ReshardCoordinator \<Rightarrow> ReshardCoordinator" where
  "interfere ops c = c\<lparr>coord_registry := lifecycle_run (coord_registry c) ops\<rparr>"

definition dispatch ::
  "world \<Rightarrow> WorkerDelivery \<Rightarrow> PoolReshardPlan \<Rightarrow> string \<Rightarrow> int \<Rightarrow> nat \<Rightarrow> ReshardCoordinator \<Rightarrow> status \<times> ReshardCoordinator" where
  "dispatch w delivery plan r uid owner c =
     (case delivery of
        DeliverController False \<Rightarrow>
          (InternalError ''WorkerDelivery::Mode::kController requires a non-null controller'', abandon r uid owner c)
      | DeliverController True \<Rightarrow>
          (case dispatch_controller w plan (sent c) of (trace, sender_status) \<Rightarrow>
             (check_each (\<lambda>st. st) sender_status, c\<lparr>sent := trace\<rparr>))
      | DeliverFramed \<Rightarrow>
          (case dispatch_framed w plan (sent c) of (trace, sender_status) \<Rightarrow>
             (check_each (\<lambda>st. st) sender_status, c\<lparr>sent := trace\<rparr>)))"

definition arm_and_dispatch ::
  "world \<Rightarrow> WorkerDelivery \<Rightarrow> interference \<Rightarrow> PoolReshardPlan \<Rightarrow> string \<Rightarrow> int \<Rightarrow> nat \<Rightarrow> ReshardCoordinator \<Rightarrow>
   status \<times> ReshardCoordinator" where
  "arm_and_dispatch w delivery others plan r uid owner c =
     (case map_of (plan_rpc_addresses plan) (plan_dst_unit plan) of
        None \<Rightarrow> (InternalError (''No control endpoint recorded for '' @ PythonRepr (plan_dst_unit plan)), abandon r uid owner c)
      | Some address \<Rightarrow>
          (case SendWorkerRpc w (sent c) address (EncodeStartTransfer w plan (plan_dst_unit plan)) of (st, trace) \<Rightarrow>
             let c1 = interfere (while_arming others) (c\<lparr>sent := trace\<rparr>) in
             case st of Inl e \<Rightarrow> (Inl e, abandon r uid owner c1)
             | Inr _ \<Rightarrow> dispatch w delivery plan r uid owner c1))"

definition ExecutePoolReshard ::
  "world \<Rightarrow> WorkUnitDirectory \<Rightarrow> WorkerDelivery \<Rightarrow> real \<Rightarrow> int \<Rightarrow> interference \<Rightarrow> ReshardCoordinator \<Rightarrow> PoolReshardArgs \<Rightarrow>
   status \<times> ReshardCoordinator" where
  "ExecutePoolReshard w d delivery now random others c args =
     (if \<not> args_is_sender args then
        (InvalidArgumentError (''Pool reshard coordination must target the source controller: '' @
           ''the consumer coordinates with src_controller_address directly '' @
           ''(the destination-side relay is retired)''), c)
      else case collect_metadata w d (sent c) args of
        (Inl e, trace) \<Rightarrow> (Inl e, c\<lparr>sent := trace\<rparr>)
      | (Inr (src_meta, dst_meta), trace) \<Rightarrow>
          let uid = (if args_uuid args \<le> 0 then random else args_uuid args);
              owner = claim_counter c;
              built = BuildPoolReshardPlan (coord_registry c) now (plan_request_of args src_meta dst_meta uid) owner;
              c1 = interfere (while_planning others)
                     (c\<lparr>sent := trace, claim_counter := Suc owner, coord_registry := snd built\<rparr>)
          in case fst built of
               Inl e \<Rightarrow> (Inl e, abandon (args_req_id args) uid owner c1)
             | Inr plan \<Rightarrow>
                 arm_and_dispatch w delivery others (plan\<lparr>plan_skip_d2h := args_skip_d2h args\<rparr>)
                   (args_req_id args) uid owner c1)"

definition StartPoolReshard ::
  "world \<Rightarrow> WorkUnitDirectory \<Rightarrow> WorkerDelivery \<Rightarrow> real \<Rightarrow> int \<Rightarrow> interference \<Rightarrow> ReshardCoordinator \<Rightarrow> PoolReshardArgs \<Rightarrow>
   status \<times> ReshardCoordinator" where
  "StartPoolReshard w d delivery now random others c args =
     (case check_args args of
        Inl e \<Rightarrow> (Inl e, c)
      | Inr _ \<Rightarrow>
          let c1 = c\<lparr>transfer_status := put (args_req_id args) kInProgress (transfer_status c)\<rparr>;
              res = ExecutePoolReshard w d delivery now random others c1 args
          in (fst res, (snd res)\<lparr>transfer_status := put (args_req_id args)
                (if fst res = OkStatus then kCompleted else kFailed) (transfer_status (snd res))\<rparr>))"

definition GetTransferStatus :: "ReshardCoordinator \<Rightarrow> string \<Rightarrow> TransferStatus" where
  "GetTransferStatus c r = (case map_of (transfer_status c) r of None \<Rightarrow> kNotStarted | Some st \<Rightarrow> st)"

section \<open>What the messages carry\<close>

lemma foldl_put_fresh:
  assumes "distinct (keys acc @ map (\<lambda>p. f (fst p)) m)"
  shows "foldl (\<lambda>out (u, es). put (f u) (g es) out) acc m = acc @ map (\<lambda>(u, es). (f u, g es)) m"
  using assms
proof (induction m arbitrary: acc)
  case (Cons p m)
  obtain u es where p: "p = (u, es)" by (cases p)
  have "put (f u) (g es) acc = acc @ [(f u, g es)]" using Cons.prems by (intro put_fresh) (auto simp: p)
  then show ?case using Cons.IH [of "acc @ [(f u, g es)]"] Cons.prems by (simp add: p)
qed simp

lemma foldl_cong_set: "(\<And>out x. x \<in> set xs \<Longrightarrow> f out x = g out x) \<Longrightarrow> foldl f acc xs = foldl g acc xs"
  by (induction xs arbitrary: acc) auto

text \<open>The number of a source unit.\<close>

definition ordinal :: "PoolReshardPlan \<Rightarrow> RaidenId \<Rightarrow> int" where
  "ordinal plan u = the (map_of (plan_schedule_keys plan) u)"

lemma ordinal_nth: "well_formed plan \<Longrightarrow> i < length (plan_src_units plan) \<Longrightarrow> ordinal plan (plan_src_units plan ! i) = int i"
  by (simp add: well_formed_def ordinal_def)

lemma ordinal_inj: "well_formed plan \<Longrightarrow> inj_on (ordinal plan) (set (plan_src_units plan))"
  by (rule inj_onI) (auto simp: in_set_conv_nth ordinal_nth)

lemma schedule_units:
  assumes "well_formed plan" "p \<in> set (plan_schedules plan)"
  shows "fst p \<in> set (plan_src_units plan) \<and> map_of (plan_schedules plan) (fst p) = Some (snd p)"
proof -
  have ok: "amap_ok (plan_schedules plan)" "set (plan_src_units plan) = dom (map_of (plan_schedules plan))"
    using assms(1) unfolding well_formed_def by blast+
  have "map_of (plan_schedules plan) (fst p) = Some (snd p)"
    using mem_amap_iff [OF ok(1), of "fst p" "snd p"] assms(2) unfolding prod.collapse by blast
  then show ?thesis unfolding ok(2) by blast
qed

lemma well_formed_entries:
  "well_formed plan \<Longrightarrow> map_of (plan_schedules plan) u = Some es \<Longrightarrow>
   es \<noteq> [] \<and> (\<forall>e\<in>set es. entry_ok (length (plan_pool_groups plan)) (plan_dst_peer plan) e)"
  unfolding well_formed_def by blast

lemma well_formed_key:
  assumes "well_formed plan" "u \<in> set (plan_src_units plan)"
  shows "map_of (plan_schedule_keys plan) u = Some (ordinal plan u)"
proof -
  have "u \<in> dom (map_of (plan_schedule_keys plan))" using assms unfolding well_formed_def by blast
  then show ?thesis by (auto simp: ordinal_def)
qed

lemma receiver_schedules_eq:
  assumes "well_formed plan"
  shows "receiver_schedules plan = map (\<lambda>(u, es). (ordinal plan u, map entry_to_proto es)) (plan_schedules plan)"
    "amap_ok (receiver_schedules plan)"
proof -
  have "(case x of (src_unit, entries) \<Rightarrow> case map_of (plan_schedule_keys plan) src_unit of None \<Rightarrow> out
       | Some key \<Rightarrow> let filtered = filter (\<lambda>e. entry_dst_peer e = plan_dst_peer plan) entries in
           if filtered = [] then out else put key (map entry_to_proto filtered) out) =
      (case x of (u, es) \<Rightarrow> put (ordinal plan u) (map entry_to_proto es) out)"
    if x: "x \<in> set (plan_schedules plan)" for x out
  proof -
    obtain u es where p: "x = (u, es)" by (cases x)
    note u = schedule_units [OF assms x]
    have "es \<noteq> [] \<and> (\<forall>e\<in>set es. entry_ok (length (plan_pool_groups plan)) (plan_dst_peer plan) e)"
      using well_formed_entries [OF assms, of u es] u by (simp add: p)
    then have "es \<noteq> []" "filter (\<lambda>e. entry_dst_peer e = plan_dst_peer plan) es = es"
      by (auto simp: entry_ok_def filter_id_conv)
    moreover have "map_of (plan_schedule_keys plan) u = Some (ordinal plan u)"
      using well_formed_key [OF assms, of u] u by (simp add: p)
    ultimately show ?thesis by (simp add: p)
  qed
  then have "receiver_schedules plan = foldl (\<lambda>out (u, es). put (ordinal plan u) (map entry_to_proto es) out) [] (plan_schedules plan)"
    unfolding receiver_schedules_def by (intro foldl_cong_set) auto
  moreover have d: "distinct (map (\<lambda>p. ordinal plan (fst p)) (plan_schedules plan))"
  proof -
    have "distinct (map (ordinal plan) (keys (plan_schedules plan)))"
      unfolding distinct_map [of "ordinal plan"]
    proof
      show "amap_ok (plan_schedules plan)" using assms unfolding well_formed_def by blast
      have "set (keys (plan_schedules plan)) \<subseteq> set (plan_src_units plan)" using schedule_units [OF assms] by auto
      then show "inj_on (ordinal plan) (set (keys (plan_schedules plan)))" by (rule inj_on_subset [OF ordinal_inj [OF assms]])
    qed
    then show ?thesis by (simp add: comp_def)
  qed
  ultimately show eq: "receiver_schedules plan = map (\<lambda>(u, es). (ordinal plan u, map entry_to_proto es)) (plan_schedules plan)"
    using foldl_put_fresh [of "[]" "ordinal plan" "plan_schedules plan" "map entry_to_proto"] by simp
  show "amap_ok (receiver_schedules plan)" using d by (simp add: eq comp_def case_prod_beta)
qed

lemma receiver_schedule_nth:
  assumes "well_formed plan" "i < length (plan_src_units plan)" "map_of (plan_schedules plan) (plan_src_units plan ! i) = Some es"
  shows "map_of (receiver_schedules plan) (int i) = Some (map entry_to_proto es)"
proof -
  have "(plan_src_units plan ! i, es) \<in> set (plan_schedules plan)" by (rule map_of_SomeD [OF assms(3)])
  then have "(int i, map entry_to_proto es) \<in> set (receiver_schedules plan)"
    unfolding receiver_schedules_eq(1) [OF assms(1)] using ordinal_nth [OF assms(1,2)] by force
  then show ?thesis using mem_amap_iff [OF receiver_schedules_eq(2) [OF assms(1)]] by blast
qed

lemma entry_group: "entry_ok n peer e \<Longrightarrow>
    (case push_pool_group (entry_to_proto e) of None \<Rightarrow> True | Some g \<Rightarrow> 0 \<le> g \<and> g < int n)"
  by (simp add: entry_ok_def entry_to_proto_def)

lemma message_admitted:
  assumes wf: "well_formed plan" and r: "r = BuildStartTransferForTarget plan target" and "amap_ok (shard_push_schedules r)"
    and "all_entries r \<noteq> []"
    and "\<And>pe. pe \<in> set (all_entries r) \<Longrightarrow> \<exists>e. pe = entry_to_proto e \<and> entry_ok (length (plan_pool_groups plan)) (plan_dst_peer plan) e"
  shows "\<exists>q. CompileStartTransfer r = Inr q \<and>
    NormalizeReshardProgram q = Inr (if target \<in> set (plan_src_units plan) then kPoolReshardSender else kPoolReshardArm)"
proof -
  have f: "pool_groups_pb r = map group_to_proto (plan_pool_groups plan)" "transfer_pool_indices r = map int (plan_pool_indices plan)"
    "is_sender r = (target \<in> set (plan_src_units plan))" by (simp_all add: r BuildStartTransferForTarget_def)
  have ne: "plan_pool_groups plan \<noteq> []" "plan_pool_indices plan \<noteq> []" using wf by (auto simp: well_formed_def)
  then obtain q where q: "CompileStartTransfer r = Inr q" by (simp add: CompileStartTransfer_def HasPoolReshardFields_def f)
  have "case push_pool_group pe of None \<Rightarrow> True | Some g \<Rightarrow> 0 \<le> g \<and> g < int (length (pool_groups_pb r))"
    if "pe \<in> set (all_entries r)" for pe using assms(5) [OF that] entry_group by (auto simp: f)
  then show ?thesis using q normalize_compiled [OF q assms(3)] assms(4) ne by (simp add: f)
qed

lemma sender_message:
  assumes "well_formed plan" "u \<in> set (plan_src_units plan)" "u \<noteq> plan_dst_unit plan"
  shows "\<exists>es. map_of (plan_schedules plan) u = Some es \<and>
      shard_push_schedules (BuildStartTransferForTarget plan u) = [(0, map entry_to_proto es)]"
    "\<exists>q. CompileStartTransfer (BuildStartTransferForTarget plan u) = Inr q \<and> NormalizeReshardProgram q = Inr kPoolReshardSender"
proof -
  have "u \<in> dom (map_of (plan_schedules plan))" using assms(1,2) unfolding well_formed_def by blast
  then obtain es where es: "map_of (plan_schedules plan) u = Some es" by auto
  note e = well_formed_entries [OF assms(1) es]
  have s: "shard_push_schedules (BuildStartTransferForTarget plan u) = [(0, map entry_to_proto es)]"
    using e assms(3) by (simp add: BuildStartTransferForTarget_def sender_schedules_def es)
  then show "\<exists>es. map_of (plan_schedules plan) u = Some es \<and>
      shard_push_schedules (BuildStartTransferForTarget plan u) = [(0, map entry_to_proto es)]" using es by blast
  show "\<exists>q. CompileStartTransfer (BuildStartTransferForTarget plan u) = Inr q \<and> NormalizeReshardProgram q = Inr kPoolReshardSender"
    using message_admitted [OF assms(1) refl, of u] e assms(2) by (auto simp: s all_entries_def)
qed

lemma receiver_message:
  assumes "well_formed plan" "plan_dst_unit plan \<notin> set (plan_src_units plan)"
  shows "set (keys (shard_push_schedules (BuildStartTransferForTarget plan (plan_dst_unit plan)))) =
      int ` {..<length (plan_src_units plan)}"
    "\<exists>q. CompileStartTransfer (BuildStartTransferForTarget plan (plan_dst_unit plan)) = Inr q \<and>
      NormalizeReshardProgram q = Inr kPoolReshardArm"
proof -
  let ?r = "BuildStartTransferForTarget plan (plan_dst_unit plan)"
  have s: "shard_push_schedules ?r = receiver_schedules plan" by (simp add: BuildStartTransferForTarget_def)
  note eq = receiver_schedules_eq [OF assms(1)]
  have wf: "set (plan_src_units plan) = dom (map_of (plan_schedules plan))" "plan_src_units plan \<noteq> []"
    using assms(1) unfolding well_formed_def by blast+
  have "set (keys (plan_schedules plan)) = set (plan_src_units plan)" unfolding wf(1) by (simp add: dom_map_of_conv_image_fst)
  then have "set (keys (receiver_schedules plan)) = ordinal plan ` set (plan_src_units plan)"
    unfolding eq(1) by (force simp: image_iff)
  also have "\<dots> = int ` {..<length (plan_src_units plan)}" using ordinal_nth [OF assms(1)] by (force simp: set_conv_nth image_iff)
  finally show "set (keys (shard_push_schedules ?r)) = int ` {..<length (plan_src_units plan)}" unfolding s .
  have all: "\<exists>e. pe = entry_to_proto e \<and> entry_ok (length (plan_pool_groups plan)) (plan_dst_peer plan) e"
    if "pe \<in> set (all_entries ?r)" for pe
  proof -
    from that obtain p where p: "p \<in> set (plan_schedules plan)" "pe \<in> entry_to_proto ` set (snd p)"
      unfolding all_entries_def s eq(1) by auto
    then show ?thesis using schedule_units [OF assms(1) p(1)] well_formed_entries [OF assms(1), of "fst p" "snd p"] by auto
  qed
  obtain es where es: "map_of (plan_schedules plan) (hd (plan_src_units plan)) = Some es"
    using wf hd_in_set [of "plan_src_units plan"] by auto
  have "map entry_to_proto es \<noteq> []" using well_formed_entries [OF assms(1) es] by simp
  moreover have "map entry_to_proto es \<in> set (map snd (receiver_schedules plan))"
    unfolding eq(1) using map_of_SomeD [OF es] by force
  ultimately have "all_entries ?r \<noteq> []" unfolding all_entries_def s concat_eq_Nil_conv by blast
  then show "\<exists>q. CompileStartTransfer ?r = Inr q \<and> NormalizeReshardProgram q = Inr kPoolReshardArm"
    using message_admitted [OF assms(1) refl, of "plan_dst_unit plan", OF _ _ all] eq(2) assms(2) s by simp
qed

text \<open>
  The byte copies a wire entry asks a source for, repeats included: block and offset of the
  source byte, and block and offset of the destination byte.
\<close>

definition push_copies :: "RaidenId \<Rightarrow> ShardPushEntryProto \<Rightarrow> copy list" where
  "push_copies u pe = concat (map (\<lambda>n. map (\<lambda>k.
       ((u, push_src_block pe, push_src_offset pe + int n * push_src_stride pe + k),
        (push_dst_block pe, push_dst_offset pe + int n * push_dst_stride pe + k))) [0..push_size pe - 1])
     [0..<nat (push_count pe)])"

text \<open>A wire entry that does what the plan's entry says: the same copies, to the same place.\<close>

definition carries :: "RaidenId \<Rightarrow> ScheduleEntry \<Rightarrow> ShardPushEntryProto \<Rightarrow> bool" where
  "carries u e pe \<longleftrightarrow> push_copies u pe = entry_copies u e \<and> push_dst_peer pe = entry_dst_peer e \<and>
     push_dst_shard_idx pe = entry_dst_shard_idx e \<and> push_layer_idx pe = Some (entry_layer_idx e) \<and>
     push_pool_group pe = Some (entry_pool_group e)"

lemma int32_id: "is_int32 v \<Longrightarrow> int32 v = v"
  by (auto simp: is_int32_def int32_def)

lemma entry_carried:
  assumes "entry_ok n peer e" "is_int32 (entry_src_block e)" "is_int32 (entry_dst_block e)"
  shows "carries u e (entry_to_proto e)"
  using assms by (simp add: carries_def push_copies_def entry_copies_def entry_to_proto_def entry_ok_def int32_id)

text \<open>
  Property C11 (the messages of a plan agree). For a plan of the planner whose destination is not
  one of its sources, the message of source \<open>i\<close> has one schedule, and the message of the receiver
  has the same schedule under key \<open>i\<close>, for every source and nothing else. Entry by entry it is the
  schedule of the plan: an entry whose block ids are within \<open>int32\<close> asks for exactly the byte
  copies of the plan's entry, for the same peer, shard, layer and pool group. The receiver is told
  to expect the requested destination blocks in order. Both messages compile to transfer programs
  that the worker entry admits, as a sender and as an arm.
\<close>

theorem start_transfer_messages_agree:
  assumes "BuildPoolReshardPlan registry now request owner = (Inr plan, registry')"
    and "length (transfer_pool_tags request) \<le> 2147483648" "length (src_units request) \<le> 2147483648"
    and "plan_dst_unit plan \<notin> set (plan_src_units plan)" "i < length (plan_src_units plan)"
    and "u = plan_src_units plan ! i" "sender = BuildStartTransferForTarget plan u"
    and "receiver = BuildStartTransferForTarget plan (plan_dst_unit plan)"
  shows "(\<exists>es pes. map_of (plan_schedules plan) u = Some es \<and> shard_push_schedules sender = [(0, pes)] \<and>
      map_of (shard_push_schedules receiver) (int i) = Some pes \<and>
      list_all2 (\<lambda>e pe. is_int32 (entry_src_block e) \<and> is_int32 (entry_dst_block e) \<longrightarrow> carries u e pe) es pes) \<and>
    set (keys (shard_push_schedules receiver)) = int ` {..<length (plan_src_units plan)} \<and>
    is_sender sender \<and> \<not> is_sender receiver \<and>
    DeriveArmChipBlockIds receiver = dst_device_block_ids request \<and>
    (\<exists>q. CompileStartTransfer sender = Inr q \<and> NormalizeReshardProgram q = Inr kPoolReshardSender) \<and>
    (\<exists>q. CompileStartTransfer receiver = Inr q \<and> NormalizeReshardProgram q = Inr kPoolReshardArm)"
proof -
  obtain sbu dm where m: "resolve_metadata request = Inr (sbu, dm)"
    using assms(1) unfolding BuildPoolReshardPlan_def
    by (auto simp: resolve_request_def and_then_Inr_iff Let_def split: sum.splits prod.splits)
  have "concat (map group_dst_block_ids (plan_pool_groups plan)) = dst_device_block_ids request"
    using plan_group [OF assms(1) m assms(2)] by metis
  then have arm: "DeriveArmChipBlockIds receiver = dst_device_block_ids request"
    by (simp add: assms(8) DeriveArmChipBlockIds_def BuildStartTransferForTarget_def comp_def group_to_proto_def)
  note wf = plan_well_formed(1) [OF assms(1-3)]
  have u: "u \<in> set (plan_src_units plan)" "u \<noteq> plan_dst_unit plan" using assms(4,6) nth_mem [OF assms(5)] by auto
  obtain es where es: "map_of (plan_schedules plan) u = Some es" "shard_push_schedules sender = [(0, map entry_to_proto es)]"
    using sender_message(1) [OF wf u] assms(7) by blast
  have "map_of (shard_push_schedules receiver) (int i) = Some (map entry_to_proto es)"
    using receiver_schedule_nth [OF wf assms(5)] es(1) assms(6,8) by (simp add: BuildStartTransferForTarget_def)
  moreover have "is_sender sender" "\<not> is_sender receiver" using u assms(4,7,8) by (simp_all add: BuildStartTransferForTarget_def)
  moreover have "list_all2 (\<lambda>e pe. is_int32 (entry_src_block e) \<and> is_int32 (entry_dst_block e) \<longrightarrow> carries u e pe) es (map entry_to_proto es)"
    unfolding list_all2_map2 list_all2_same using well_formed_entries [OF wf es(1)] entry_carried by blast
  ultimately show ?thesis using es arm sender_message(2) [OF wf u] receiver_message [OF wf assms(4)] assms(7,8) by blast
qed

section \<open>The order of events\<close>

text \<open>The outcome the coordinator reads from the answer to a message.\<close>

fun outcome_of :: "world \<Rightarrow> event \<Rightarrow> status" where
  "outcome_of w (Called a p r) = verify_response w r"
| "outcome_of w (Submitted a q r) = and_then r (\<lambda>resp.
     if \<not> program_success resp then InternalError (''Raiden remote native execution failed: '' @ program_message resp)
     else OkStatus)"

text \<open>The event that hands source \<open>u\<close> its part of the plan.\<close>

fun sender_event :: "world \<Rightarrow> WorkerDelivery \<Rightarrow> PoolReshardPlan \<Rightarrow> RaidenId \<Rightarrow> event \<Rightarrow> bool" where
  "sender_event w delivery plan u (Called a p r) \<longleftrightarrow>
     delivery = DeliverFramed \<and> map_of (plan_rpc_addresses plan) u = Some a \<and> p = EncodeStartTransfer w plan u"
| "sender_event w delivery plan u (Submitted a q r) \<longleftrightarrow>
     delivery = DeliverController True \<and> a = ''worker_'' @ dec (ordinal plan u) \<and>
     CompileStartTransfer (BuildStartTransferForTarget plan u) = Inr q"

lemma framed_senders:
  assumes "well_formed plan" "foldl (framed_sender w plan) (tr, ss) is = (tr', ss')" "distinct is"
    and "\<forall>i\<in>set is. i < length (plan_src_units plan)" "length ss = length (plan_src_units plan)"
  shows "\<exists>evs. tr' = tr @ evs \<and> length ss' = length ss \<and>
    list_all2 (\<lambda>i ev. sender_event w DeliverFramed plan (plan_src_units plan ! i) ev \<and> ss' ! i = outcome_of w ev) is evs \<and>
    (\<forall>j. j \<notin> set is \<longrightarrow> ss' ! j = ss ! j)"
  using assms(2-5)
proof (induction "is" arbitrary: tr ss)
  case (Cons i "is")
  let ?u = "plan_src_units plan ! i"
  have "?u \<in> set (plan_src_units plan)" using Cons.prems(3) by simp
  then obtain a where a: "map_of (plan_rpc_addresses plan) ?u = Some a"
    using assms(1) unfolding well_formed_def by blast
  define ev where "ev = Called a (EncodeStartTransfer w plan ?u) (transport w tr a (EncodeStartTransfer w plan ?u))"
  have step: "framed_sender w plan (tr, ss) i = (tr @ [ev], ss[i := outcome_of w ev])"
    by (simp add: framed_sender_def a SendWorkerRpc_def call_def ev_def Let_def)
  obtain evs where evs: "tr' = (tr @ [ev]) @ evs" "length ss' = length ss"
    "list_all2 (\<lambda>i ev. sender_event w DeliverFramed plan (plan_src_units plan ! i) ev \<and> ss' ! i = outcome_of w ev) is evs"
    "\<forall>j. j \<notin> set is \<longrightarrow> ss' ! j = ss[i := outcome_of w ev] ! j"
    using Cons.IH [of "tr @ [ev]" "ss[i := outcome_of w ev]"] Cons.prems step by auto
  have "ss' ! i = outcome_of w ev" using evs(4) Cons.prems(2-4) by simp
  moreover have "sender_event w DeliverFramed plan ?u ev" by (simp add: ev_def a)
  ultimately show ?case using evs Cons.prems by (intro exI [of _ "ev # evs"]) auto
qed simp

lemma compile_planned:
  assumes "well_formed plan"
  shows "\<exists>q. CompileStartTransfer (BuildStartTransferForTarget plan u) = Inr q"
proof -
  have "plan_pool_indices plan \<noteq> []" using assms unfolding well_formed_def by blast
  then show ?thesis by (simp add: CompileStartTransfer_def HasPoolReshardFields_def BuildStartTransferForTarget_def)
qed

text \<open>For planned transfers no source is skipped, so the futures line up with the sources.\<close>

lemma submit_senders:
  assumes "well_formed plan" "foldl (submit_sender w plan) (tr, ss, fs) is = (tr', ss', fs')"
    and "\<forall>i\<in>set is. i < length (plan_src_units plan)"
  shows "\<exists>evs. tr' = tr @ evs \<and> ss' = ss \<and> fs' = fs @ map submit_response evs \<and>
    list_all2 (\<lambda>i ev. sender_event w (DeliverController True) plan (plan_src_units plan ! i) ev) is evs \<and>
    (\<forall>ev\<in>set evs. \<exists>a q r. ev = Submitted a q r)"
  using assms(2,3)
proof (induction "is" arbitrary: tr fs)
  case (Cons i "is")
  let ?u = "plan_src_units plan ! i"
  have k: "map_of (plan_schedule_keys plan) ?u = Some (ordinal plan ?u)"
    using well_formed_key [OF assms(1)] Cons.prems(2) by simp
  obtain q where q: "CompileStartTransfer (BuildStartTransferForTarget plan ?u) = Inr q" using compile_planned [OF assms(1)] by blast
  define ev where "ev = Submitted (''worker_'' @ dec (ordinal plan ?u)) q (controller w tr (''worker_'' @ dec (ordinal plan ?u)) q)"
  have step: "submit_sender w plan (tr, ss, fs) i = (tr @ [ev], ss, fs @ [submit_response ev])"
    by (simp add: submit_sender_def k q ev_def Let_def)
  obtain evs where evs: "tr' = (tr @ [ev]) @ evs" "ss' = ss" "fs' = (fs @ [submit_response ev]) @ map submit_response evs"
    "list_all2 (\<lambda>i ev. sender_event w (DeliverController True) plan (plan_src_units plan ! i) ev) is evs"
    "\<forall>ev\<in>set evs. \<exists>a q r. ev = Submitted a q r"
    using Cons.IH [of "tr @ [ev]" "fs @ [submit_response ev]"] Cons.prems step by auto
  have "sender_event w (DeliverController True) plan ?u ev" "\<exists>a q r. ev = Submitted a q r" by (simp_all add: ev_def q)
  then show ?case using evs by (intro exI [of _ "ev # evs"]) auto
qed simp

lemma await_futures:
  assumes "n + length evs \<le> length ss" "\<forall>i<length evs. ss ! (n + i) = OkStatus" "\<forall>ev\<in>set evs. \<exists>a q r. ev = Submitted a q r"
  shows "length (foldl await_future ss (enumerate n (map submit_response evs))) = length ss \<and>
    (\<forall>i<length evs. foldl await_future ss (enumerate n (map submit_response evs)) ! (n + i) = outcome_of w (evs ! i)) \<and>
    (\<forall>j<n. foldl await_future ss (enumerate n (map submit_response evs)) ! j = ss ! j)"
  using assms
proof (induction evs arbitrary: n ss)
  case (Cons ev evs)
  obtain a q r where ev: "ev = Submitted a q r" using Cons.prems(3) by auto
  have step: "await_future ss (n, submit_response ev) = ss[n := outcome_of w ev]"
  proof -
    have "ss ! (n + 0) = OkStatus" using Cons.prems(2) by (elim allE [of _ 0]) simp
    then have "ss[n := OkStatus] = ss" using list_update_id [of ss n] by simp
    then show ?thesis by (cases r) (auto simp: await_future_def ev)
  qed
  have IH: "length (foldl await_future (ss[n := outcome_of w ev]) (enumerate (Suc n) (map submit_response evs))) = length (ss[n := outcome_of w ev]) \<and>
    (\<forall>i<length evs. foldl await_future (ss[n := outcome_of w ev]) (enumerate (Suc n) (map submit_response evs)) ! (Suc n + i) = outcome_of w (evs ! i)) \<and>
    (\<forall>j<Suc n. foldl await_future (ss[n := outcome_of w ev]) (enumerate (Suc n) (map submit_response evs)) ! j = ss[n := outcome_of w ev] ! j)"
    by (rule Cons.IH) (use Cons.prems in force)+
  then show ?case using Cons.prems(1) by (auto simp: step nth_Cons split: nat.splits)
qed simp

text \<open>A fan-out over all sources whose slots hold the outcomes succeeds exactly when every message did.\<close>

lemma fan_out_result:
  assumes "list_all2 (\<lambda>i ev. sender_event w delivery plan (plan_src_units plan ! i) ev \<and> ss ! i = outcome_of w ev) is evs"
    and "mset is = mset [0..<length (plan_src_units plan)]" "length ss = length (plan_src_units plan)"
  shows "\<exists>us. mset us = mset (plan_src_units plan) \<and> list_all2 (sender_event w delivery plan) us evs"
    "check_each (\<lambda>st. st) ss = OkStatus \<longleftrightarrow> (\<forall>ev\<in>set evs. outcome_of w ev = OkStatus)"
proof -
  have "mset (map (nth (plan_src_units plan)) is) = mset (map (nth (plan_src_units plan)) [0..<length (plan_src_units plan)])"
    using assms(2) by (metis mset_map)
  then have "mset (map (nth (plan_src_units plan)) is) = mset (plan_src_units plan)" by (simp add: map_nth)
  moreover have "list_all2 (sender_event w delivery plan) (map (nth (plan_src_units plan)) is) evs"
    using assms(1) by (auto simp: list_all2_conv_all_nth)
  ultimately show "\<exists>us. mset us = mset (plan_src_units plan) \<and> list_all2 (sender_event w delivery plan) us evs" by blast
  have "set is = {..<length ss}" unfolding mset_eq_setD [OF assms(2)] assms(3) by (simp add: atLeast0LessThan)
  then have "(\<forall>st\<in>set ss. st = OkStatus) \<longleftrightarrow> (\<forall>i\<in>set is. ss ! i = OkStatus)"
    unfolding all_set_conv_all_nth [of ss] by (simp only: lessThan_iff Ball_def)
  also have "\<dots> \<longleftrightarrow> (\<forall>ev\<in>set evs. outcome_of w ev = OkStatus)"
  proof -
    have "length is = length evs" "\<And>k. k < length is \<Longrightarrow> ss ! (is ! k) = outcome_of w (evs ! k)"
      using assms(1) by (auto simp: list_all2_conv_all_nth)
    then show ?thesis unfolding all_set_conv_all_nth by simp
  qed
  finally show "check_each (\<lambda>st. st) ss = OkStatus \<longleftrightarrow> (\<forall>ev\<in>set evs. outcome_of w ev = OkStatus)" by (simp add: check_each_ok)
qed

lemma dispatch_framed_result:
  assumes "well_formed plan" "mset (schedule w (length (plan_src_units plan))) = mset [0..<length (plan_src_units plan)]"
    and "dispatch_framed w plan tr = (tr', ss)"
  shows "\<exists>us evs. tr' = tr @ evs \<and> mset us = mset (plan_src_units plan) \<and> list_all2 (sender_event w DeliverFramed plan) us evs \<and>
    (check_each (\<lambda>st. st) ss = OkStatus \<longleftrightarrow> (\<forall>ev\<in>set evs. outcome_of w ev = OkStatus))"
proof -
  let ?n = "length (plan_src_units plan)"
  have f: "foldl (framed_sender w plan) (tr, replicate ?n OkStatus) (schedule w ?n) = (tr', ss)"
    using assms(3) by (simp add: dispatch_framed_def Let_def)
  have "distinct (schedule w ?n)" "\<forall>i\<in>set (schedule w ?n). i < ?n"
    using mset_eq_imp_distinct_iff [OF assms(2)] mset_eq_setD [OF assms(2)] by auto
  then obtain evs where tr: "tr' = tr @ evs" and l: "length ss = ?n"
    and evs: "list_all2 (\<lambda>i ev. sender_event w DeliverFramed plan (plan_src_units plan ! i) ev \<and> ss ! i = outcome_of w ev) (schedule w ?n) evs"
    using framed_senders [OF assms(1) f] by auto
  obtain us where "mset us = mset (plan_src_units plan)" "list_all2 (sender_event w DeliverFramed plan) us evs"
    using fan_out_result(1) [OF evs assms(2) l] by blast
  then show ?thesis using tr fan_out_result(2) [OF evs assms(2) l] by (intro exI [of _ us] exI [of _ evs] conjI)
qed

lemma dispatch_controller_result:
  assumes "well_formed plan" "dispatch_controller w plan tr = (tr', ss)"
  shows "\<exists>us evs. tr' = tr @ evs \<and> mset us = mset (plan_src_units plan) \<and> list_all2 (sender_event w (DeliverController True) plan) us evs \<and>
    (check_each (\<lambda>st. st) ss = OkStatus \<longleftrightarrow> (\<forall>ev\<in>set evs. outcome_of w ev = OkStatus))"
proof -
  let ?n = "length (plan_src_units plan)"
  obtain s0 fs where f: "foldl (submit_sender w plan) (tr, replicate ?n OkStatus, []) [0..<?n] = (tr', s0, fs)"
    and ss: "ss = foldl await_future s0 (enumerate 0 fs)"
    using assms(2) by (auto simp: dispatch_controller_def Let_def split: prod.splits)
  obtain evs where evs: "tr' = tr @ evs" "s0 = replicate ?n OkStatus" "fs = map submit_response evs"
      "list_all2 (\<lambda>i ev. sender_event w (DeliverController True) plan (plan_src_units plan ! i) ev) [0..<?n] evs"
      "\<forall>ev\<in>set evs. \<exists>a q r. ev = Submitted a q r"
    using submit_senders [OF assms(1) f] by auto
  have n: "length evs = ?n" using list_all2_lengthD [OF evs(4)] by simp
  have "length ss = ?n \<and> (\<forall>i<?n. ss ! i = outcome_of w (evs ! i))"
    using await_futures [of 0 evs "replicate ?n OkStatus" w] evs(5) by (simp add: ss evs(2,3) n)
  then have r: "list_all2 (\<lambda>i ev. sender_event w (DeliverController True) plan (plan_src_units plan ! i) ev \<and> ss ! i = outcome_of w ev)
      [0..<?n] evs" and l: "length ss = ?n"
    using evs(4) by (auto simp: list_all2_conv_all_nth)
  obtain us where "mset us = mset (plan_src_units plan)" "list_all2 (sender_event w (DeliverController True) plan) us evs"
    using fan_out_result(1) [OF r refl l] by blast
  then show ?thesis using evs(1) fan_out_result(2) [OF r refl l] by (intro exI [of _ us] exI [of _ evs] conjI)
qed

section \<open>Rolling back a claim\<close>

lemma abandon_gone:
  "rb_inv s \<Longrightarrow> map_of (claimed_owners (snd (AbandonClaim s r u owner))) (r, u) \<noteq> Some owner"
proof -
  assume "rb_inv s"
  then have "map_of (claimed s) (r, u) = None \<longleftrightarrow> map_of (claimed_owners s) (r, u) = None"
    unfolding rb_inv_def lifecycle_ok_def by blast
  then show ?thesis by (auto simp: AbandonClaim_def Let_def split: option.splits)
qed

lemma Build_rb_inv: "rb_inv s \<Longrightarrow> rb_inv (snd (BuildPoolReshardPlan s now request owner))"
  using Claim_rb_inv [of s now "req_id request" "uuid request" "src_units request" owner]
  by (auto simp: BuildPoolReshardPlan_def split: sum.splits prod.splits)

lemma lifecycle_interfere: "rb_inv (coord_registry c) \<Longrightarrow> rb_inv (coord_registry (interfere ops c))"
  by (simp add: interfere_def lifecycle_run_inv)

text \<open>The message that arms the receiver.\<close>

definition arm_event :: "world \<Rightarrow> PoolReshardPlan \<Rightarrow> event \<Rightarrow> bool" where
  "arm_event w plan ev \<longleftrightarrow> (\<exists>a r. map_of (plan_rpc_addresses plan) (plan_dst_unit plan) = Some a \<and>
     ev = Called a (EncodeStartTransfer w plan (plan_dst_unit plan)) r)"

text \<open>
  How an attempt can end: rolled back, with at most an arm message sent, or dispatched to every
  source after the receiver acknowledged.
\<close>

definition rolled_back ::
  "world \<Rightarrow> PoolReshardPlan \<Rightarrow> event list \<Rightarrow> string \<Rightarrow> int \<Rightarrow> nat \<Rightarrow> status \<times> ReshardCoordinator \<Rightarrow> bool" where
  "rolled_back w plan tr r uid owner res \<longleftrightarrow> fst res \<noteq> OkStatus \<and>
     map_of (claimed_owners (coord_registry (snd res))) (r, uid) \<noteq> Some owner \<and>
     (sent (snd res) = tr \<or> (\<exists>ev. arm_event w plan ev \<and> sent (snd res) = tr @ [ev]))"

definition dispatched ::
  "world \<Rightarrow> WorkerDelivery \<Rightarrow> PoolReshardPlan \<Rightarrow> event list \<Rightarrow> status \<times> ReshardCoordinator \<Rightarrow> bool" where
  "dispatched w delivery plan tr res \<longleftrightarrow> (\<exists>ev us evs. sent (snd res) = tr @ ev # evs \<and>
     arm_event w plan ev \<and> outcome_of w ev = OkStatus \<and>
     mset us = mset (plan_src_units plan) \<and> list_all2 (sender_event w delivery plan) us evs \<and>
     (fst res = OkStatus \<longleftrightarrow> (\<forall>ev\<in>set evs. outcome_of w ev = OkStatus)))"

lemma dispatch_ends:
  assumes "well_formed plan" "\<And>n. mset (schedule w n) = mset [0..<n]" "rb_inv (coord_registry c)"
    and "arm_event w plan ev" "outcome_of w ev = OkStatus" "sent c = tr @ [ev]"
  shows "rolled_back w plan tr r uid owner (dispatch w delivery plan r uid owner c) \<or>
    dispatched w delivery plan tr (dispatch w delivery plan r uid owner c)"
proof (cases delivery)
  case DeliverFramed
  obtain tr' ss where d: "dispatch_framed w plan (sent c) = (tr', ss)" by (cases "dispatch_framed w plan (sent c)")
  obtain us evs where "tr' = sent c @ evs" "mset us = mset (plan_src_units plan)"
      "list_all2 (sender_event w DeliverFramed plan) us evs"
      "check_each (\<lambda>st. st) ss = OkStatus \<longleftrightarrow> (\<forall>ev\<in>set evs. outcome_of w ev = OkStatus)"
    using dispatch_framed_result [OF assms(1,2) d] by blast
  then have "dispatched w delivery plan tr (dispatch w delivery plan r uid owner c)"
    using assms(4-6) unfolding dispatched_def
    by (intro exI [of _ ev] exI [of _ us] exI [of _ evs]) (simp add: dispatch_def DeliverFramed d [unfolded assms(6)])
  then show ?thesis ..
next
  case (DeliverController b)
  show ?thesis
  proof (cases b)
    case True
    obtain tr' ss where d: "dispatch_controller w plan (sent c) = (tr', ss)" by (cases "dispatch_controller w plan (sent c)")
    obtain us evs where "tr' = sent c @ evs" "mset us = mset (plan_src_units plan)"
        "list_all2 (sender_event w (DeliverController True) plan) us evs"
        "check_each (\<lambda>st. st) ss = OkStatus \<longleftrightarrow> (\<forall>ev\<in>set evs. outcome_of w ev = OkStatus)"
      using dispatch_controller_result [OF assms(1) d] by blast
    then have "dispatched w delivery plan tr (dispatch w delivery plan r uid owner c)"
      using assms(4-6) unfolding dispatched_def
      by (intro exI [of _ ev] exI [of _ us] exI [of _ evs]) (simp add: dispatch_def DeliverController True d [unfolded assms(6)])
    then show ?thesis ..
  next
    case False
    then have "rolled_back w plan tr r uid owner (dispatch w delivery plan r uid owner c)"
      using assms(4,6) abandon_gone [OF assms(3)] by (auto simp: rolled_back_def dispatch_def DeliverController abandon_def)
    then show ?thesis ..
  qed
qed

lemma arm_and_dispatch_ends:
  assumes "well_formed plan" "\<And>n. mset (schedule w n) = mset [0..<n]" "rb_inv (coord_registry c)"
  shows "rolled_back w plan (sent c) r uid owner (arm_and_dispatch w delivery others plan r uid owner c) \<or>
    dispatched w delivery plan (sent c) (arm_and_dispatch w delivery others plan r uid owner c)"
proof -
  obtain a where a: "map_of (plan_rpc_addresses plan) (plan_dst_unit plan) = Some a"
    using assms(1) unfolding well_formed_def by blast
  define p where "p = EncodeStartTransfer w plan (plan_dst_unit plan)"
  define ev where "ev = Called a p (transport w (sent c) a p)"
  define c1 where "c1 = interfere (while_arming others) (c\<lparr>sent := sent c @ [ev]\<rparr>)"
  have arm: "arm_event w plan ev" using a by (auto simp: arm_event_def ev_def p_def)
  have c1: "rb_inv (coord_registry c1)" "sent c1 = sent c @ [ev]"
    using assms(3) by (auto simp: c1_def intro!: lifecycle_interfere) (simp add: interfere_def)
  have eq: "arm_and_dispatch w delivery others plan r uid owner c =
      (case outcome_of w ev of Inl e \<Rightarrow> (Inl e, abandon r uid owner c1) | Inr _ \<Rightarrow> dispatch w delivery plan r uid owner c1)"
    unfolding c1_def ev_def p_def by (simp add: arm_and_dispatch_def a SendWorkerRpc_def call_def Let_def)
  show ?thesis
  proof (cases "outcome_of w ev")
    case (Inl e)
    then have "rolled_back w plan (sent c) r uid owner (arm_and_dispatch w delivery others plan r uid owner c)"
      using arm c1 abandon_gone by (auto simp: eq rolled_back_def abandon_def)
    then show ?thesis ..
  next
    case (Inr x)
    then show ?thesis using dispatch_ends [OF assms(1,2) c1(1) arm _ c1(2)] by (simp add: eq)
  qed
qed

section \<open>The whole attempt\<close>

definition metadata_query :: "world \<Rightarrow> PoolReshardArgs \<Rightarrow> event \<Rightarrow> bool" where
  "metadata_query w args ev \<longleftrightarrow> dst_controller_address args \<noteq> [] \<and>
     (\<exists>r. ev = Called (dst_controller_address args) (SerializeAsString w \<lparr>command = COMMAND_GET_METADATA, peers = [],
        start_transfer_request = None, register_work_unit_request = None\<rparr>) r)"

lemma collect_metadata_trace:
  "\<exists>query. snd (collect_metadata w d tr args) = tr @ query \<and> length query \<le> 1 \<and> list_all (metadata_query w args) query"
proof (cases "\<exists>src. LocalMetadata d (args_src_units args) = Inr src \<and> dst_controller_address args \<noteq> []")
  case True
  then obtain src where t: "LocalMetadata d (args_src_units args) = Inr src" "dst_controller_address args \<noteq> []" by blast
  obtain ev where ev: "metadata_query w args ev" "snd (QueryRemoteMetadata w tr (dst_controller_address args)) = tr @ [ev]"
    using t(2) by (auto simp: metadata_query_def QueryRemoteMetadata_def call_def Let_def)
  have "snd (collect_metadata w d tr args) = tr @ [ev]"
    using ev(2) t by (auto simp: collect_metadata_def split: prod.splits sum.splits)
  then show ?thesis using ev(1) by (intro exI [of _ "[ev]"]) simp
next
  case False
  then have "snd (collect_metadata w d tr args) = tr" by (auto simp: collect_metadata_def split: sum.splits)
  then show ?thesis by (intro exI [of _ "[]"]) simp
qed

lemma status_untouched [simp]:
  "transfer_status (abandon r uid owner c) = transfer_status c" "transfer_status (interfere ops c) = transfer_status c"
  "transfer_status (snd (dispatch w delivery plan r uid owner c)) = transfer_status c"
  "transfer_status (snd (arm_and_dispatch w delivery others plan r uid owner c)) = transfer_status c"
  "transfer_status (snd (ExecutePoolReshard w d delivery now random others c args)) = transfer_status c"
proof -
  show a: "transfer_status (abandon r uid owner c) = transfer_status c" "transfer_status (interfere ops c) = transfer_status c"
    for r uid owner ops c by (simp_all add: abandon_def interfere_def)
  show d: "transfer_status (snd (dispatch w delivery plan r uid owner c)) = transfer_status c" for plan r uid owner c
    by (auto simp: dispatch_def a split: WorkerDelivery.splits bool.splits prod.splits)
  show e: "transfer_status (snd (arm_and_dispatch w delivery others plan r uid owner c)) = transfer_status c" for plan r uid owner c
    by (auto simp: arm_and_dispatch_def Let_def a d split: option.splits prod.splits sum.splits)
  show "transfer_status (snd (ExecutePoolReshard w d delivery now random others c args)) = transfer_status c"
    by (auto simp: ExecutePoolReshard_def Let_def a e split: option.splits prod.splits sum.splits)
qed

text \<open>The plan an attempt dispatches.\<close>

definition attempt_plan ::
  "ReshardCoordinator \<Rightarrow> real \<Rightarrow> int \<Rightarrow> PoolReshardArgs \<Rightarrow> RegisterWorkUnitRequest list \<Rightarrow> RegisterWorkUnitRequest list \<Rightarrow>
   PoolReshardPlan \<Rightarrow> bool" where
  "attempt_plan c now uid args src_meta dst_meta plan \<longleftrightarrow>
     (\<exists>built. fst (BuildPoolReshardPlan (coord_registry c) now (plan_request_of args src_meta dst_meta uid) (claim_counter c)) = Inr built \<and>
        plan = built\<lparr>plan_skip_d2h := args_skip_d2h args\<rparr>)"

lemma well_formed_skip [simp]: "well_formed (plan\<lparr>plan_skip_d2h := b\<rparr>) = well_formed plan"
  by (simp add: well_formed_def)

lemma execute_ends:
  assumes "rb_inv (coord_registry c)" "\<And>n. mset (schedule w n) = mset [0..<n]"
    and "length (args_transfer_pool_tags args) \<le> 2147483648" "length (args_src_units args) \<le> 2147483648"
    and "uid = (if args_uuid args \<le> 0 then random else args_uuid args)"
    and "res = ExecutePoolReshard w d delivery now random others c args"
  shows "\<exists>query. length query \<le> 1 \<and> list_all (metadata_query w args) query \<and>
    (fst res \<noteq> OkStatus \<and> sent (snd res) = sent c @ query \<and> (coord_registry (snd res) = coord_registry c \<or>
       map_of (claimed_owners (coord_registry (snd res))) (args_req_id args, uid) \<noteq> Some (claim_counter c)) \<or>
     (\<exists>src_meta dst_meta plan. attempt_plan c now uid args src_meta dst_meta plan \<and>
       (rolled_back w plan (sent c @ query) (args_req_id args) uid (claim_counter c) res \<or>
        dispatched w delivery plan (sent c @ query) res)))"
proof -
  obtain query where q: "snd (collect_metadata w d (sent c) args) = sent c @ query" "length query \<le> 1"
      "list_all (metadata_query w args) query" using collect_metadata_trace by blast
  show ?thesis
  proof (cases "args_is_sender args \<and> (\<exists>x. fst (collect_metadata w d (sent c) args) = Inr x)")
    case False
    then have "fst res \<noteq> OkStatus \<and> coord_registry (snd res) = coord_registry c \<and>
        (sent (snd res) = sent c \<or> sent (snd res) = sent c @ query)"
      using q(1) by (auto simp: assms(6) ExecutePoolReshard_def split: prod.splits sum.splits)
    then show ?thesis using q(2,3) by (metis append_Nil2 le0 list.pred_inject(1) list.size(3))
  next
    case True
    then obtain sm dm where m: "args_is_sender args" "collect_metadata w d (sent c) args = (Inr (sm, dm), sent c @ query)"
      using q(1) by (metis prod.collapse)
    define b where "b = BuildPoolReshardPlan (coord_registry c) now (plan_request_of args sm dm uid) (claim_counter c)"
    define c1 where "c1 = interfere (while_planning others)
      (c\<lparr>sent := sent c @ query, claim_counter := Suc (claim_counter c), coord_registry := snd b\<rparr>)"
    have c1: "rb_inv (coord_registry c1)" "sent c1 = sent c @ query"
      using Build_rb_inv [OF assms(1)] by (auto simp: c1_def b_def intro!: lifecycle_interfere) (simp add: interfere_def)
    have eq: "res = (case fst b of Inl e \<Rightarrow> (Inl e, abandon (args_req_id args) uid (claim_counter c) c1)
        | Inr plan \<Rightarrow> arm_and_dispatch w delivery others (plan\<lparr>plan_skip_d2h := args_skip_d2h args\<rparr>)
            (args_req_id args) uid (claim_counter c) c1)"
      unfolding assms(6) c1_def b_def ExecutePoolReshard_def Let_def assms(5) [symmetric] m(2) using m(1) by simp
    show ?thesis
    proof (cases "fst b")
      case (Inl e)
      have "fst res \<noteq> OkStatus \<and> sent (snd res) = sent c @ query \<and>
          map_of (claimed_owners (coord_registry (snd res))) (args_req_id args, uid) \<noteq> Some (claim_counter c)"
        using abandon_gone [OF c1(1)] c1(2) by (simp add: eq Inl abandon_def)
      then show ?thesis using q(2,3) by blast
    next
      case (Inr plan)
      then have "BuildPoolReshardPlan (coord_registry c) now (plan_request_of args sm dm uid) (claim_counter c) = (Inr plan, snd b)"
        unfolding b_def by (metis prod.collapse)
      then have "well_formed plan" by (rule plan_well_formed(1)) (use assms(3,4) in \<open>simp_all add: plan_request_of_def\<close>)
      then have "rolled_back w (plan\<lparr>plan_skip_d2h := args_skip_d2h args\<rparr>) (sent c @ query) (args_req_id args) uid (claim_counter c) res \<or>
          dispatched w delivery (plan\<lparr>plan_skip_d2h := args_skip_d2h args\<rparr>) (sent c @ query) res"
        using arm_and_dispatch_ends [OF _ assms(2) c1(1)] by (simp add: eq Inr c1(2))
      moreover have "attempt_plan c now uid args sm dm (plan\<lparr>plan_skip_d2h := args_skip_d2h args\<rparr>)"
        using Inr by (auto simp: attempt_plan_def b_def)
      ultimately show ?thesis using q(2,3) by blast
    qed
  qed
qed

text \<open>
  Property C3 (a pool reshard is all-or-rolled-back before dispatch, and arms first). Whatever the
  transport, the controller and the other users of the registry do, and in whatever order the
  sender threads run, an attempt sends at most one metadata query and then ends in one of three
  ways. It fails before a plan exists, with no further message and no claim of its own left. It
  fails while arming, with only the arm message sent and no claim of its own left. Or the receiver
  acknowledged the arm message first, every source of the plan was then sent its part exactly
  once, and the attempt succeeds exactly when every one of them did. The recorded status of the
  request is completed or failed accordingly, of arguments that were refused it is unchanged, as
  are the statuses of other requests.
\<close>
theorem pool_reshard_arms_before_sending:
  assumes "rb_inv (coord_registry c)" "\<And>n. mset (schedule w n) = mset [0..<n]"
    and "length (args_transfer_pool_tags args) \<le> 2147483648" "length (args_src_units args) \<le> 2147483648"
    and "uid = (if args_uuid args \<le> 0 then random else args_uuid args)"
    and "res = StartPoolReshard w d delivery now random others c args"
  shows "(\<exists>query. length query \<le> 1 \<and> list_all (metadata_query w args) query \<and>
     (fst res \<noteq> OkStatus \<and> sent (snd res) = sent c @ query \<and> (coord_registry (snd res) = coord_registry c \<or>
        map_of (claimed_owners (coord_registry (snd res))) (args_req_id args, uid) \<noteq> Some (claim_counter c)) \<or>
      (\<exists>src_meta dst_meta plan. attempt_plan c now uid args src_meta dst_meta plan \<and>
        (rolled_back w plan (sent c @ query) (args_req_id args) uid (claim_counter c) res \<or>
         dispatched w delivery plan (sent c @ query) res)))) \<and>
    GetTransferStatus (snd res) = (if check_args args = OkStatus
      then (GetTransferStatus c)(args_req_id args := if fst res = OkStatus then kCompleted else kFailed)
      else GetTransferStatus c)"
proof (cases "check_args args")
  case (Inl e)
  then have "res = (Inl e, c)" by (simp add: assms(6) StartPoolReshard_def)
  then show ?thesis using Inl by (intro conjI exI [of _ "[]"]) simp_all
next
  case (Inr x)
  define c1 where "c1 = c\<lparr>transfer_status := put (args_req_id args) kInProgress (transfer_status c)\<rparr>"
  define r where "r = ExecutePoolReshard w d delivery now random others c1 args"
  have res: "res = (fst r, (snd r)\<lparr>transfer_status := put (args_req_id args)
      (if fst r = OkStatus then kCompleted else kFailed) (transfer_status (snd r))\<rparr>)"
    by (simp add: assms(6) StartPoolReshard_def Inr Let_def r_def c1_def)
  have "transfer_status (snd r) = transfer_status c1" by (simp add: r_def)
  then have "GetTransferStatus (snd res) = (GetTransferStatus c)(args_req_id args := if fst res = OkStatus then kCompleted else kFailed)"
    by (auto simp: res GetTransferStatus_def c1_def fun_eq_iff)
  moreover have "fst res = fst r" "sent (snd res) = sent (snd r)" "coord_registry (snd res) = coord_registry (snd r)"
    "sent c1 = sent c" "coord_registry c1 = coord_registry c" "claim_counter c1 = claim_counter c"
    by (simp_all add: res c1_def)
  ultimately show ?thesis using execute_ends [of c1 w args uid random r d delivery now others, OF _ assms(2)] assms(1,3,4,5) Inr
    unfolding rolled_back_def dispatched_def attempt_plan_def by (simp add: r_def)
qed

section \<open>The transfer from two ranks, coordinated\<close>

theorem start_transfer_messages_agree_witness:
  "(\<exists>pes. map_of (shard_push_schedules (BuildStartTransferForTarget transfer_plan (example_unit ''d''))) 1 = Some pes \<and>
     map_of (shard_push_schedules (BuildStartTransferForTarget transfer_plan (example_unit ''b''))) 0 = Some pes \<and>
     list_all2 (carries (example_unit ''b'')) (the (map_of (plan_schedules transfer_plan) (example_unit ''b''))) pes) \<and>
   DeriveArmChipBlockIds (BuildStartTransferForTarget transfer_plan (example_unit ''d'')) = [5, 9]"
proof -
  obtain registry' where b: "BuildPoolReshardPlan transfer_registry 1 transfer_request 7 = (Inr transfer_plan, registry')"
    using transfer_planned by blast
  have p: "plan_src_units transfer_plan = [example_unit ''a'', example_unit ''b'']" "plan_dst_unit transfer_plan = example_unit ''d''"
    by code_simp+
  have w: "list_all (\<lambda>e. is_int32 (entry_src_block e) \<and> is_int32 (entry_dst_block e))
      (the (map_of (plan_schedules transfer_plan) (example_unit ''b'')))" by code_simp
  have l: "length (src_units transfer_request) \<le> 2147483648" "dst_device_block_ids transfer_request = [5, 9]"
    by (simp_all add: transfer_request_def)
  have n: "plan_dst_unit transfer_plan \<notin> set (plan_src_units transfer_plan)" "1 < length (plan_src_units transfer_plan)"
    by (simp_all add: p example_unit_def)
  have *: "list_all2 C es pes" if "list_all P es" "list_all2 (\<lambda>e pe. P e \<longrightarrow> C e pe) es pes"
    for P C and es :: "ScheduleEntry list" and pes :: "ShardPushEntryProto list"
    using that by (auto simp: list_all2_conv_all_nth list_all_length)
  from start_transfer_messages_agree [OF b transfer_tags(1) l(1) n refl refl refl] obtain es pes where
    "map_of (plan_schedules transfer_plan) (example_unit ''b'') = Some es"
    "shard_push_schedules (BuildStartTransferForTarget transfer_plan (example_unit ''b'')) = [(0, pes)]"
    "map_of (shard_push_schedules (BuildStartTransferForTarget transfer_plan (example_unit ''d''))) 1 = Some pes"
    "list_all2 (\<lambda>e pe. is_int32 (entry_src_block e) \<and> is_int32 (entry_dst_block e) \<longrightarrow> carries (example_unit ''b'') e pe) es pes"
    "DeriveArmChipBlockIds (BuildStartTransferForTarget transfer_plan (example_unit ''d'')) = [5, 9]"
    by (auto simp: p l(2))
  then show ?thesis using * [of _ es "carries (example_unit ''b'')" pes] w by auto
qed

definition rank_record :: "string \<Rightarrow> int \<Rightarrow> Record" where
  "rank_record n rank = \<lparr>rec_shards = [n @ '':1''], rec_control_plane_rpc_address = n @ '':2'', rec_mesh_shape = None,
     rec_layout = None, rec_global_shape = None, rec_itemsize = Some 1,
     rec_pools = Some (pools_pb (rank_metadata n rank packed_region)), rec_layout_fingerprint = Some ''f'',
     rec_page_tokens = Some 1, rec_transfer_parallelism = Some 2, rec_transfer_rank = Some rank, rec_variables = None\<rparr>"

definition source_directory :: WorkUnitDirectory where
  "source_directory = \<lparr>order = [example_unit ''a'', example_unit ''b''], records = [rank_record ''a'' 0, rank_record ''b'' 1]\<rparr>"

text \<open>A transport that acknowledges everything and threads that run in reverse order.\<close>

definition obliging_world :: world where
  "obliging_world = \<lparr>SerializeAsString = (\<lambda>_. []), ParseFromString = (\<lambda>_. Some \<lparr>resp_success = True, resp_message = [],
     response_data = [], get_metadata_response = [rank_metadata ''d'' 0 spread_region]\<rparr>),
     transport = (\<lambda>_ _ _. Inr []), controller = (\<lambda>_ _ _. Inr \<lparr>program_success = True, program_message = []\<rparr>),
     schedule = (\<lambda>n. rev [0..<n])\<rparr>"

definition transfer_args :: PoolReshardArgs where
  "transfer_args = \<lparr>args_src_units = [example_unit ''a'', example_unit ''b''], args_dst_units = [example_unit ''d''],
     args_req_id = ''q'', args_dst_device_block_ids = [5, 9], has_dst_device_block_ids = True, args_use_block_chunks = True,
     args_dst_mem_type = 2, dst_controller_address = ''d:3'', args_uuid = 5, args_is_sender = True,
     args_num_tokens = Some 7, args_transfer_pool_tags = [''kv''], args_parallelism = None, args_skip_d2h = False,
     args_dst_block_counts = [], args_dst_skip_bytes = []\<rparr>"

definition idle_coordinator :: ReshardCoordinator where
  "idle_coordinator = \<lparr>coord_registry = transfer_registry, transfer_status = [], claim_counter = 7, sent = []\<rparr>"

lemma transfer_collected:
  "fst (collect_metadata obliging_world source_directory [] transfer_args) = Inr
     ([rank_metadata ''a'' 0 packed_region, rank_metadata ''b'' 1 packed_region], [rank_metadata ''d'' 0 spread_region])"
  by code_simp

lemma transfer_request_eq:
  "plan_request_of transfer_args [rank_metadata ''a'' 0 packed_region, rank_metadata ''b'' 1 packed_region]
     [rank_metadata ''d'' 0 spread_region] 5 = transfer_request"
  by (simp add: plan_request_of_def transfer_args_def transfer_request_def)

lemma obliging_answers [simp]:
  "SendWorkerRpc obliging_world tr a p = (OkStatus, tr @ [Called a p (Inr [])])"
  by (simp add: SendWorkerRpc_def call_def verify_response_def obliging_world_def Let_def)

lemma transfer_dispatch: "snd (dispatch_framed obliging_world transfer_plan tr) = [OkStatus, OkStatus]"
proof -
  have "plan_src_units transfer_plan = [example_unit ''a'', example_unit ''b'']"
    "map_of (plan_rpc_addresses transfer_plan) (example_unit ''a'') = Some ''a:2''"
    "map_of (plan_rpc_addresses transfer_plan) (example_unit ''b'') = Some ''b:2''" by code_simp+
  moreover have "schedule obliging_world 2 = [1, 0]" by (simp add: obliging_world_def numeral_2_eq_2)
  ultimately show ?thesis by (simp add: dispatch_framed_def framed_sender_def Let_def numeral_2_eq_2)
qed

lemma transfer_executes:
  "fst (ExecutePoolReshard obliging_world source_directory DeliverFramed 1 0 \<lparr>while_planning = [], while_arming = []\<rparr>
     (idle_coordinator\<lparr>transfer_status := ts\<rparr>) transfer_args) = OkStatus"
proof -
  obtain registry' where b: "BuildPoolReshardPlan transfer_registry 1 transfer_request 7 = (Inr transfer_plan, registry')"
    using transfer_planned by blast
  obtain tr where m: "collect_metadata obliging_world source_directory [] transfer_args = (Inr
     ([rank_metadata ''a'' 0 packed_region, rank_metadata ''b'' 1 packed_region], [rank_metadata ''d'' 0 spread_region]), tr)"
    using transfer_collected by (metis prod.collapse)
  have a: "map_of (plan_rpc_addresses transfer_plan) (plan_dst_unit transfer_plan) = Some ''d:2''"
    "plan_skip_d2h transfer_plan = False" by code_simp+
  then have "transfer_plan\<lparr>plan_skip_d2h := args_skip_d2h transfer_args\<rparr> = transfer_plan"
    by (simp add: transfer_args_def)
  moreover have "args_is_sender transfer_args" "args_uuid transfer_args = 5" by (simp_all add: transfer_args_def)
  moreover have "x2 = [OkStatus, OkStatus]" if "dispatch_framed obliging_world transfer_plan t = (x1, x2)" for t x1 x2
    using transfer_dispatch [of t] that by simp
  ultimately show ?thesis
    by (auto simp: ExecutePoolReshard_def Let_def idle_coordinator_def m transfer_request_eq b arm_and_dispatch_def a
      dispatch_def interfere_def split: prod.splits) force
qed

theorem pool_reshard_arms_before_sending_witness:
  "GetTransferStatus (snd (StartPoolReshard obliging_world source_directory DeliverFramed 1 0
     \<lparr>while_planning = [], while_arming = []\<rparr> idle_coordinator transfer_args)) ''q'' = kCompleted"
proof -
  have inv: "rb_inv (coord_registry idle_coordinator)"
    by (simp add: idle_coordinator_def transfer_registry_def RequestBlockRegistry_init_def rb_inv_def maps_ok_def lifecycle_ok_def
      example_unit_def)
  have s: "mset (schedule obliging_world n) = mset [0..<n]" for n by (simp add: obliging_world_def)
  have l: "length (args_transfer_pool_tags transfer_args) \<le> 2147483648" "length (args_src_units transfer_args) \<le> 2147483648"
    "args_req_id transfer_args = ''q''" by (simp_all add: transfer_args_def)
  have "check_args transfer_args = OkStatus" by code_simp
  then show ?thesis
    using pool_reshard_arms_before_sending [where random = 0 and d = source_directory and delivery = DeliverFramed and now = 1
        and others = "\<lparr>while_planning = [], while_arming = []\<rparr>", OF inv s l(1,2) refl refl] transfer_executes
    by (simp add: l(3) StartPoolReshard_def Let_def)
qed

end
