(* ===== verification/Service.thy ===== *)
theory Service
  imports Coordinator
begin

text \<open>
  The reshard control plane (\<open>kv_cache/reshard/reshard_service.cc\<close>): one framed request in, one
  framed response out. A frame is read as a \<open>ControllerRequest\<close> or else as a \<open>ControlRequest\<close> and
  handled by the directory, the registry and the coordinator that the service owns. The protobuf
  codec is a parameter, as are the transport and the controller. A frame is handled at a moment:
  the clock reading, the random number drawn for a request without uuid, what other threads do to
  the registry during a transfer, and the directory that \<open>Register\<close> read before it took the lock a
  second time. Frames that change the directory happen before or after one another, since they do
  so in one critical section. The socket server and the process around it are not modelled.
\<close>

section \<open>Messages\<close>

record CoordinateTransferRequest =
  ct_src_units :: "RaidenIdProto list"
  ct_dst_units :: "RaidenIdProto list"
  ct_uuid :: int
  ct_is_sender :: bool
  ct_dst_mem_type :: int
  ct_use_block_chunks :: bool
  ct_expected_block_count :: int
  ct_req_id :: string
  ct_src_controller_address :: string
  ct_dst_controller_address :: string
  ct_dst_device_block_ids :: "int list"
  ct_transfer_pool_tags :: "string list"
  ct_dst_block_counts :: "int list"
  ct_dst_skip_bytes :: "int list"

record PoolByteSpanProto =
  bs_src_block_ordinal :: int
  bs_src_offset_bytes :: int
  bs_dst_block_index :: int
  bs_dst_offset_bytes :: int
  bs_size_bytes :: int
  bs_src_stride_bytes :: int
  bs_dst_stride_bytes :: int
  bs_count :: int

record PoolSpanRegistrationProto =
  ps_tag :: string
  ps_block_ids :: "int list"
  ps_spans :: "PoolByteSpanProto list"
  ps_declared_bytes :: int
  ps_dst_space_version :: int

record RegisterRequestBlocksRequest =
  rr_req_id :: string
  rr_uuid :: int
  rr_unit :: RaidenIdProto
  rr_block_ids :: "int list"
  rr_pool_spans :: "PoolSpanRegistrationProto list"

record ReleaseRequestBlocksRequest =
  rel_req_id :: string
  rel_uuid :: int
  rel_force :: bool

record CompleteRequestBlocksRequest =
  cmp_req_id :: string
  cmp_uuid :: int
  cmp_unit :: RaidenIdProto

record CancelRequestBlocksIfUnclaimedRequest =
  cnc_req_id :: string
  cnc_uuid :: int

record GetTransferStatusRequest =
  gts_req_id :: string
  gts_uuid :: int

text \<open>The enumeration is open: a number without a name is kept.\<close>

datatype ControllerCommand =
    CONTROLLER_COMMAND_UNSPECIFIED | COMMAND_COORDINATE_TRANSFER | COMMAND_GET_TRANSFER_STATUS
  | COMMAND_REGISTER_REQUEST_BLOCKS | COMMAND_RELEASE_REQUEST_BLOCKS | COMMAND_COMPLETE_REQUEST_BLOCKS
  | COMMAND_CANCEL_REQUEST_BLOCKS_IF_UNCLAIMED | UnknownControllerCommand int

record ControllerRequest =
  ctl_command :: ControllerCommand
  coordinate_transfer_request :: "CoordinateTransferRequest option"
  get_transfer_status_request :: "GetTransferStatusRequest option"
  register_request_blocks_request :: "RegisterRequestBlocksRequest option"
  release_request_blocks_request :: "ReleaseRequestBlocksRequest option"
  complete_request_blocks_request :: "CompleteRequestBlocksRequest option"
  cancel_request_blocks_if_unclaimed_request :: "CancelRequestBlocksIfUnclaimedRequest option"

record ControllerResponse =
  ctl_success :: bool
  ctl_message :: string
  get_transfer_status_response :: "int option"
  ctl_response_data :: string

text \<open>What the accessor of an absent sub-message returns.\<close>

definition default_RaidenIdProto :: RaidenIdProto where
  "default_RaidenIdProto = \<lparr>job_name_pb = [], job_replica_id_pb = [], data_name_pb = [], data_replica_idx_pb = 0\<rparr>"

definition default_CoordinateTransferRequest :: CoordinateTransferRequest where
  "default_CoordinateTransferRequest =
     \<lparr>ct_src_units = [], ct_dst_units = [], ct_uuid = 0, ct_is_sender = False, ct_dst_mem_type = 0,
      ct_use_block_chunks = False, ct_expected_block_count = 0, ct_req_id = [], ct_src_controller_address = [],
      ct_dst_controller_address = [], ct_dst_device_block_ids = [], ct_transfer_pool_tags = [],
      ct_dst_block_counts = [], ct_dst_skip_bytes = []\<rparr>"

definition default_RegisterRequestBlocksRequest :: RegisterRequestBlocksRequest where
  "default_RegisterRequestBlocksRequest =
     \<lparr>rr_req_id = [], rr_uuid = 0, rr_unit = default_RaidenIdProto, rr_block_ids = [], rr_pool_spans = []\<rparr>"

definition default_ReleaseRequestBlocksRequest :: ReleaseRequestBlocksRequest where
  "default_ReleaseRequestBlocksRequest = \<lparr>rel_req_id = [], rel_uuid = 0, rel_force = False\<rparr>"

definition default_CompleteRequestBlocksRequest :: CompleteRequestBlocksRequest where
  "default_CompleteRequestBlocksRequest = \<lparr>cmp_req_id = [], cmp_uuid = 0, cmp_unit = default_RaidenIdProto\<rparr>"

definition default_CancelRequestBlocksIfUnclaimedRequest :: CancelRequestBlocksIfUnclaimedRequest where
  "default_CancelRequestBlocksIfUnclaimedRequest = \<lparr>cnc_req_id = [], cnc_uuid = 0\<rparr>"

definition default_GetTransferStatusRequest :: GetTransferStatusRequest where
  "default_GetTransferStatusRequest = \<lparr>gts_req_id = [], gts_uuid = 0\<rparr>"

definition default_RegisterWorkUnitRequest :: RegisterWorkUnitRequest where
  "default_RegisterWorkUnitRequest =
     \<lparr>unit_pb = default_RaidenIdProto, shards_pb = [], control_plane_rpc_address_pb = [], itemsize_pb = 0,
      mesh_shape_pb = [], layout_pb = [], global_shape_pb = [], pools_pb = [], layout_fingerprint_pb = [],
      page_tokens_pb = 0, transfer_parallelism_pb = 0, transfer_rank_pb = 0, variables_pb = [], mesh_axes_pb = []\<rparr>"

definition default_StartTransferRequest :: StartTransferRequest where
  "default_StartTransferRequest =
     \<lparr>st_src_units = [], st_dst_units = [], shard_push_schedules = [], st_uuid = 0, is_sender = False,
      dst_mem_type = 0, use_block_chunks = False, expected_block_count = 0, st_req_id = [], pool_dtype_tags = [],
      transfer_pool_indices = [], st_parallelism = 0, skip_d2h = None, pool_groups_pb = [], skip_tiling = [],
      expected_layer_chunk_counts = []\<rparr>"

section \<open>State\<close>

record codec =
  ParseControllerRequest :: "string \<Rightarrow> ControllerRequest option"
  ParseControlRequest :: "string \<Rightarrow> ControlRequest option"
  SerializeControllerResponse :: "ControllerResponse \<Rightarrow> string"
  SerializeControlResponse :: "ControlResponse \<Rightarrow> string"

record moment =
  at_time :: real
  random_uuid :: int
  other_threads :: interference
  manifest_snapshot :: WorkUnitDirectory

text \<open>The registry is the one of the coordinator; a call of the shutdown callback is counted.\<close>

record ReshardService =
  delivery :: WorkerDelivery
  directory :: WorkUnitDirectory
  coordinator :: ReshardCoordinator
  shutdown_callback :: bool
  shutdown_calls :: nat

abbreviation registry :: "ReshardService \<Rightarrow> RequestBlockRegistry" where
  "registry svc \<equiv> coord_registry (coordinator svc)"

definition set_registry :: "RequestBlockRegistry \<Rightarrow> ReshardService \<Rightarrow> ReshardService" where
  "set_registry s svc = svc\<lparr>coordinator := (coordinator svc)\<lparr>coord_registry := s\<rparr>\<rparr>"

definition ReshardService_init :: "(real \<Rightarrow> real) \<Rightarrow> WorkerDelivery \<Rightarrow> bool \<Rightarrow> ReshardService" where
  "ReshardService_init dl deliver callback =
     \<lparr>delivery = deliver, directory = WorkUnitDirectory_init,
      coordinator = \<lparr>coord_registry = RequestBlockRegistry_init dl, transfer_status = [], claim_counter = 1, sent = []\<rparr>,
      shutdown_callback = callback, shutdown_calls = 0\<rparr>"

section \<open>Controller commands\<close>

definition controller_reply :: "bool \<Rightarrow> string \<Rightarrow> string \<Rightarrow> ControllerResponse" where
  "controller_reply ok msg data =
     \<lparr>ctl_success = ok, ctl_message = msg, get_transfer_status_response = None, ctl_response_data = data\<rparr>"

text \<open>The reply to a status: its message, or success with the rendered value.\<close>

definition status_reply :: "('a \<Rightarrow> string) \<Rightarrow> 'a status_or \<Rightarrow> ControllerResponse" where
  "status_reply render st =
     (case st of Inl e \<Rightarrow> controller_reply False (err_message e) [] | Inr v \<Rightarrow> controller_reply True [] (render v))"

definition coordinate_args :: "CoordinateTransferRequest \<Rightarrow> PoolReshardArgs" where
  "coordinate_args q =
     \<lparr>args_src_units = map RaidenIdFromProto (ct_src_units q), args_dst_units = map RaidenIdFromProto (ct_dst_units q),
      args_req_id = ct_req_id q, args_dst_device_block_ids = ct_dst_device_block_ids q,
      has_dst_device_block_ids = (ct_dst_device_block_ids q \<noteq> []), args_use_block_chunks = ct_use_block_chunks q,
      args_dst_mem_type = ct_dst_mem_type q, dst_controller_address = ct_dst_controller_address q,
      args_uuid = (if 0 < ct_uuid q then ct_uuid q else 0), args_is_sender = ct_is_sender q,
      args_num_tokens = (if ct_dst_device_block_ids q \<noteq> [] then Some 0 else None),
      args_transfer_pool_tags = ct_transfer_pool_tags q, args_parallelism = None, args_skip_d2h = False,
      args_dst_block_counts = ct_dst_block_counts q, args_dst_skip_bytes = ct_dst_skip_bytes q\<rparr>"

definition coordinate_transfer ::
  "world \<Rightarrow> moment \<Rightarrow> ReshardService \<Rightarrow> CoordinateTransferRequest \<Rightarrow> ControllerResponse \<times> ReshardService" where
  "coordinate_transfer w m svc q =
     (if ct_dst_device_block_ids q = [] \<and> ct_transfer_pool_tags q = [] then
        (controller_reply False (''Legacy dense transfers are not implemented by the C++ reshard '' @
           ''controller; keep the Python sidecar for dense/weight-sync '' @ ''paths'') [], svc)
      else
        let res = StartPoolReshard w (directory svc) (delivery svc) (at_time m) (random_uuid m) (other_threads m)
                    (coordinator svc) (coordinate_args q)
        in (status_reply (\<lambda>_. []) (fst res), svc\<lparr>coordinator := snd res\<rparr>))"

fun status_value :: "TransferStatus \<Rightarrow> int" where
  "status_value kNotStarted = 1"
| "status_value kInProgress = 2"
| "status_value kCompleted = 3"
| "status_value kFailed = 4"

definition byte_span_of :: "PoolByteSpanProto \<Rightarrow> PoolByteSpan" where
  "byte_span_of p =
     \<lparr>src_block_ordinal = bs_src_block_ordinal p, src_offset_bytes = bs_src_offset_bytes p,
      dst_block_index = bs_dst_block_index p, dst_offset_bytes = bs_dst_offset_bytes p, size_bytes = bs_size_bytes p,
      src_stride_bytes = bs_src_stride_bytes p, dst_stride_bytes = bs_dst_stride_bytes p, span_count = bs_count p\<rparr>"

definition pool_spans_of :: "PoolSpanRegistrationProto \<Rightarrow> PoolSpanRegistration" where
  "pool_spans_of p =
     \<lparr>span_tag = ps_tag p, span_block_ids = ps_block_ids p, spans = map byte_span_of (ps_spans p),
      declared_bytes = ps_declared_bytes p, dst_space_version = ps_dst_space_version p\<rparr>"

definition register_request_blocks ::
  "moment \<Rightarrow> ReshardService \<Rightarrow> RegisterRequestBlocksRequest \<Rightarrow> ControllerResponse \<times> ReshardService" where
  "register_request_blocks m svc q =
     (case Register (manifest_snapshot m) (directory svc) (registry svc) (at_time m) (rr_req_id q) (rr_uuid q)
          (RaidenIdFromProto (rr_unit q)) (rr_block_ids q) (map pool_spans_of (rr_pool_spans q)) of
        (st, s) \<Rightarrow> (status_reply (\<lambda>_. []) st, set_registry s svc))"

definition release_request_blocks ::
  "moment \<Rightarrow> ReshardService \<Rightarrow> ReleaseRequestBlocksRequest \<Rightarrow> ControllerResponse \<times> ReshardService" where
  "release_request_blocks m svc q =
     (if \<not> rel_force q then
        (controller_reply False (''Legacy rank-local release is unsafe; use the aggregate '' @ ''completion-vote RPC'') [], svc)
      else case Release (registry svc) (at_time m) (rel_req_id q) (rel_uuid q) of
        (st, s) \<Rightarrow> (status_reply dec st, set_registry s svc))"

definition complete_request_blocks ::
  "moment \<Rightarrow> ReshardService \<Rightarrow> CompleteRequestBlocksRequest \<Rightarrow> ControllerResponse \<times> ReshardService" where
  "complete_request_blocks m svc q =
     (case Complete (registry svc) (at_time m) (cmp_req_id q) (cmp_uuid q) (RaidenIdFromProto (cmp_unit q)) of
        (st, s) \<Rightarrow> (status_reply dec st, set_registry s svc))"

definition cancel_request_blocks ::
  "moment \<Rightarrow> ReshardService \<Rightarrow> CancelRequestBlocksIfUnclaimedRequest \<Rightarrow> ControllerResponse \<times> ReshardService" where
  "cancel_request_blocks m svc q =
     (case CancelIfUnclaimed (registry svc) (at_time m) (cnc_req_id q) (cnc_uuid q) of
        (st, s) \<Rightarrow> (status_reply (\<lambda>b. if b then ''true'' else ''false'') st, set_registry s svc))"

definition HandleControllerCommand ::
  "world \<Rightarrow> moment \<Rightarrow> ReshardService \<Rightarrow> ControllerRequest \<Rightarrow> ControllerResponse \<times> ReshardService" where
  "HandleControllerCommand w m svc req =
     (case ctl_command req of
        COMMAND_COORDINATE_TRANSFER \<Rightarrow>
          coordinate_transfer w m svc (value_or (coordinate_transfer_request req) default_CoordinateTransferRequest)
      | COMMAND_GET_TRANSFER_STATUS \<Rightarrow>
          ((controller_reply True [] [])\<lparr>get_transfer_status_response :=
             Some (status_value (GetTransferStatus (coordinator svc)
               (gts_req_id (value_or (get_transfer_status_request req) default_GetTransferStatusRequest))))\<rparr>, svc)
      | COMMAND_REGISTER_REQUEST_BLOCKS \<Rightarrow>
          register_request_blocks m svc
            (value_or (register_request_blocks_request req) default_RegisterRequestBlocksRequest)
      | COMMAND_RELEASE_REQUEST_BLOCKS \<Rightarrow>
          release_request_blocks m svc (value_or (release_request_blocks_request req) default_ReleaseRequestBlocksRequest)
      | COMMAND_COMPLETE_REQUEST_BLOCKS \<Rightarrow>
          complete_request_blocks m svc
            (value_or (complete_request_blocks_request req) default_CompleteRequestBlocksRequest)
      | COMMAND_CANCEL_REQUEST_BLOCKS_IF_UNCLAIMED \<Rightarrow>
          cancel_request_blocks m svc
            (value_or (cancel_request_blocks_if_unclaimed_request req) default_CancelRequestBlocksIfUnclaimedRequest)
      | _ \<Rightarrow> (controller_reply False ''COMMAND_UNSPECIFIED'' [], svc))"

section \<open>Worker commands\<close>

definition control_reply :: "bool \<Rightarrow> string \<Rightarrow> ControlResponse" where
  "control_reply ok msg =
     \<lparr>resp_success = ok, resp_message = msg, response_data = [], get_metadata_response = []\<rparr>"

definition present :: "('a \<Rightarrow> bool) \<Rightarrow> 'a \<Rightarrow> 'a option" where
  "present P x = (if P x then Some x else None)"

definition registration_of :: "RegisterWorkUnitRequest \<Rightarrow> WorkUnitRegistration" where
  "registration_of reg =
     \<lparr>reg_unit = RaidenIdFromProto (unit_pb reg), reg_shards = shards_pb reg,
      reg_control_plane_rpc_address = present (\<lambda>a. a \<noteq> []) (control_plane_rpc_address_pb reg),
      reg_mesh_shape = present (\<lambda>xs. xs \<noteq> []) (mesh_shape_pb reg),
      reg_layout = present (\<lambda>xs. xs \<noteq> []) (layout_pb reg),
      reg_global_shape = present (\<lambda>xs. xs \<noteq> []) (global_shape_pb reg),
      reg_itemsize = present (\<lambda>n. 0 < n) (itemsize_pb reg),
      reg_pool_manifest = present (\<lambda>xs. xs \<noteq> []) (pools_pb reg),
      reg_layout_fingerprint = present (\<lambda>f. f \<noteq> []) (layout_fingerprint_pb reg),
      reg_page_tokens = present (\<lambda>n. 0 < n) (page_tokens_pb reg),
      reg_transfer_parallelism = present (\<lambda>n. 0 < n) (transfer_parallelism_pb reg),
      reg_transfer_rank = (if pools_pb reg \<noteq> [] then Some (transfer_rank_pb reg) else None),
      reg_variables = present (\<lambda>xs. xs \<noteq> []) (variables_pb reg)\<rparr>"

definition register_work_unit ::
  "ReshardService \<Rightarrow> RegisterWorkUnitRequest \<Rightarrow> ControlResponse \<times> ReshardService" where
  "register_work_unit svc reg =
     (let registration = registration_of reg in
      case Validate registration of
        Inl e \<Rightarrow> (control_reply False (err_message e), svc)
      | Inr _ \<Rightarrow>
          (control_reply True [],
           set_registry (InvalidateUnitLocked (registry svc) (reg_unit registration))
             (svc\<lparr>directory := RegisterLocked (directory svc) registration\<rparr>)))"

definition shutdown_addresses :: "WorkUnitDirectory \<Rightarrow> string list" where
  "shutdown_addresses d =
     sort (remdups (filter (\<lambda>a. a \<noteq> []) (map control_plane_rpc_address_pb (AllMetadata d))))"

definition shutdown_all :: "world \<Rightarrow> ReshardService \<Rightarrow> ControlResponse \<times> ReshardService" where
  "shutdown_all w svc =
     (let payload = SerializeAsString w \<lparr>command = COMMAND_SHUTDOWN, peers = [], start_transfer_request = None,
                      register_work_unit_request = None\<rparr>;
          c = coordinator svc;
          trace = foldl (\<lambda>trace a. snd (call w trace a payload)) (sent c) (shutdown_addresses (directory svc))
      in (control_reply True [],
          svc\<lparr>coordinator := c\<lparr>sent := trace\<rparr>,
              shutdown_calls := shutdown_calls svc + (if shutdown_callback svc then 1 else 0)\<rparr>))"

definition target_worker :: "WorkUnitDirectory \<Rightarrow> StartTransferRequest \<Rightarrow> string" where
  "target_worker d q =
     (case st_dst_units q of
        [] \<Rightarrow> ''worker_0''
      | u # _ \<Rightarrow>
          (case LocalMetadata d [RaidenIdFromProto u] of
             Inr (meta # _) \<Rightarrow>
               if 0 \<le> transfer_rank_pb meta then ''worker_'' @ dec (transfer_rank_pb meta) else ''worker_0''
           | _ \<Rightarrow> ''worker_0''))"

definition HandleRaidenStartTransfer ::
  "world \<Rightarrow> ReshardService \<Rightarrow> ControlRequest \<Rightarrow> ControlResponse \<times> ReshardService" where
  "HandleRaidenStartTransfer w svc req =
     (let q = value_or (start_transfer_request req) default_StartTransferRequest; c = coordinator svc in
      case delivery svc of
        DeliverFramed \<Rightarrow> (control_reply False ''START_TRANSFER is handled by worker listeners in framed mode'', svc)
      | DeliverController False \<Rightarrow> (control_reply False ''ReshardService has no RaidenController configured'', svc)
      | DeliverController True \<Rightarrow>
          (case CompileStartTransfer q of
             Inl e \<Rightarrow> (control_reply False (err_message e), svc)
           | Inr compiled \<Rightarrow>
               let worker_id = target_worker (directory svc) q;
                   response = controller w (sent c) worker_id compiled;
                   svc' = svc\<lparr>coordinator := c\<lparr>sent := sent c @ [Submitted worker_id compiled response]\<rparr>\<rparr>
               in (case response of
                     Inl e \<Rightarrow> (control_reply False (err_message e), svc')
                   | Inr r \<Rightarrow> (control_reply (program_success r) (program_message r), svc'))))"

definition HandleRaidenCommand ::
  "world \<Rightarrow> codec \<Rightarrow> ReshardService \<Rightarrow> string \<Rightarrow> ControlResponse \<times> ReshardService" where
  "HandleRaidenCommand w cd svc bytes =
     (case ParseControlRequest cd bytes of
        None \<Rightarrow> (control_reply False ''Failed to parse ControlRequest'', svc)
      | Some req \<Rightarrow>
          (case command req of
             COMMAND_REGISTER_WORK_UNIT \<Rightarrow>
               register_work_unit svc (value_or (register_work_unit_request req) default_RegisterWorkUnitRequest)
           | COMMAND_GET_METADATA \<Rightarrow>
               ((control_reply True [])\<lparr>get_metadata_response := AllMetadata (directory svc)\<rparr>, svc)
           | COMMAND_REGISTER_TRANSFER_SCHEDULE \<Rightarrow>
               (let q = value_or (start_transfer_request req) default_StartTransferRequest in
                if transfer_pool_indices q \<noteq> [] \<or> pool_groups_pb q \<noteq> [] then
                  (control_reply False (''Inter-controller reshard schedule registration is retired: '' @
                     ''the planning controller arms destination workers directly''), svc)
                else
                  (control_reply False (''Legacy transfer scheduling is not implemented by the C++ '' @
                     ''reshard controller; keep the Python sidecar for '' @ ''dense/weight-sync paths''), svc))
           | COMMAND_START_TRANSFER \<Rightarrow> HandleRaidenStartTransfer w svc req
           | COMMAND_SHUTDOWN \<Rightarrow> shutdown_all w svc
           | _ \<Rightarrow> (control_reply False ''COMMAND_UNSPECIFIED'', svc)))"

section \<open>Frames\<close>

definition is_controller_command :: "ControllerRequest \<Rightarrow> bool" where
  "is_controller_command req =
     (ctl_command req = COMMAND_COORDINATE_TRANSFER \<and> coordinate_transfer_request req \<noteq> None \<or>
      ctl_command req = COMMAND_GET_TRANSFER_STATUS \<and> get_transfer_status_request req \<noteq> None \<or>
      ctl_command req = COMMAND_REGISTER_REQUEST_BLOCKS \<and> register_request_blocks_request req \<noteq> None \<or>
      ctl_command req = COMMAND_RELEASE_REQUEST_BLOCKS \<and> release_request_blocks_request req \<noteq> None \<or>
      ctl_command req = COMMAND_COMPLETE_REQUEST_BLOCKS \<and> complete_request_blocks_request req \<noteq> None \<or>
      ctl_command req = COMMAND_CANCEL_REQUEST_BLOCKS_IF_UNCLAIMED \<and>
        cancel_request_blocks_if_unclaimed_request req \<noteq> None)"

text \<open>A request that does not parse counts as one without a command, hence as a worker command.\<close>

definition HandleFrame :: "world \<Rightarrow> codec \<Rightarrow> moment \<Rightarrow> ReshardService \<Rightarrow> string \<Rightarrow> string \<times> ReshardService" where
  "HandleFrame w cd m svc bytes =
     (case ParseControllerRequest cd bytes of
        Some req \<Rightarrow>
          if is_controller_command req then
            (case HandleControllerCommand w m svc req of (resp, svc') \<Rightarrow> (SerializeControllerResponse cd resp, svc'))
          else (case HandleRaidenCommand w cd svc bytes of (resp, svc') \<Rightarrow> (SerializeControlResponse cd resp, svc'))
      | None \<Rightarrow>
          (case HandleRaidenCommand w cd svc bytes of (resp, svc') \<Rightarrow> (SerializeControlResponse cd resp, svc')))"

section \<open>What keeps a contract of the registry\<close>

text \<open>
  A property of the registry that the allowed operations keep, the coordinator's own two among
  them, is kept by a whole transfer while other threads use allowed operations.
\<close>

locale registry_client =
  fixes good :: "RequestBlockRegistry \<Rightarrow> bool" and allowed :: "lifecycle_op \<Rightarrow> bool"
  assumes good_step: "good s \<Longrightarrow> allowed op \<Longrightarrow> good (lifecycle_step s op)"
    and allowed_claim: "allowed (DoClaim now r uid us owner)"
    and allowed_abandon: "allowed (DoAbandon r uid owner)"
begin

lemma good_run: "good s \<Longrightarrow> list_all allowed ops \<Longrightarrow> good (lifecycle_run s ops)"
  unfolding lifecycle_run_def by (induction ops arbitrary: s) (auto intro: good_step)

lemma good_interfere: "good (coord_registry c) \<Longrightarrow> list_all allowed ops \<Longrightarrow> good (coord_registry (interfere ops c))"
  by (simp add: interfere_def good_run)

lemma good_abandon: "good (coord_registry c) \<Longrightarrow> good (coord_registry (abandon r uid owner c))"
  using good_step [OF _ allowed_abandon, of "coord_registry c" r uid owner] by (simp add: abandon_def)

lemma good_build: "good s \<Longrightarrow> good (snd (BuildPoolReshardPlan s now request owner))"
  using good_step [OF _ allowed_claim, of s now "req_id request" "uuid request" "src_units request" owner]
  by (auto simp: BuildPoolReshardPlan_def split: sum.splits prod.splits)

lemma good_dispatch: "good (coord_registry c) \<Longrightarrow> good (coord_registry (snd (dispatch w dv plan r uid owner c)))"
  by (auto simp: dispatch_def good_abandon split: WorkerDelivery.split bool.split prod.split)

lemma good_arm:
  assumes "good (coord_registry c)" "list_all allowed (while_arming others)"
  shows "good (coord_registry (snd (arm_and_dispatch w dv others plan r uid owner c)))"
proof -
  have "good (coord_registry (interfere (while_arming others) (c\<lparr>sent := trace\<rparr>)))" for trace
    using assms by (intro good_interfere) simp_all
  then show ?thesis using assms(1)
    by (auto simp: arm_and_dispatch_def Let_def good_abandon good_dispatch split: option.split prod.split sum.split)
qed

lemma good_execute:
  assumes "good (coord_registry c)" "list_all allowed (while_planning others)" "list_all allowed (while_arming others)"
  shows "good (coord_registry (snd (ExecutePoolReshard w d dv now random others c args)))"
proof -
  have "good (coord_registry (interfere (while_planning others) (c\<lparr>sent := trace, claim_counter := n,
      coord_registry := snd (BuildPoolReshardPlan (coord_registry c) now request owner)\<rparr>)))" for trace n request owner
    using assms good_build by (intro good_interfere) simp_all
  then show ?thesis using assms(1,3)
    by (auto simp: ExecutePoolReshard_def Let_def good_abandon good_arm split: prod.split sum.split)
qed

lemma good_start:
  assumes "good (coord_registry c)" "list_all allowed (while_planning others)" "list_all allowed (while_arming others)"
  shows "good (coord_registry (snd (StartPoolReshard w d dv now random others c args)))"
  using good_execute [OF _ assms(2,3)] assms(1) by (auto simp: StartPoolReshard_def Let_def split: sum.split)

end

text \<open>The rows of the registry belong to units of the directory.\<close>

definition rows_registered :: "WorkUnitDirectory \<Rightarrow> RequestBlockRegistry \<Rightarrow> bool" where
  "rows_registered d s \<longleftrightarrow> (\<forall>((r, u), row)\<in>set (request_blocks s). IsRegisteredLocked d u)"

fun registers_known :: "WorkUnitDirectory \<Rightarrow> lifecycle_op \<Rightarrow> bool" where
  "registers_known d (DoRegister d1 d2 now r uid u ids sps) = (IsRegisteredLocked d2 u \<longrightarrow> IsRegisteredLocked d u)"
| "registers_known d _ = True"

lemma rows_registered_mono:
  "rows_registered d s \<Longrightarrow> set (request_blocks s') \<subseteq> set (request_blocks s) \<Longrightarrow> rows_registered d s'"
  unfolding rows_registered_def by blast

lemma erase_rows_subset: "set (request_blocks (erase_rows s ks)) \<subseteq> set (request_blocks s)"
proof -
  have "set (foldl (\<lambda>m k. del k m) m ks) \<subseteq> set m" for m :: "(BlockKey, RequestBlockRegistration) amap"
  proof (induction ks arbitrary: m)
    case (Cons k ks)
    have "set (del k m) \<subseteq> set m" by (auto simp: del_def)
    with Cons.IH [of "del k m"] show ?case by simp
  qed simp
  then show ?thesis by (simp add: erase_rows_def)
qed

lemma retire_subset: "set (request_blocks (snd (RetireLocked s key))) \<subseteq> set (request_blocks s)"
  using erase_rows_subset by (simp add: RetireLocked_def Let_def)

lemma purge_subset: "set (request_blocks (purge_all s now)) \<subseteq> set (request_blocks s)"
  "request_blocks (PurgeExpiredLifecycleLocked s now) = request_blocks s"
  by (auto simp: purge_all_def PurgeExpiredLifecycleLocked_def PurgeExpiredRequestBlocksLocked_def Let_def)

lemma commit_subset: "set (request_blocks (commit_claim s now key us owner)) \<subseteq> set (request_blocks s)"
proof -
  have "set (request_blocks (snd (RetireLocked s' key))) \<subseteq> set (request_blocks s)" if "request_blocks s' = request_blocks s" for s'
    using retire_subset [of s' key] by (simp add: that)
  then show ?thesis by (simp add: commit_claim_def Let_def split: option.split)
qed

lemma release_subset: "set (request_blocks (snd (Release s now r uid))) \<subseteq> set (request_blocks s)"
  using retire_subset [of "purge_all s now" "(r, uid)"] purge_subset(1) [of s now]
  by (auto simp: Release_def split: sum.split prod.split)

lemma claim_subset: "set (request_blocks (snd (LookupAndClaim s now r uid us owner))) \<subseteq> set (request_blocks s)"
  by (rule LookupAndClaim_cases [of s now r uid us owner]) (use purge_subset(1) commit_subset in fastforce)+

lemma complete_subset: "set (request_blocks (snd (Complete s now r uid u))) \<subseteq> set (request_blocks s)"
proof -
  have "set (request_blocks (snd (RetireLocked ((purge_all s now)\<lparr>completed_units := cs\<rparr>) key))) \<subseteq> set (request_blocks s)" for cs key
    using retire_subset [of "(purge_all s now)\<lparr>completed_units := cs\<rparr>" key] purge_subset(1) [of s now] by simp
  then show ?thesis using purge_subset(1) [of s now]
    by (simp add: Complete_def Let_def case_prod_beta split: sum.split option.split)
qed

lemma cancel_subset: "set (request_blocks (snd (CancelIfUnclaimed s now r uid))) \<subseteq> set (request_blocks s)"
proof -
  have "set (request_blocks (erase_rows ((PurgeExpiredLifecycleLocked s now)\<lparr>cancelled := a, completed_units := b,
      claimed_units := c, claimed_owners := e\<rparr>) ks)) \<subseteq> set (request_blocks s)" for a b c e ks
    using erase_rows_subset [of "(PurgeExpiredLifecycleLocked s now)\<lparr>cancelled := a, completed_units := b,
      claimed_units := c, claimed_owners := e\<rparr>" ks] by (simp add: purge_subset(2))
  then show ?thesis by (simp add: CancelIfUnclaimed_def Let_def purge_subset(2) split: sum.split)
qed

lemma abandon_subset: "set (request_blocks (snd (AbandonClaim s r uid owner))) \<subseteq> set (request_blocks s)"
  by (simp add: AbandonClaim_def Let_def)

lemma invalidate_subset: "set (request_blocks (InvalidateUnitLocked s u)) \<subseteq> set (request_blocks s)"
  by (auto simp: InvalidateUnitLocked_def)

lemmas operation_subsets = release_subset complete_subset cancel_subset claim_subset abandon_subset invalidate_subset

lemma put_subset: "set (put k v m) \<subseteq> insert (k, v) (set m)"
  by (induction k v m rule: put.induct) auto

lemma rows_registered_Register:
  assumes "rows_registered d s" "IsRegisteredLocked d2 u \<longrightarrow> IsRegisteredLocked d u"
  shows "rows_registered d (snd (Register d1 d2 s now r uid u ids sps))"
proof (rule Register_cases [of d1 d2 s now r uid u ids sps])
  let ?row = "\<lparr>row_uuid = uid, row_block_ids = ids, row_expires_at = deadline s now, row_pool_spans = sps\<rparr>"
  assume "Register d1 d2 s now r uid u ids sps = (OkStatus, (purge_all s now)\<lparr>request_blocks :=
        put (r, u) ?row (request_blocks (purge_all s now))\<rparr>)" "IsRegisteredLocked d2 u"
  moreover have "set (put (r, u) ?row (request_blocks (purge_all s now))) \<subseteq> insert ((r, u), ?row) (set (request_blocks s))"
    using put_subset purge_subset(1) by fast
  ultimately show ?thesis using assms unfolding rows_registered_def by fastforce
qed (use assms rows_registered_mono purge_subset(1) in auto)

interpretation rows: registry_client "\<lambda>s. rb_inv s \<and> rows_registered d s" "registers_known d" for d
proof
  fix s op assume s: "rb_inv s \<and> rows_registered d s" and op: "registers_known d op"
  have "rows_registered d (lifecycle_step s op)"
  proof (cases op)
    case (DoRegister d1 d2 now r uid u ids sps)
    then show ?thesis using s op rows_registered_Register by simp
  qed (use s rows_registered_mono operation_subsets in auto)
  then show "rb_inv (lifecycle_step s op) \<and> rows_registered d (lifecycle_step s op)" using s lifecycle_step_inv by blast
qed simp_all

section \<open>Reachable states\<close>

text \<open>
  The states between frames: any frames at any moments, where the threads that run beside a
  transfer register blocks only for units that the directory has.
\<close>

inductive service_reach :: "world \<Rightarrow> codec \<Rightarrow> ReshardService \<Rightarrow> bool" for w cd where
  started: "service_reach w cd (ReshardService_init dl dv callback)"
| frame: "service_reach w cd svc \<Longrightarrow>
    list_all (registers_known (directory svc)) (while_planning (other_threads m)) \<Longrightarrow>
    list_all (registers_known (directory svc)) (while_arming (other_threads m)) \<Longrightarrow>
    service_reach w cd (snd (HandleFrame w cd m svc bytes))"

definition service_inv :: "ReshardService \<Rightarrow> bool" where
  "service_inv svc \<longleftrightarrow> dir_inv (directory svc) \<and> rb_inv (registry svc) \<and> rows_registered (directory svc) (registry svc)"

lemma set_registry_fields [simp]:
  "directory (set_registry s svc) = directory svc" "coord_registry (coordinator (set_registry s svc)) = s"
  "transfer_status (coordinator (set_registry s svc)) = transfer_status (coordinator svc)"
  "sent (coordinator (set_registry s svc)) = sent (coordinator svc)"
  by (simp_all add: set_registry_def)

lemma service_inv_registry:
  "service_inv svc \<Longrightarrow> rb_inv s \<and> rows_registered (directory svc) s \<Longrightarrow> service_inv (set_registry s svc)"
  by (simp add: service_inv_def)

text \<open>A handler that makes one step of the registry.\<close>

lemma service_inv_step:
  assumes "service_inv svc" "registers_known (directory svc) op"
  shows "service_inv (set_registry (lifecycle_step (registry svc) op) svc)"
  using assms rows.good_step [of "registry svc" "directory svc" op]
  by (intro service_inv_registry) (auto simp: service_inv_def)

lemma request_handlers_inv:
  assumes "service_inv svc"
  shows "service_inv (snd (register_request_blocks m svc q1))" "service_inv (snd (release_request_blocks m svc q2))"
    "service_inv (snd (complete_request_blocks m svc q3))" "service_inv (snd (cancel_request_blocks m svc q4))"
proof -
  show "service_inv (snd (register_request_blocks m svc q1))"
    using service_inv_step [OF assms, of "DoRegister (manifest_snapshot m) (directory svc) (at_time m) (rr_req_id q1) (rr_uuid q1)
      (RaidenIdFromProto (rr_unit q1)) (rr_block_ids q1) (map pool_spans_of (rr_pool_spans q1))"]
    by (simp add: register_request_blocks_def case_prod_beta)
  show "service_inv (snd (release_request_blocks m svc q2))"
    using assms service_inv_step [OF assms, of "DoRelease (at_time m) (rel_req_id q2) (rel_uuid q2)"]
    by (simp add: release_request_blocks_def case_prod_beta)
  show "service_inv (snd (complete_request_blocks m svc q3))"
    using service_inv_step [OF assms, of "DoComplete (at_time m) (cmp_req_id q3) (cmp_uuid q3) (RaidenIdFromProto (cmp_unit q3))"]
    by (simp add: complete_request_blocks_def case_prod_beta)
  show "service_inv (snd (cancel_request_blocks m svc q4))"
    using service_inv_step [OF assms, of "DoCancel (at_time m) (cnc_req_id q4) (cnc_uuid q4)"]
    by (simp add: cancel_request_blocks_def case_prod_beta)
qed

lemma coordinate_transfer_inv:
  assumes "service_inv svc" "list_all (registers_known (directory svc)) (while_planning (other_threads m))"
    "list_all (registers_known (directory svc)) (while_arming (other_threads m))"
  shows "service_inv (snd (coordinate_transfer w m svc q))"
  using assms rows.good_start [OF _ assms(2,3), of "coordinator svc"]
  by (auto simp: coordinate_transfer_def Let_def service_inv_def)

lemma HandleControllerCommand_inv:
  assumes "service_inv svc" "list_all (registers_known (directory svc)) (while_planning (other_threads m))"
    "list_all (registers_known (directory svc)) (while_arming (other_threads m))"
  shows "service_inv (snd (HandleControllerCommand w m svc req))"
  using assms(1) request_handlers_inv [OF assms(1)] coordinate_transfer_inv [OF assms]
  by (simp add: HandleControllerCommand_def split: ControllerCommand.split)

lemma registered_after: "dir_inv d \<Longrightarrow> IsRegisteredLocked d u \<Longrightarrow> IsRegisteredLocked (RegisterLocked d reg) u"
  by (simp add: IsRegisteredLocked_iff RegisterLocked_map)

lemma register_work_unit_inv:
  assumes "service_inv svc" shows "service_inv (snd (register_work_unit svc reg))"
proof -
  let ?d = "RegisterLocked (directory svc) (registration_of reg)"
  let ?s = "InvalidateUnitLocked (registry svc) (reg_unit (registration_of reg))"
  have i: "dir_inv (directory svc)" "rb_inv (registry svc)" "rows_registered (directory svc) (registry svc)"
    using assms by (simp_all add: service_inv_def)
  have "rows_registered ?d (registry svc)" using i(3) registered_after [OF i(1)] unfolding rows_registered_def by fast
  then have "service_inv (set_registry ?s (svc\<lparr>directory := ?d\<rparr>))"
    using rows_registered_mono [OF _ invalidate_subset] Invalidate_rb_inv [OF i(2)] RegisterLocked_map(1) [OF i(1)]
    by (simp add: service_inv_def)
  then show ?thesis using assms by (simp add: register_work_unit_def Let_def split: sum.split)
qed

lemma HandleRaidenCommand_inv:
  assumes "service_inv svc" shows "service_inv (snd (HandleRaidenCommand w cd svc bytes))"
proof -
  have "service_inv (svc\<lparr>coordinator := (coordinator svc)\<lparr>sent := trace\<rparr>, shutdown_calls := n\<rparr>)"
    "service_inv (svc\<lparr>coordinator := (coordinator svc)\<lparr>sent := trace\<rparr>\<rparr>)" for trace n
    using assms by (simp_all add: service_inv_def)
  then have "service_inv (snd (shutdown_all w svc))" "service_inv (snd (HandleRaidenStartTransfer w svc req))" for req
    using assms by (simp_all add: shutdown_all_def HandleRaidenStartTransfer_def Let_def split: WorkerDelivery.split bool.split sum.split)
  then show ?thesis using assms register_work_unit_inv
    by (simp add: HandleRaidenCommand_def Let_def split: option.split Command.split)
qed

lemma service_reach_inv: "service_reach w cd svc \<Longrightarrow> service_inv svc"
proof (induction rule: service_reach.induct)
  case (started dl dv callback)
  then show ?case using init_dir_inv rb_inv_init [of dl]
    by (simp add: service_inv_def ReshardService_init_def rows_registered_def RequestBlockRegistry_init_def)
next
  case (frame svc m bytes)
  then show ?case using HandleControllerCommand_inv HandleRaidenCommand_inv
    by (simp add: HandleFrame_def case_prod_beta split: option.split)
qed

text \<open>
  Property C5 (rows belong to registered units). In every state that the service reaches by
  handling frames, whatever the frames contain, whether or not they parse, whatever workers
  answer, and whatever other threads do to the registry during a transfer, the directory has one
  record per unit, the registry satisfies its lifecycle invariant, and every row of the registry
  belongs to a unit that the directory knows.
\<close>
theorem service_rows_registered:
  assumes "service_reach w cd svc"
  shows "dir_inv (directory svc) \<and> rb_inv (registry svc) \<and>
    (\<forall>r u row. map_of (request_blocks (registry svc)) (r, u) = Some row \<longrightarrow> IsRegisteredLocked (directory svc) u)"
  using service_reach_inv [OF assms] unfolding service_inv_def rows_registered_def by (fastforce dest: map_of_SomeD)

section \<open>Restart of a worker\<close>

text \<open>A unit without rows stays without rows until it registers blocks again.\<close>

definition no_rows :: "RaidenId \<Rightarrow> RequestBlockRegistry \<Rightarrow> bool" where
  "no_rows u s \<longleftrightarrow> (\<forall>((r, v), row)\<in>set (request_blocks s). v \<noteq> u)"

fun registers_unit :: "RaidenId \<Rightarrow> lifecycle_op \<Rightarrow> bool" where
  "registers_unit u (DoRegister d1 d2 now r uid v ids sps) = (v = u)"
| "registers_unit u _ = False"

lemma no_rows_mono: "no_rows u s \<Longrightarrow> set (request_blocks s') \<subseteq> set (request_blocks s) \<Longrightarrow> no_rows u s'"
  unfolding no_rows_def by blast

lemma no_rows_Register:
  assumes "no_rows u s" "v \<noteq> u"
  shows "no_rows u (snd (Register d1 d2 s now r uid v ids sps))"
proof (rule Register_cases [of d1 d2 s now r uid v ids sps])
  let ?row = "\<lparr>row_uuid = uid, row_block_ids = ids, row_expires_at = deadline s now, row_pool_spans = sps\<rparr>"
  assume "Register d1 d2 s now r uid v ids sps = (OkStatus, (purge_all s now)\<lparr>request_blocks :=
        put (r, v) ?row (request_blocks (purge_all s now))\<rparr>)"
  moreover have "set (put (r, v) ?row (request_blocks (purge_all s now))) \<subseteq> insert ((r, v), ?row) (set (request_blocks s))"
    using put_subset purge_subset(1) by fast
  ultimately show ?thesis using assms unfolding no_rows_def by fastforce
qed (use assms no_rows_mono purge_subset(1) in auto)

interpretation gone: registry_client "no_rows u" "\<lambda>op. \<not> registers_unit u op" for u
proof
  fix s op assume s: "no_rows u s" and op: "\<not> registers_unit u op"
  show "no_rows u (lifecycle_step s op)"
  proof (cases op)
    case (DoRegister d1 d2 now r uid v ids sps)
    then show ?thesis using s op no_rows_Register by simp
  qed (use s no_rows_mono operation_subsets in auto)
qed simp_all

lemma no_rows_refused:
  assumes "no_rows u s" "u \<in> set us"
  shows "\<exists>e. fst (LookupAndClaim s now r uid us owner) = Inl e"
proof (rule LookupAndClaim_cases [of s now r uid us owner])
  fix rows assume "snapshot_rows (purge_all s now) r uid us = Inr rows"
  then obtain row where "map_of (request_blocks (purge_all s now)) (r, u) = Some row"
    using snapshot_rows_Inr assms(2) by blast
  then have "((r, u), row) \<in> set (request_blocks s)" using map_of_SomeD purge_subset(1) by fast
  then show ?thesis using assms(1) by (auto simp: no_rows_def)
qed simp

lemma invalidated_no_rows: "no_rows u (InvalidateUnitLocked s u)"
  by (auto simp: no_rows_def InvalidateUnitLocked_def)

text \<open>
  Property C4 (a restart invalidates the rows of the unit). A frame that registers a work unit
  either fails validation and changes nothing, or succeeds; then the directory answers for the
  unit with the new registration alone, every row of the unit is gone, the rows of other units and
  the claims are as before, and no planning attempt can claim a snapshot that includes the unit
  until it registers blocks again, whatever else happens to the registry.
\<close>
theorem worker_restart_invalidates:
  assumes "service_reach w cd svc"
    and "case ParseControllerRequest cd bytes of None \<Rightarrow> True | Some q \<Rightarrow> \<not> is_controller_command q"
    and "ParseControlRequest cd bytes = Some req" "command req = COMMAND_REGISTER_WORK_UNIT"
    and "register_work_unit_request req = Some reg" "u = RaidenIdFromProto (unit_pb reg)"
    and "HandleFrame w cd m svc bytes = (reply, svc')"
  shows "case Validate (registration_of reg) of
      Inl e \<Rightarrow> reply = SerializeControlResponse cd (control_reply False (err_message e)) \<and> svc' = svc
    | Inr _ \<Rightarrow> reply = SerializeControlResponse cd (control_reply True []) \<and>
        dir_map (directory svc') = (dir_map (directory svc))(u \<mapsto> make_record (registration_of reg)) \<and>
        (\<forall>r v. map_of (request_blocks (registry svc')) (r, v) =
           (if v = u then None else map_of (request_blocks (registry svc)) (r, v))) \<and>
        claimed_owners (registry svc') = claimed_owners (registry svc) \<and>
        (\<forall>ops now r uid us owner. list_all (\<lambda>op. \<not> registers_unit u op) ops \<and> u \<in> set us \<longrightarrow>
           (\<exists>e. fst (LookupAndClaim (lifecycle_run (registry svc') ops) now r uid us owner) = Inl e))"
proof -
  have i: "dir_inv (directory svc)" "maps_ok (registry svc)"
    using service_reach_inv [OF assms(1)] by (simp_all add: service_inv_def rb_inv_def)
  have u: "reg_unit (registration_of reg) = u" by (simp add: registration_of_def assms(6))
  have "HandleRaidenCommand w cd svc bytes = register_work_unit svc reg"
    using assms(3-5) by (simp add: HandleRaidenCommand_def)
  then have h: "reply = SerializeControlResponse cd (fst (register_work_unit svc reg))" "svc' = snd (register_work_unit svc reg)"
    using assms(2,7) by (auto simp: HandleFrame_def case_prod_beta split: option.splits)
  show ?thesis
  proof (cases "Validate (registration_of reg)")
    case (Inl e) then show ?thesis using h by (simp add: register_work_unit_def)
  next
    case (Inr x)
    then have e: "fst (register_work_unit svc reg) = control_reply True []"
      "directory svc' = RegisterLocked (directory svc) (registration_of reg)"
      "registry svc' = InvalidateUnitLocked (registry svc) u" by (simp_all add: h(2) register_work_unit_def u)
    have "\<exists>e. fst (LookupAndClaim (lifecycle_run (registry svc') ops) now r uid us owner) = Inl e"
      if "list_all (\<lambda>op. \<not> registers_unit u op) ops" "u \<in> set us" for ops now r uid us owner
      by (rule no_rows_refused [OF gone.good_run [OF _ that(1)] that(2)]) (simp add: e(3) invalidated_no_rows)
    moreover have "claimed_owners (registry svc') = claimed_owners (registry svc)" unfolding e(3) by (simp add: InvalidateUnitLocked_def)
    ultimately show ?thesis using Inr h(1) e RegisterLocked_map(2) [OF i(1)] Invalidate_rows [OF i(2)] by (simp add: u)
  qed
qed

section \<open>A worker that restarts\<close>

definition example_codec :: codec where
  "example_codec =
     \<lparr>ParseControllerRequest = (\<lambda>bytes. if bytes = ''blocks'' then
        Some \<lparr>ctl_command = COMMAND_REGISTER_REQUEST_BLOCKS, coordinate_transfer_request = None,
          get_transfer_status_request = None,
          register_request_blocks_request = Some \<lparr>rr_req_id = ''q'', rr_uuid = 5,
            rr_unit = RaidenIdToProto (example_unit ''a''), rr_block_ids = [1, 2], rr_pool_spans = []\<rparr>,
          release_request_blocks_request = None, complete_request_blocks_request = None,
          cancel_request_blocks_if_unclaimed_request = None\<rparr> else None),
      ParseControlRequest = (\<lambda>bytes. if bytes = ''unit'' then
        Some \<lparr>command = COMMAND_REGISTER_WORK_UNIT, peers = [], start_transfer_request = None,
          register_work_unit_request = Some (rank_metadata ''a'' 0 packed_region)\<rparr> else None),
      SerializeControllerResponse = (\<lambda>resp. if ctl_success resp then ''ok'' else ctl_message resp),
      SerializeControlResponse = (\<lambda>resp. if resp_success resp then ''ok'' else resp_message resp)\<rparr>"

definition example_moment :: moment where
  "example_moment = \<lparr>at_time = 0, random_uuid = 1, other_threads = \<lparr>while_planning = [], while_arming = []\<rparr>,
     manifest_snapshot = WorkUnitDirectory_init\<rparr>"

definition handle_example :: "ReshardService \<Rightarrow> string \<Rightarrow> ReshardService" where
  "handle_example svc bytes = snd (HandleFrame obliging_world example_codec example_moment svc bytes)"

definition example_service :: ReshardService where
  "example_service = foldl handle_example (ReshardService_init (\<lambda>t. t + 600) DeliverFramed False) [''unit'', ''blocks'']"

lemma example_reach: "service_reach obliging_world example_codec example_service"
  unfolding example_service_def handle_example_def foldl.simps
  by (intro service_reach.frame service_reach.started) (simp_all add: example_moment_def)

lemma example_validated: "Validate (registration_of (rank_metadata ''a'' 0 packed_region)) = OkStatus"
  "RaidenIdFromProto (unit_pb (rank_metadata ''a'' 0 packed_region)) = example_unit ''a''"
  by code_simp+

lemma example_directory_after:
  "IsRegisteredLocked (RegisterLocked WorkUnitDirectory_init (registration_of (rank_metadata ''a'' 0 packed_region))) (example_unit ''a'')"
  by code_simp

lemma example_rows: "map_of (request_blocks (registry example_service)) (''q'', example_unit ''a'') =
    Some \<lparr>row_uuid = 5, row_block_ids = [1, 2], row_expires_at = 600, row_pool_spans = []\<rparr>"
proof -
  have 1: "handle_example (ReshardService_init (\<lambda>t. t + 600) DeliverFramed False) ''unit'' =
      (ReshardService_init (\<lambda>t. t + 600) DeliverFramed False)\<lparr>directory :=
        RegisterLocked WorkUnitDirectory_init (registration_of (rank_metadata ''a'' 0 packed_region))\<rparr>"
    by (simp add: handle_example_def HandleFrame_def HandleRaidenCommand_def example_codec_def register_work_unit_def
      example_validated(1) set_registry_def ReshardService_init_def InvalidateUnitLocked_def RequestBlockRegistry_init_def)
  show ?thesis
    by (simp add: example_service_def 1) (simp add: handle_example_def HandleFrame_def example_codec_def
      is_controller_command_def HandleControllerCommand_def register_request_blocks_def example_moment_def
      Register_def validate_registration_def check_request_def register_locked_def Let_def example_directory_after
      ReshardService_init_def RequestBlockRegistry_init_def purge_all_def PurgeExpiredLifecycleLocked_def
      PurgeExpiredRequestBlocksLocked_def)
qed

theorem service_rows_registered_witness: "IsRegisteredLocked (directory example_service) (example_unit ''a'')"
  using service_rows_registered [OF example_reach] example_rows by blast

theorem worker_restart_invalidates_witness:
  "map_of (request_blocks (registry example_service)) (''q'', example_unit ''a'') \<noteq> None \<and>
   map_of (request_blocks (registry (handle_example example_service ''unit''))) (''q'', example_unit ''a'') = None"
proof -
  have "ParseControllerRequest example_codec ''unit'' = None"
    "ParseControlRequest example_codec ''unit'' = Some \<lparr>command = COMMAND_REGISTER_WORK_UNIT, peers = [],
       start_transfer_request = None, register_work_unit_request = Some (rank_metadata ''a'' 0 packed_region)\<rparr>"
    by (simp_all add: example_codec_def)
  then show ?thesis
    using worker_restart_invalidates [OF example_reach _ _ _ _ example_validated(2) [symmetric] surjective_pairing,
        of "''unit''" _ example_moment] example_rows
    by (simp add: example_validated(1) handle_example_def)
qed

end
