(* ===== verification/Spec2Isabelle.thy ===== *)
theory Spec2Isabelle
  imports BlockManager LruCache LiveSegments WorkUnits GlobalRegistry RequestBlocks Service
begin

text \<open>
  \<^bold>\<open>The program.\<close> tpu-raiden moves key-value cache blocks between TPU hosts. A host keeps its
  blocks in pools of a storage buffer, a cache of prefix hashes on top of a block allocator, and
  publishes what it holds in a global registry. A pool reshard moves the blocks of a request from
  the ranks of a producer to a consumer with another layout: the ranks register byte spans, a
  coordinator claims them, plans byte-exact schedules, arms the receiver and dispatches the senders.

  \<^bold>\<open>Theories and sources.\<close> Paths are below \<open>src/tpu_sync\<close>.
  \<^item> \<open>Prelude\<close>: status values, loops that may return early, 64-bit signed arithmetic, association
    lists for maps, decimal printing. Signed overflow and out-of-range indexing are the visible
    outcome \<open>Undefined\<close>, so a theorem that a call succeeds also says that neither happened.
  \<^item> \<open>BlockManager\<close>: \<open>kv_cache/logical_block_manager.cc\<close>. The record \<open>LogicalBlockManager\<close> is the
    vector of block states; \<open>lbm_step\<close> closes it under the operations. Allocation is exact, evicts in
    least-recently-used order and never touches locked blocks; the counters partition the pool.
  \<^item> \<open>LruCache\<close>: \<open>kv_cache/lru_cache.h\<close> over an explicit store of nodes and three lists of addresses.
    One invariant for all operations; pins are counted exactly and protect entries; eviction order
    and size bounds. A pin count beyond \<open>int\<close> is the outcome \<open>Undefined\<close>.
  \<^item> \<open>PoolLayout\<close> and \<open>LiveSegments\<close>: \<open>kv_cache/pool_layout.cc\<close>. Validated pools stay inside their
    storage, coverage and copy extents are exact, the runs of live bytes are numbered without gaps,
    and a compact-live copy moves byte \<open>i\<close> to byte \<open>i\<close>, once.
  \<^item> \<open>Declarations\<close> and \<open>WorkUnits\<close>: \<open>kv_cache/raiden_id.h\<close>, \<open>kv_cache/reshard/declaration_types.*\<close>,
    \<open>kv_cache/reshard/work_unit_directory.*\<close>. The two parallel vectors of the directory refine a map.
  \<^item> \<open>GlobalRegistry\<close>: \<open>kv_cache/global_registry/global_registry_server.cc\<close>. Every call is one
    step; the owner index mirrors the entries, lookups return the longest live prefix in rotation,
    cleaning up keeps the live view, the ownership stream ends and is truthful and complete for
    the states it reads, and placement is exact.
  \<^item> \<open>RequestBlocks\<close>: \<open>kv_cache/reshard/request_block_registry.cc\<close>. \<open>lifecycle_run\<close> runs any
    sequence of calls. Claims are exclusive until they are released, abandoned, voted complete or
    expired, cancelled generations stay cancelled until a release or until their tombstone
    expires, rows go when all units have voted, accepted spans are inside live bytes.
  \<^item> \<open>Planner\<close>, \<open>PlanCoverage\<close>, \<open>PlanShape\<close>: \<open>kv_cache/reshard/pool_reshard_planner.cc\<close>, its
    definitions, what each stage establishes and the shape of the result. A returned plan writes
    every byte of the covered prefixes exactly once, performs exactly the declared copies and is
    well formed.
  \<^item> \<open>TransferProgram\<close>: \<open>core/transfer_program_reshard.cc\<close>. Compiling and lowering a request gives
    the same message exactly for the requests the theorem names, and the theorem says what the
    others lose; the validator's verdict on compiled requests is exact.
  \<^item> \<open>Coordinator\<close>: \<open>kv_cache/reshard/reshard_coordinator.cc\<close>. It composes the directory, the
    registry, the planner and the programs. The messages of a plan carry its byte copies and agree
    with each other, and an attempt arms the receiver before any sender and leaves no claim when it
    fails before dispatch.
  \<^item> \<open>Service\<close>: \<open>kv_cache/reshard/reshard_service.cc\<close>. \<open>HandleFrame\<close> decodes a frame and runs the
    directory, registry and coordinator on it; \<open>service_reach\<close> closes the states under frames. Rows
    belong to registered units, and a restart of a worker invalidates the rows of its unit.

  \<^bold>\<open>Interfaces.\<close> The locales \<open>batch_operation\<close>, \<open>pin_protected\<close>, \<open>live_layout\<close>,
  \<open>replacement_map\<close> and \<open>registry_client\<close> state what one part relies on from another; each is interpreted on the
  definitions of the theory that provides it, and the properties rest on those interpretations.

  \<^bold>\<open>Parameters.\<close> Clock readings, random ids, the deadline function, the answers of transports and
  controllers, the wire codec, the order in which sender threads run and the calls of other threads
  are arguments. A mutex-protected call is one atomic step, and an unlocked sequence of
  calls is a sequence of steps with arbitrary steps of others in between.

  \<^bold>\<open>Bounds.\<close> No definition uses fuel: the loops whose recursion is not structural
  (\<open>RegionsCoverRange\<close>, \<open>translate_loop\<close>, \<open>split_loop\<close>, \<open>pull_loop\<close>, decimal printing) have termination proofs. Counters
  that wrap in the code are words; lengths that the code casts to \<open>int32\<close> are assumed to fit where
  a theorem depends on it, with at most \<open>2147483648\<close> transfer tags and source units. Times of the
  request registry are real numbers instead of doubles.

  \<^bold>\<open>Not modelled.\<close> The store, the offload backend, the cache managers, the controllers and workers,
  the block transport and Peregrine, weight synchronisation, the store node, telemetry, the
  framed socket layer with the hosting of the reshard service, and the framework bindings: most of
  their code is asynchronous glue over PJRT buffers, gRPC channels, sockets, shared memory and thread
  pools, and what it promises rests on libraries whose source is not part of the repository. The
  pure parts among them, such as the tiling of weights, are loops over shapes and vector
  intrinsics of such libraries. Log output and
  metrics of the modelled parts are left out.
\<close>

end
